(* ===== verification/Prelude.thy ===== *)
theory Prelude
  imports Main "HOL-Library.Word"
begin

text \<open>
  Shared vocabulary of the development: the C types the components use, the outcomes of a
  C function (a value, or a process that stopped), decimal printing as \<open>snprintf\<close> does it,
  views of memory regions as lists, and the generic lemmas on them.
\<close>

unbundle bit_operations_syntax

named_theorems c_ops \<comment> \<open>equations of C operations that evaluate a call on given arguments\<close>

section \<open>C types\<close>

text \<open>
  The content of a NUL-terminated C string (without its terminator) and any other run of
  bytes is a \<open>char list\<close>; HOL's \<open>char\<close> has exactly 256 values. \<open>size_t\<close> is kept at its
  width of 64 bits. A C \<open>int\<close> is an \<open>int\<close> with \<open>wrap32\<close> written out wherever the source
  can leave the 32-bit range.
\<close>

type_synonym bytes = "char list"
type_synonym size_t = "64 word"

abbreviation NUL :: char where
  "NUL \<equiv> CHR 0x00"

text \<open>The value of a \<open>char\<close> converted to \<open>unsigned char\<close> and promoted to \<open>int\<close>.\<close>

abbreviation uchar :: "char \<Rightarrow> int" where
  "uchar c \<equiv> of_char c"

text \<open>Storing an \<open>int\<close> into a \<open>char\<close> keeps its low eight bits.\<close>

definition to_char :: "int \<Rightarrow> char" where
  "to_char v = char_of (v mod 256)"

definition wrap32 :: "int \<Rightarrow> int" where
  "wrap32 x = (x + 2 ^ 31) mod 2 ^ 32 - 2 ^ 31"

definition INT_MAX :: int where
  "INT_MAX = 2 ^ 31 - 1"

lemma wrap32_id [simp]: "- (2 ^ 31) \<le> x \<Longrightarrow> x < 2 ^ 31 \<Longrightarrow> wrap32 x = x"
  by (simp add: wrap32_def)

lemma wrap32_range: "- (2 ^ 31) \<le> wrap32 x \<and> wrap32 x < 2 ^ 31"
proof -
  have "(x + 2 ^ 31) mod 2 ^ 32 < (2 ^ 32 :: int)" by (rule pos_mod_bound) simp
  moreover have "0 \<le> (x + 2 ^ 31) mod (2 ^ 32 :: int)" by (rule pos_mod_sign) simp
  ultimately show ?thesis by (simp add: wrap32_def)
qed

lemma of_char_range [simp]: "0 \<le> uchar c" "uchar c < 256" "uchar c \<le> 255"
proof -
  have n: "(of_char c :: nat) < 256" by simp
  have e: "uchar c = int (of_char c)" by (simp only: of_nat_of_char)
  from n e show "0 \<le> uchar c" "uchar c < 256" "uchar c \<le> 255" by linarith+
qed

lemma uchar_inject: "uchar c = uchar d \<longleftrightarrow> c = d"
  by (rule of_char_eq_iff)

lemma uchar_to_char [simp]: "uchar (to_char v) = v mod 256"
  by (simp add: to_char_def)

lemma to_char_uchar [simp]: "to_char (uchar c) = c"
  by (simp add: to_char_def)

lemma to_char_mod_256: "to_char v = to_char (v mod 256)"
  by (simp add: to_char_def)

section \<open>Outcomes\<close>

text \<open>
  A function that may stop the process returns \<open>Inl\<close> of the reason: \<open>Assertion\<close> is
  \<open>GUAC_ASSERT\<close> or \<open>abort()\<close>, \<open>Undefined\<close> is a division by zero, a null or stray pointer, and
  \<open>Deadlock\<close> is a wait that only the waiting thread itself could end.
\<close>

datatype fault = Assertion | Undefined | Deadlock

type_synonym 'a outcome = "fault + 'a"

definition guac_assert :: "bool \<Rightarrow> 'a outcome \<Rightarrow> 'a outcome" where
  "guac_assert b k = (if b then k else Inl Assertion)"

lemma guac_assert_simps [simp]:
  "guac_assert True k = k"
  "guac_assert False k = Inl Assertion"
  by (simp_all add: guac_assert_def)

lemma guac_assert_Inr [simp]: "guac_assert b k = Inr x \<longleftrightarrow> b \<and> k = Inr x"
  by (simp add: guac_assert_def)

text \<open>The error codes of \<open>error-types.h\<close> (\<open>guac_status\<close>).\<close>

datatype guac_status =
    GUAC_STATUS_SUCCESS
  | GUAC_STATUS_NO_MEMORY
  | GUAC_STATUS_CLOSED
  | GUAC_STATUS_TIMEOUT
  | GUAC_STATUS_SEE_ERRNO
  | GUAC_STATUS_IO_ERROR
  | GUAC_STATUS_INVALID_ARGUMENT
  | GUAC_STATUS_INTERNAL_ERROR
  | GUAC_STATUS_NO_SPACE
  | GUAC_STATUS_INPUT_TOO_LARGE
  | GUAC_STATUS_RESULT_TOO_LARGE
  | GUAC_STATUS_PERMISSION_DENIED
  | GUAC_STATUS_BUSY
  | GUAC_STATUS_NOT_AVAILABLE
  | GUAC_STATUS_NOT_SUPPORTED
  | GUAC_STATUS_NOT_IMPLEMENTED
  | GUAC_STATUS_TRY_AGAIN
  | GUAC_STATUS_PROTOCOL_ERROR
  | GUAC_STATUS_NOT_FOUND
  | GUAC_STATUS_CANCELED
  | GUAC_STATUS_OUT_OF_RANGE
  | GUAC_STATUS_REFUSED
  | GUAC_STATUS_TOO_MANY
  | GUAC_STATUS_WOULD_BLOCK

section \<open>Bounded quantifiers and words\<close>

lemma all_le_Suc_iff: "(\<forall>k \<le> Suc n. P k) \<longleftrightarrow> P 0 \<and> (\<forall>k \<le> n. P (Suc k))"
  by (metis Suc_le_mono le0 not0_implies_Suc)

lemma unat_size_t_less [simp]: "unat (w :: size_t) < 18446744073709551616"
proof -
  have "unat w < 2 ^ LENGTH(64)" by (rule unsigned_less)
  then show ?thesis by simp
qed

lemma unat_size_t_le [simp]: "unat (w :: size_t) \<le> 18446744073709551615"
  using unat_size_t_less [of w] by linarith

lemma unat_size_t_max: "unat (- 1 :: size_t) = 2 ^ 64 - 1"
  by (simp add: unsigned_minus_1_eq_mask mask_eq_exp_minus_1)

section \<open>Bit fields of integers\<close>

lemma and_low_bits: "x AND (2 ^ n - 1) = x mod 2 ^ n" for x :: int
  using take_bit_eq_mask [of n x] by (simp add: take_bit_eq_mod mask_eq_exp_minus_1)

text \<open>A multiple of \<open>2 ^ n\<close> and a value below \<open>2 ^ n\<close> share no bit.\<close>

lemma or_disjoint_add:
  fixes x y :: int
  assumes "0 \<le> y" "y < 2 ^ n"
  shows "(2 ^ n * x) OR y = 2 ^ n * x + y"
proof -
  have y: "take_bit n y = y" using assms by (simp add: take_bit_eq_mod)
  have "push_bit n x AND take_bit n y = 0"
    by (rule bit_eqI) (auto simp: bit_simps)
  then have "push_bit n x + take_bit n y = push_bit n x OR take_bit n y"
    by (rule disjunctive_add_eq_or)
  with y show ?thesis by (simp add: push_bit_eq_mult mult.commute)
qed

lemma or_128_add: "0 \<le> y \<Longrightarrow> y < 64 \<Longrightarrow> 128 OR y = 128 + y" for y :: int
  using or_disjoint_add [of y 6 2] by simp

lemma push_6_or_add: "0 \<le> y \<Longrightarrow> y < 64 \<Longrightarrow> push_bit 6 x OR y = x * 64 + y" for x y :: int
  using or_disjoint_add [of y 6 x] by (simp add: push_bit_eq_mult mult.commute)

lemma and_63_mod: "x AND 63 = x mod 64" for x :: int
  using and_low_bits [of x 6] by simp

section \<open>Decimal printing\<close>

text \<open>The digits \<open>snprintf\<close> prints for \<open>%i\<close>, \<open>%u\<close> and \<open>PRIi64\<close>.\<close>

definition digit_char :: "nat \<Rightarrow> char" where
  "digit_char d = to_char (48 + int d)"

fun show_nat :: "nat \<Rightarrow> string" where
  "show_nat n = (if n < 10 then [digit_char n] else show_nat (n div 10) @ [digit_char (n mod 10)])"

declare show_nat.simps [simp del]

definition show_int :: "int \<Rightarrow> string" where
  "show_int i = (if i < 0 then CHR ''-'' # show_nat (nat (- i)) else show_nat (nat i))"

definition is_digit :: "char \<Rightarrow> bool" where
  "is_digit c \<longleftrightarrow> 48 \<le> uchar c \<and> uchar c \<le> 57"

lemma uchar_digit_char [simp]: "d < 10 \<Longrightarrow> uchar (digit_char d) = 48 + int d"
  by (simp add: digit_char_def)

lemma is_digit_digit_char [simp]: "d < 10 \<Longrightarrow> is_digit (digit_char d)"
  by (simp add: is_digit_def)

lemma show_nat_nonempty [simp]: "show_nat n \<noteq> []"
  by (subst show_nat.simps) simp

lemma show_nat_digits: "list_all is_digit (show_nat n)"
proof (induction n rule: show_nat.induct)
  case (1 n)
  then show ?case by (subst show_nat.simps) simp
qed

text \<open>Reading digits back, as a left fold over the characters.\<close>

fun digits_val :: "nat \<Rightarrow> string \<Rightarrow> nat" where
  "digits_val v [] = v"
| "digits_val v (c # cs) = digits_val (v * 10 + nat (uchar c - 48)) cs"

lemma digits_val_append [simp]: "digits_val v (xs @ ys) = digits_val (digits_val v xs) ys"
  by (induction v xs rule: digits_val.induct) simp_all

lemma digits_val_show_nat [simp]: "digits_val 0 (show_nat n) = n"
proof (induction n rule: show_nat.induct)
  case (1 n)
  then show ?case by (subst show_nat.simps) (simp add: nat_add_distrib)
qed

lemma digits_val_ge: "v \<le> digits_val v xs"
proof (induction v xs rule: digits_val.induct)
  case (2 v c cs)
  then show ?case by simp
qed simp

lemma length_show_nat_le: "n < 10 ^ Suc k \<Longrightarrow> length (show_nat n) \<le> Suc k"
proof (induction k arbitrary: n)
  case 0
  then show ?case by (subst show_nat.simps) simp
next
  case (Suc k)
  have "n div 10 < 10 ^ Suc k" using Suc.prems by (simp add: less_mult_imp_div_less)
  then have "length (show_nat (n div 10)) \<le> Suc k" by (rule Suc.IH)
  then show ?case by (subst show_nat.simps) simp
qed

section \<open>Regions of memory\<close>

text \<open>\<open>holds mem o xs\<close>: the bytes at offset \<open>o\<close> of the array \<open>mem\<close> are \<open>xs\<close>.\<close>

definition holds :: "'a list \<Rightarrow> nat \<Rightarrow> 'a list \<Rightarrow> bool" where
  "holds mem p xs \<longleftrightarrow> p + length xs \<le> length mem \<and> take (length xs) (drop p mem) = xs"

text \<open>\<open>memcpy(mem + p, xs, length xs)\<close>.\<close>

definition blit :: "'a list \<Rightarrow> nat \<Rightarrow> 'a list \<Rightarrow> 'a list" where
  "blit mem p xs = take p mem @ xs @ drop (p + length xs) mem"

text \<open>The C string that starts at offset \<open>p\<close>.\<close>

definition cstr_at :: "bytes \<Rightarrow> nat \<Rightarrow> string" where
  "cstr_at mem p = takeWhile (\<lambda>c. c \<noteq> NUL) (drop p mem)"

lemma length_blit [simp]: "p + length xs \<le> length mem \<Longrightarrow> length (blit mem p xs) = length mem"
  by (simp add: blit_def)

lemma holds_Nil [simp]: "holds mem p [] \<longleftrightarrow> p \<le> length mem"
  by (simp add: holds_def)

lemma holds_append:
  "holds mem p (xs @ ys) \<longleftrightarrow> holds mem p xs \<and> holds mem (p + length xs) ys"
proof -
  have "take (length xs + length ys) (drop p mem) =
        take (length xs) (drop p mem) @ take (length ys) (drop (p + length xs) mem)"
    by (simp add: take_add add.commute)
  then show ?thesis
    by (auto simp: holds_def append_eq_append_conv)
qed

lemma holds_blit_before: "holds mem p xs \<Longrightarrow> p + length xs \<le> q \<Longrightarrow> q + length ys \<le> length mem
    \<Longrightarrow> holds (blit mem q ys) p xs"
  by (simp add: holds_def blit_def take_drop)

lemma holds_update_before:
  "holds mem p xs \<Longrightarrow> p + length xs \<le> q \<Longrightarrow> holds (mem[q := y]) p xs"
  by (simp add: holds_def drop_update_swap)

lemma holds_nth: "q < length mem \<Longrightarrow> holds mem q [mem ! q]"
  by (simp add: holds_def take_Suc_conv_app_nth)

lemma holds_snoc_update:
  assumes "holds mem p xs" "p + length xs < length mem"
  shows "holds (mem[p + length xs := y]) p (xs @ [y])"
  using assms holds_nth [of "p + length xs" "mem[p + length xs := y]"]
  by (simp add: holds_append holds_update_before)

lemma holds_prefix:
  assumes "holds mem p cs" "cs @ x = b @ y" "length b \<le> length cs"
  shows "holds mem p b"
proof -
  have "take (length b) cs = b" using assms(3) arg_cong [OF assms(2), of "take (length b)"] by simp
  then have "cs = b @ drop (length b) cs" by (metis append_take_drop_id)
  then show ?thesis using assms(1) holds_append by metis
qed

lemma holds_cstr_at:
  assumes "holds mem p (xs @ [NUL])" "NUL \<notin> set xs"
  shows "cstr_at mem p = xs"
proof -
  from assms(1) have "take (Suc (length xs)) (drop p mem) = xs @ [NUL]"
    by (simp add: holds_def)
  then have "drop p mem = (xs @ [NUL]) @ drop (Suc (length xs)) (drop p mem)"
    by (metis append_take_drop_id)
  then have "cstr_at mem p = takeWhile (\<lambda>c. c \<noteq> NUL) (xs @ [NUL] @ drop (Suc (length xs)) (drop p mem))"
    unfolding cstr_at_def by (metis append_assoc)
  also have "\<dots> = xs" using assms(2) by (subst takeWhile_append2) auto
  finally show ?thesis .
qed

end
