(* ===== verification/Mem.thy ===== *)
theory Mem
  imports Prelude
begin

text \<open>
  \<open>libguac/mem.c\<close>: sz arithmetic that refuses to wrap around, and the allocation
  functions built on it. \<open>factors\<close> and \<open>terms\<close> are the C arrays, whose count is their
  length; \<open>result\<close> is the value of the out parameter before the call, so a call returns the
  C return value and the out parameter after it. Everything is at the width of \<open>size_t\<close>.
\<close>

section \<open>Checked arithmetic\<close>

abbreviation SIZE_MAX :: size_t where
  "SIZE_MAX \<equiv> - 1"

text \<open>\<open>while (--factor_count && size)\<close>; \<open>None\<close> is the early \<open>return 1\<close>.\<close>

fun ckd_mul_loop :: "size_t \<Rightarrow> size_t list \<Rightarrow> size_t option" where
  "ckd_mul_loop sz [] = Some sz"
| "ckd_mul_loop sz (factor # factors) =
     (if sz = 0 then Some sz
      else let max_factor = SIZE_MAX div sz
           in if factor > max_factor then None else ckd_mul_loop (sz * factor) factors)"

fun PRIV_guac_mem_ckd_mul :: "size_t \<Rightarrow> size_t list \<Rightarrow> int \<times> size_t" where
  "PRIV_guac_mem_ckd_mul result [] = (1, result)"
| "PRIV_guac_mem_ckd_mul result (sz # factors) =
     (case ckd_mul_loop sz factors of None \<Rightarrow> (1, result) | Some sz' \<Rightarrow> (0, sz'))"

fun ckd_add_loop :: "size_t \<Rightarrow> size_t list \<Rightarrow> size_t option" where
  "ckd_add_loop sz [] = Some sz"
| "ckd_add_loop sz (t # terms) =
     (let max_term = SIZE_MAX - sz
      in if t > max_term then None else ckd_add_loop (sz + t) terms)"

fun PRIV_guac_mem_ckd_add :: "size_t \<Rightarrow> size_t list \<Rightarrow> int \<times> size_t" where
  "PRIV_guac_mem_ckd_add result [] = (1, result)"
| "PRIV_guac_mem_ckd_add result (sz # terms) =
     (case ckd_add_loop sz terms of None \<Rightarrow> (1, result) | Some sz' \<Rightarrow> (0, sz'))"

fun ckd_sub_loop :: "size_t \<Rightarrow> size_t list \<Rightarrow> size_t option" where
  "ckd_sub_loop sz [] = Some sz"
| "ckd_sub_loop sz (t # terms) =
     (if t > sz then None else ckd_sub_loop (sz - t) terms)"

fun PRIV_guac_mem_ckd_sub :: "size_t \<Rightarrow> size_t list \<Rightarrow> int \<times> size_t" where
  "PRIV_guac_mem_ckd_sub result [] = (1, result)"
| "PRIV_guac_mem_ckd_sub result (sz # terms) =
     (case ckd_sub_loop sz terms of None \<Rightarrow> (1, result) | Some sz' \<Rightarrow> (0, sz'))"

definition PRIV_guac_mem_ckd_mul_or_die :: "size_t list \<Rightarrow> size_t outcome" where
  "PRIV_guac_mem_ckd_mul_or_die factors =
     (let (r, result) = PRIV_guac_mem_ckd_mul 0 factors in guac_assert (r = 0) (Inr result))"

definition PRIV_guac_mem_ckd_add_or_die :: "size_t list \<Rightarrow> size_t outcome" where
  "PRIV_guac_mem_ckd_add_or_die terms =
     (let (r, result) = PRIV_guac_mem_ckd_add 0 terms in guac_assert (r = 0) (Inr result))"

definition PRIV_guac_mem_ckd_sub_or_die :: "size_t list \<Rightarrow> size_t outcome" where
  "PRIV_guac_mem_ckd_sub_or_die terms =
     (let (r, result) = PRIV_guac_mem_ckd_sub 0 terms in guac_assert (r = 0) (Inr result))"

section \<open>Allocation\<close>

text \<open>
  The allocator's state as these functions see it: the addresses of the live blocks and the
  thread's \<open>guac_error\<close>. The C library's own choice (at which address it serves a request of
  a given size, 0 being its refusal) is the parameter \<open>libc\<close>.
\<close>

record alloc_state =
  live :: "nat set"
  guac_error :: guac_status

definition libc_malloc :: "(size_t \<Rightarrow> nat) \<Rightarrow> size_t \<Rightarrow> alloc_state \<Rightarrow> nat \<times> alloc_state" where
  "libc_malloc libc sz h =
     (let p = libc sz in if p = 0 then (0, h) else (p, h\<lparr>live := insert p (live h)\<rparr>))"

definition libc_free :: "nat \<Rightarrow> alloc_state \<Rightarrow> alloc_state" where
  "libc_free p h = h\<lparr>live := live h - {p}\<rparr>"

definition libc_realloc ::
    "(size_t \<Rightarrow> nat) \<Rightarrow> nat \<Rightarrow> size_t \<Rightarrow> alloc_state \<Rightarrow> nat \<times> alloc_state" where
  "libc_realloc libc mem sz h =
     (let p = libc sz in if p = 0 then (0, h) else (p, h\<lparr>live := insert p (live h - {mem})\<rparr>))"

definition PRIV_guac_mem_free :: "nat \<Rightarrow> alloc_state \<Rightarrow> alloc_state" where
  "PRIV_guac_mem_free mem h = libc_free mem h"

definition PRIV_guac_mem_alloc ::
    "(size_t \<Rightarrow> nat) \<Rightarrow> size_t list \<Rightarrow> alloc_state \<Rightarrow> nat \<times> alloc_state" where
  "PRIV_guac_mem_alloc libc factors h =
     (let (r, sz) = PRIV_guac_mem_ckd_mul 0 factors
      in if r \<noteq> 0 then (0, h\<lparr>guac_error := GUAC_STATUS_NO_MEMORY\<rparr>)
         else if sz = 0 then (0, h)
         else let (mem, h') = libc_malloc libc sz h
              in if mem = 0 then (mem, h'\<lparr>guac_error := GUAC_STATUS_NO_MEMORY\<rparr>) else (mem, h'))"

text \<open>\<open>calloc(1, size)\<close> differs from \<open>malloc(size)\<close> only in the block's content.\<close>

definition PRIV_guac_mem_zalloc ::
    "(size_t \<Rightarrow> nat) \<Rightarrow> size_t list \<Rightarrow> alloc_state \<Rightarrow> nat \<times> alloc_state" where
  "PRIV_guac_mem_zalloc libc factors h =
     (let (r, sz) = PRIV_guac_mem_ckd_mul 0 factors
      in if r \<noteq> 0 then (0, h\<lparr>guac_error := GUAC_STATUS_NO_MEMORY\<rparr>)
         else if sz = 0 then (0, h)
         else let (mem, h') = libc_malloc libc sz h
              in if mem = 0 then (mem, h'\<lparr>guac_error := GUAC_STATUS_NO_MEMORY\<rparr>) else (mem, h'))"

definition PRIV_guac_mem_realloc ::
    "(size_t \<Rightarrow> nat) \<Rightarrow> nat \<Rightarrow> size_t list \<Rightarrow> alloc_state \<Rightarrow> nat \<times> alloc_state" where
  "PRIV_guac_mem_realloc libc mem factors h =
     (let (r, sz) = PRIV_guac_mem_ckd_mul 0 factors
      in if r \<noteq> 0 then (0, h\<lparr>guac_error := GUAC_STATUS_NO_MEMORY\<rparr>)
         else if sz = 0 then (0, PRIV_guac_mem_free mem h)
         else let (resized_mem, h') = libc_realloc libc mem sz h
              in if resized_mem = 0 then (resized_mem, h'\<lparr>guac_error := GUAC_STATUS_NO_MEMORY\<rparr>)
                 else (resized_mem, h'))"

definition PRIV_guac_mem_realloc_or_die ::
    "(size_t \<Rightarrow> nat) \<Rightarrow> nat \<Rightarrow> size_t list \<Rightarrow> alloc_state \<Rightarrow> (nat \<times> alloc_state) outcome" where
  "PRIV_guac_mem_realloc_or_die libc mem factors h =
     (let (resized_mem, h') = PRIV_guac_mem_realloc libc mem factors
                                (h\<lparr>guac_error := GUAC_STATUS_SUCCESS\<rparr>)
      in guac_assert (resized_mem \<noteq> 0 \<or> guac_error h' = GUAC_STATUS_SUCCESS)
           (Inr (resized_mem, h')))"

section \<open>The loops compute exact sums, products and differences\<close>

text \<open>\<open>factor > SIZE_MAX / size\<close> is exactly the test that the product leaves 64 bits.\<close>

lemma mul_fits_iff:
  assumes "sz \<noteq> 0"
  shows "factor \<le> SIZE_MAX div sz \<longleftrightarrow> unat sz * unat factor < 2 ^ 64"
proof -
  have "0 < unat sz" using assms by (simp add: unat_gt_0)
  then have "unat factor \<le> unat SIZE_MAX div unat sz \<longleftrightarrow> unat factor * unat sz \<le> unat SIZE_MAX"
    by (rule less_eq_div_iff_mult_less_eq)
  then show ?thesis
    by (simp add: word_le_nat_alt unat_div unat_size_t_max mult.commute less_eq_Suc_le)
qed

lemma unat_mul_fits: "unat sz * unat factor < 2 ^ 64 \<Longrightarrow> unat (sz * factor) = unat sz * unat factor"
  for sz factor :: size_t
  by (simp add: unat_word_ariths)

lemma ckd_mul_loop_iff:
  "ckd_mul_loop sz fs = (if \<forall>k \<le> length fs. unat sz * prod_list (map unat (take k fs)) < 2 ^ 64
                         then Some (of_nat (unat sz * prod_list (map unat fs))) else None)"
proof (induction sz fs rule: ckd_mul_loop.induct)
  case (2 sz factor factors)
  show ?case
  proof (cases "sz = 0 \<or> \<not> unat sz * unat factor < 2 ^ 64")
    case True
    then show ?thesis
      by (auto simp: Let_def mul_fits_iff not_le [symmetric] all_le_Suc_iff intro: exI [of _ 0])
  next
    case False
    then have "ckd_mul_loop sz (factor # factors) = ckd_mul_loop (sz * factor) factors"
      by (simp add: Let_def mul_fits_iff not_le [symmetric])
    also have "\<dots> = (if \<forall>k \<le> length factors.
          unat (sz * factor) * prod_list (map unat (take k factors)) < 2 ^ 64
        then Some (of_nat (unat (sz * factor) * prod_list (map unat factors))) else None)"
      using False by (intro "2.IH") (auto simp: mul_fits_iff not_less)
    also have "unat (sz * factor) = unat sz * unat factor"
      using False by (intro unat_mul_fits) simp
    finally show ?thesis
      by (simp add: all_le_Suc_iff mult.assoc del: ckd_mul_loop.simps)
  qed
qed simp

lemma ckd_add_loop_iff:
  "ckd_add_loop sz ts = (if unat sz + sum_list (map unat ts) < 2 ^ 64
                         then Some (of_nat (unat sz + sum_list (map unat ts))) else None)"
proof (induction sz ts rule: ckd_add_loop.induct)
  case (2 sz t terms)
  have "unat (SIZE_MAX - sz) = unat SIZE_MAX - unat sz"
    by (rule unat_sub) (simp add: word_le_nat_alt unat_size_t_max)
  then have fits: "t \<le> SIZE_MAX - sz \<longleftrightarrow> unat sz + unat t < 2 ^ 64"
    by (simp add: word_le_nat_alt unat_size_t_max) (use unat_size_t_le [of sz] in arith)
  show ?case
  proof (cases "unat sz + unat t < 2 ^ 64")
    case True
    then have "unat (sz + t) = unat sz + unat t" by (simp add: unat_word_ariths)
    with True fits 2 show ?thesis by (simp add: not_le [symmetric] add.assoc)
  next
    case False
    with fits show ?thesis by (simp add: not_le [symmetric])
  qed
qed simp

lemma ckd_sub_loop_iff:
  "ckd_sub_loop sz ts = (if sum_list (map unat ts) \<le> unat sz
                         then Some (of_nat (unat sz - sum_list (map unat ts))) else None)"
proof (induction sz ts rule: ckd_sub_loop.induct)
  case (2 sz t terms)
  show ?case
  proof (cases "t \<le> sz")
    case True
    then have "unat (sz - t) = unat sz - unat t" "unat t \<le> unat sz"
      by (simp_all add: unat_sub word_le_nat_alt)
    with True 2 show ?thesis by (simp add: not_le [symmetric] le_diff_conv2)
  next
    case False
    then show ?thesis by (simp add: word_le_nat_alt word_less_nat_alt)
  qed
qed simp

text \<open>The specification of success: there is a factor, and no partial product leaves 64 bits.\<close>

definition product_fits :: "size_t list \<Rightarrow> bool" where
  "product_fits fs \<longleftrightarrow> fs \<noteq> [] \<and>
     list_all (\<lambda>k. prod_list (map unat (take k fs)) < 2 ^ 64) [0..<Suc (length fs)]"

lemma product_fits_alt:
  "product_fits fs \<longleftrightarrow> fs \<noteq> [] \<and> (\<forall>k \<le> length fs. prod_list (map unat (take k fs)) < 2 ^ 64)"
  by (auto simp: product_fits_def list_all_iff)

lemma PRIV_guac_mem_ckd_mul_eq:
  "PRIV_guac_mem_ckd_mul result fs =
     (if product_fits fs then (0, of_nat (prod_list (map unat fs))) else (1, result))"
  by (cases fs) (auto simp: product_fits_alt ckd_mul_loop_iff all_le_Suc_iff)

lemma product_fits_of_nat_0:
  assumes "product_fits fs"
  shows "(of_nat (prod_list (map unat fs)) :: size_t) = 0 \<longleftrightarrow> prod_list (map unat fs) = 0"
proof -
  from assms have "prod_list (map unat (take (length fs) fs)) < 2 ^ 64"
    unfolding product_fits_alt by blast
  then have "unat (of_nat (prod_list (map unat fs)) :: size_t) = prod_list (map unat fs)"
    by (simp add: unat_of_nat)
  then show ?thesis by (metis unat_eq_zero unat_0)
qed

section \<open>Properties\<close>

text \<open>
  C17: checked multiplication never wraps: it succeeds exactly when there is a factor and every
  partial product fits in \<open>size_t\<close>, and then returns the exact product; otherwise it reports
  failure and leaves the out parameter alone.
\<close>

theorem guac_mem_ckd_mul_exact:
  "PRIV_guac_mem_ckd_mul result fs =
     (if product_fits fs then (0, of_nat (prod_list (map unat fs))) else (1, result))"
  by (rule PRIV_guac_mem_ckd_mul_eq)

text \<open>
  Checked addition and subtraction are exact: addition fails exactly when the sum leaves
  \<open>size_t\<close>, subtraction exactly when the terms after the first exceed it.
\<close>

theorem guac_mem_ckd_add_sub_exact:
  "PRIV_guac_mem_ckd_add result ts =
     (if ts \<noteq> [] \<and> sum_list (map unat ts) < 2 ^ 64
      then (0, of_nat (sum_list (map unat ts))) else (1, result)) \<and>
   PRIV_guac_mem_ckd_sub result ts =
     (if ts \<noteq> [] \<and> sum_list (map unat (tl ts)) \<le> unat (hd ts)
      then (0, of_nat (unat (hd ts) - sum_list (map unat (tl ts)))) else (1, result))"
  by (cases ts) (simp_all add: ckd_add_loop_iff ckd_sub_loop_iff del: of_nat_add)

text \<open>
  C18: an allocation asks the C library for exactly the product of the factors, and only when
  that product is exact and nonzero; it returns \<open>NULL\<close> and sets \<open>GUAC_STATUS_NO_MEMORY\<close> when
  the product overflows or the library refuses.
\<close>

theorem guac_mem_alloc_exact:
  assumes "PRIV_guac_mem_alloc libc fs h = (mem, h')"
  shows "if product_fits fs
         then (let n = prod_list (map unat fs)
               in mem = (if n = 0 then 0 else libc (of_nat n)) \<and>
                  live h' = (if mem = 0 then live h else insert mem (live h)) \<and>
                  guac_error h' = (if n \<noteq> 0 \<and> mem = 0 then GUAC_STATUS_NO_MEMORY else guac_error h))
         else mem = 0 \<and> h' = h\<lparr>guac_error := GUAC_STATUS_NO_MEMORY\<rparr>"
proof (cases "product_fits fs")
  case True
  with product_fits_of_nat_0 [OF True] assms show ?thesis
    by (auto simp: PRIV_guac_mem_alloc_def PRIV_guac_mem_ckd_mul_eq libc_malloc_def Let_def
             split: if_splits)
next
  case False
  with assms show ?thesis
    by (simp add: PRIV_guac_mem_alloc_def PRIV_guac_mem_ckd_mul_eq)
qed

theorem guac_mem_alloc_exact_witness:
  "snd (PRIV_guac_mem_alloc (\<lambda>n. unat n + 1) [4, 2] \<lparr>live = {}, guac_error = GUAC_STATUS_SUCCESS\<rparr>)
     = \<lparr>live = {9}, guac_error = GUAC_STATUS_SUCCESS\<rparr>"
proof -
  let ?h = "\<lparr>live = {}, guac_error = GUAC_STATUS_SUCCESS\<rparr>"
  obtain mem h' where m: "PRIV_guac_mem_alloc (\<lambda>n. unat n + 1) [4, 2] ?h = (mem, h')"
    by (cases "PRIV_guac_mem_alloc (\<lambda>n. unat n + 1) [4, 2] ?h") auto
  have "product_fits [4, 2]" by (simp add: product_fits_def)
  with guac_mem_alloc_exact [OF m] m show ?thesis
    by (cases h') simp
qed

end
