(* ===== verification/Unicode.thy ===== *)
theory Unicode
  imports Prelude
begin

text \<open>
  \<open>libguac/unicode.c\<close>: the length of a UTF-8 character from its first byte, the number of
  characters of a string, and writing and reading one code point. Buffers are lists of bytes;
  a C \<open>length\<close> argument stays a separate \<open>int\<close>, as the callers pass it.
\<close>

section \<open>Operations\<close>

definition guac_utf8_charsize :: "int \<Rightarrow> nat" where
  "guac_utf8_charsize c =
     (if (c OR 0x7F) = 0x7F then 1
      else if (c OR 0x1F) = 0xDF then 2
      else if (c OR 0x0F) = 0xEF then 3
      else if (c OR 0x07) = 0xF7 then 4
      else 1)"

text \<open>The loop of \<open>guac_utf8_strlen\<close>, with its counters \<open>length\<close> and \<open>skip\<close>.\<close>

fun utf8_strlen_loop :: "nat \<Rightarrow> nat \<Rightarrow> string \<Rightarrow> nat" where
  "utf8_strlen_loop len skip [] = len"
| "utf8_strlen_loop len skip (c # str) =
     (if skip > 0 then utf8_strlen_loop len (skip - 1) str
      else utf8_strlen_loop (len + 1) (guac_utf8_charsize (uchar c) - 1) str)"

definition guac_utf8_strlen :: "string \<Rightarrow> nat" where
  "guac_utf8_strlen str = utf8_strlen_loop 0 0 str"

text \<open>
  The bytes \<open>guac_utf8_write\<close> stores and the value it returns. The trailing bytes are stored
  from the last to the first, six bits at a time; \<open>acc\<close> holds what is already stored.
\<close>

fun utf8_write_trailing :: "nat \<Rightarrow> int \<Rightarrow> bytes \<Rightarrow> int \<times> bytes" where
  "utf8_write_trailing 0 codepoint acc = (codepoint, acc)"
| "utf8_write_trailing (Suc n) codepoint acc =
     utf8_write_trailing n (drop_bit 6 codepoint) (to_char (0x80 OR (codepoint AND 0x3F)) # acc)"

definition utf8_write_bytes :: "int \<Rightarrow> nat \<Rightarrow> int \<Rightarrow> bytes" where
  "utf8_write_bytes msk n codepoint =
     (case utf8_write_trailing (n - 1) codepoint [] of (cp, trail) \<Rightarrow> to_char (msk OR cp) # trail)"

definition guac_utf8_write :: "int \<Rightarrow> int \<Rightarrow> int \<times> bytes" where
  "guac_utf8_write codepoint len =
     (if len \<le> 0 then (0, [])
      else case (if codepoint \<le> 0x007F then Some (0x00, 1)
                 else if codepoint \<le> 0x7FF then Some (0xC0, 2)
                 else if codepoint \<le> 0xFFFF then Some (0xE0, 3)
                 else if codepoint \<le> 0x1FFFFF then Some (0xF0, 4)
                 else None) of
             None \<Rightarrow> (1, ''?'')
           | Some (msk, n) \<Rightarrow>
               if int n > len then (0, []) else (int n, utf8_write_bytes msk n codepoint))"

text \<open>
  \<open>guac_utf8_read\<close> returns the number of bytes read and the code point it stored, if any. A
  trailing byte is a plain \<open>char\<close>; the mask keeps its low six bits whatever its sign.
\<close>

fun utf8_read_trailing :: "nat \<Rightarrow> int \<Rightarrow> bytes \<Rightarrow> int" where
  "utf8_read_trailing (Suc n) result (c # utf8) =
     utf8_read_trailing n (push_bit 6 result OR (uchar c AND 0x3F)) utf8"
| "utf8_read_trailing _ result _ = result"

definition guac_utf8_read :: "bytes \<Rightarrow> int \<Rightarrow> int \<times> int option" where
  "guac_utf8_read utf8 len =
     (if len \<le> 0 then (0, None)
      else let initial = uchar (hd utf8);
               read = (\<lambda>result n. if int n > len then (0, None)
                         else (int n, Some (utf8_read_trailing (n - 1) result (tl utf8))))
           in if (initial OR 0x7F) = 0x7F then read initial 1
              else if (initial OR 0x1F) = 0xDF then read (initial AND 0x1F) 2
              else if (initial OR 0x0F) = 0xEF then read (initial AND 0x0F) 3
              else if (initial OR 0x07) = 0xF7 then read (initial AND 0x07) 4
              else (1, Some 0xFFFD))"

section \<open>Characters\<close>

text \<open>Facts about single bytes are settled by listing the 256 of them.\<close>

lemma byte_cases:
  assumes "\<forall>v \<in> set [0..255]. P v" "0 \<le> v" "v \<le> 255"
  shows "P v"
  using assms by simp

lemma charsize_byte:
  "0 \<le> v \<Longrightarrow> v \<le> 255 \<Longrightarrow> guac_utf8_charsize v =
     (if v < 128 then 1 else if v < 192 then 1 else if v < 224 then 2
      else if v < 240 then 3 else if v < 248 then 4 else 1)"
proof (rule byte_cases [where v = v])
  show "\<forall>v \<in> set [0..255]. guac_utf8_charsize v =
     (if v < 128 then 1 else if v < 192 then 1 else if v < 224 then 2
      else if v < 240 then 3 else if v < 248 then 4 else 1)"
    by code_simp
qed simp_all

lemma charsize_pos [simp]: "0 < guac_utf8_charsize c"
  by (simp add: guac_utf8_charsize_def)

lemma charsize_le_4: "guac_utf8_charsize c \<le> 4"
  by (simp add: guac_utf8_charsize_def)

lemma charsize_ascii [simp]: "uchar c < 128 \<Longrightarrow> guac_utf8_charsize (uchar c) = 1"
  by (simp add: charsize_byte)

text \<open>
  \<open>utf8_complete str\<close>: stepping through \<open>str\<close> by \<open>guac_utf8_charsize\<close> ends exactly at its end,
  so no character is cut off. \<open>utf8_count\<close> is the number of steps.
\<close>

function utf8_complete :: "string \<Rightarrow> bool" where
  "utf8_complete [] = True"
| "utf8_complete (c # str) =
     (guac_utf8_charsize (uchar c) \<le> Suc (length str) \<and>
      utf8_complete (drop (guac_utf8_charsize (uchar c) - 1) str))"
  by pat_completeness auto
termination
  by (relation "measure length") auto

lemma utf8_strlen_loop_drop:
  "utf8_strlen_loop len skip str = utf8_strlen_loop len 0 (drop skip str)"
proof (induction str arbitrary: skip)
  case (Cons c str)
  show ?case
  proof (cases skip)
    case (Suc n)
    have "utf8_strlen_loop len skip (c # str) = utf8_strlen_loop len n str" using Suc by simp
    also have "\<dots> = utf8_strlen_loop len 0 (drop n str)" by (rule Cons)
    finally show ?thesis using Suc by simp
  qed simp
qed simp

lemma utf8_strlen_loop_len: "utf8_strlen_loop len skip str = len + utf8_strlen_loop 0 skip str"
proof (induction str arbitrary: len skip)
  case (Cons c str)
  show ?case
  proof (cases "skip > 0")
    case True
    then show ?thesis using Cons [of len "skip - 1"] by simp
  next
    case False
    then show ?thesis
      using Cons [of "len + 1" "guac_utf8_charsize (uchar c) - 1"]
        Cons [of 1 "guac_utf8_charsize (uchar c) - 1"] by simp
  qed
qed simp

lemma strlen_Nil [simp]: "guac_utf8_strlen [] = 0"
  by (simp add: guac_utf8_strlen_def)

lemma strlen_Cons:
  "guac_utf8_strlen (c # str) = Suc (guac_utf8_strlen (drop (guac_utf8_charsize (uchar c) - 1) str))"
proof -
  let ?k = "guac_utf8_charsize (uchar c) - 1"
  have "guac_utf8_strlen (c # str) = utf8_strlen_loop 1 ?k str"
    by (simp add: guac_utf8_strlen_def)
  also have "\<dots> = utf8_strlen_loop 1 0 (drop ?k str)" by (rule utf8_strlen_loop_drop)
  also have "\<dots> = 1 + utf8_strlen_loop 0 0 (drop ?k str)" by (rule utf8_strlen_loop_len)
  finally show ?thesis by (simp add: guac_utf8_strlen_def)
qed

lemma strlen_le_length: "guac_utf8_strlen str \<le> length str"
proof (induction str rule: utf8_complete.induct)
  case (2 c str)
  have "guac_utf8_strlen (drop (guac_utf8_charsize (uchar c) - 1) str)
      \<le> length (drop (guac_utf8_charsize (uchar c) - 1) str)"
    by (rule 2)
  then show ?case by (simp add: strlen_Cons)
qed simp

lemma strlen_eq_0 [simp]: "guac_utf8_strlen str = 0 \<longleftrightarrow> str = []"
  by (cases str) (simp_all add: strlen_Cons)

lemma utf8_complete_append [simp]:
  "utf8_complete xs \<Longrightarrow> utf8_complete (xs @ ys) = utf8_complete ys"
  by (induction xs rule: utf8_complete.induct) auto

lemma strlen_append [simp]:
  "utf8_complete xs \<Longrightarrow> guac_utf8_strlen (xs @ ys) = guac_utf8_strlen xs + guac_utf8_strlen ys"
  by (induction xs rule: utf8_complete.induct) (auto simp: strlen_Cons)

definition ascii :: "string \<Rightarrow> bool" where
  "ascii str \<longleftrightarrow> list_all (\<lambda>c. uchar c < 128) str"

lemma ascii_simps [simp]:
  "ascii []" "ascii (c # str) \<longleftrightarrow> uchar c < 128 \<and> ascii str"
  "ascii (xs @ ys) \<longleftrightarrow> ascii xs \<and> ascii ys"
  by (simp_all add: ascii_def)

lemma ascii_complete [simp]: "ascii str \<Longrightarrow> utf8_complete str"
  by (induction str) simp_all

lemma ascii_strlen [simp]: "ascii str \<Longrightarrow> guac_utf8_strlen str = length str"
  by (induction str) (simp_all add: strlen_Cons)

lemma ascii_digits [simp]: "list_all is_digit str \<Longrightarrow> ascii str"
  by (induction str) (auto simp: is_digit_def)

lemma ascii_show_nat [simp]: "ascii (show_nat n)"
  by (simp add: show_nat_digits)

lemma ascii_show_int [simp]: "ascii (show_int i)"
  by (simp add: show_int_def)

section \<open>Writing and reading a code point\<close>

text \<open>The bytes written, in closed form: a first byte and the six-bit groups below it.\<close>

definition trail_byte :: "int \<Rightarrow> char" where
  "trail_byte v = to_char (128 + v mod 64)"

lemma uchar_trail_byte [simp]: "uchar (trail_byte v) = 128 + v mod 64"
proof -
  have "0 \<le> v mod 64" "v mod 64 < 64" by simp_all
  then show ?thesis by (simp add: trail_byte_def)
qed

declare utf8_write_trailing.simps(2) [simp del] utf8_read_trailing.simps(1) [simp del]

lemma utf8_write_trailing_Suc [simp]:
  "utf8_write_trailing (Suc n) cp acc = utf8_write_trailing n (cp div 64) (trail_byte cp # acc)"
  by (simp add: utf8_write_trailing.simps(2) trail_byte_def and_63_mod or_128_add drop_bit_eq_div)

lemma utf8_write_bytes_simps:
  "utf8_write_bytes m 1 cp = [to_char (m OR cp)]"
  "utf8_write_bytes m 2 cp = [to_char (m OR cp div 64), trail_byte cp]"
  "utf8_write_bytes m 3 cp = [to_char (m OR cp div 64 div 64), trail_byte (cp div 64), trail_byte cp]"
  "utf8_write_bytes m 4 cp = [to_char (m OR cp div 64 div 64 div 64), trail_byte (cp div 64 div 64),
     trail_byte (cp div 64), trail_byte cp]"
  by (simp_all add: utf8_write_bytes_def numeral_2_eq_2 numeral_3_eq_3 eval_nat_numeral)

lemma utf8_read_trailing_Suc [simp]:
  "utf8_read_trailing (Suc n) result (c # utf8) =
     utf8_read_trailing n (result * 64 + uchar c mod 64) utf8"
  by (simp add: utf8_read_trailing.simps(1) and_63_mod push_6_or_add)

lemma trail_payload [simp]: "(128 + v mod 64) mod 64 = v mod 64" for v :: int
  using mod_add_left_eq [of 128 64 "v mod 64"] by simp

text \<open>What \<open>guac_utf8_read\<close> does with a first byte, by its value.\<close>

lemma first_byte_masks:
  "0 \<le> v \<Longrightarrow> v \<le> 255 \<Longrightarrow>
     ((v OR 0x7F) = 0x7F \<longleftrightarrow> v < 128) \<and>
     ((v OR 0x1F) = 0xDF \<longleftrightarrow> 192 \<le> v \<and> v < 224) \<and>
     ((v OR 0x0F) = 0xEF \<longleftrightarrow> 224 \<le> v \<and> v < 240) \<and>
     ((v OR 0x07) = 0xF7 \<longleftrightarrow> 240 \<le> v \<and> v < 248) \<and>
     v AND 0x1F = v mod 32 \<and> v AND 0x0F = v mod 16 \<and> v AND 0x07 = v mod 8"
  for v :: int
proof (rule byte_cases [where v = v])
  show "\<forall>v :: int \<in> set [0..255]. ((v OR 0x7F) = 0x7F \<longleftrightarrow> v < 128) \<and>
     ((v OR 0x1F) = 0xDF \<longleftrightarrow> 192 \<le> v \<and> v < 224) \<and>
     ((v OR 0x0F) = 0xEF \<longleftrightarrow> 224 \<le> v \<and> v < 240) \<and>
     ((v OR 0x07) = 0xF7 \<longleftrightarrow> 240 \<le> v \<and> v < 248) \<and>
     v AND 0x1F = v mod 32 \<and> v AND 0x0F = v mod 16 \<and> v AND 0x07 = v mod 8"
    by code_simp
qed simp_all

lemma guac_utf8_read_byte:
  assumes "0 < len"
  shows "guac_utf8_read (c # utf8) len =
    (let v = uchar c;
         read = (\<lambda>result n. if int n > len then (0, None)
                   else (int n, Some (utf8_read_trailing (n - 1) result utf8)))
     in if v < 128 then read v 1
        else if v < 192 then (1, Some 0xFFFD)
        else if v < 224 then read (v mod 32) 2
        else if v < 240 then read (v mod 16) 3
        else if v < 248 then read (v mod 8) 4
        else (1, Some 0xFFFD))"
  using assms first_byte_masks [of "uchar c"] by (simp add: guac_utf8_read_def Let_def)

text \<open>The number of bytes of the encoding of a code point.\<close>

definition utf8_size :: "int \<Rightarrow> nat" where
  "utf8_size cp = (if cp \<le> 0x7F then 1 else if cp \<le> 0x7FF then 2 else if cp \<le> 0xFFFF then 3 else 4)"

lemma or_C0: "0 \<le> y \<Longrightarrow> y < 32 \<Longrightarrow> 192 OR y = 192 + y" for y :: int
  using or_disjoint_add [of y 5 6] by simp

lemma or_E0: "0 \<le> y \<Longrightarrow> y < 16 \<Longrightarrow> 224 OR y = 224 + y" for y :: int
  using or_disjoint_add [of y 4 14] by simp

lemma or_F0: "0 \<le> y \<Longrightarrow> y < 8 \<Longrightarrow> 240 OR y = 240 + y" for y :: int
  using or_disjoint_add [of y 3 30] by simp

lemma guac_utf8_write_bytes:
  assumes "0 \<le> cp" "cp \<le> 0x1FFFFF" "int (utf8_size cp) \<le> len"
  shows "guac_utf8_write cp len = (int (utf8_size cp),
    if cp \<le> 0x7F then [to_char cp]
    else if cp \<le> 0x7FF then [to_char (192 + cp div 64), trail_byte cp]
    else if cp \<le> 0xFFFF then [to_char (224 + cp div 64 div 64), trail_byte (cp div 64), trail_byte cp]
    else [to_char (240 + cp div 64 div 64 div 64), trail_byte (cp div 64 div 64),
          trail_byte (cp div 64), trail_byte cp])"
proof -
  have "cp \<le> 0x7FF \<Longrightarrow> 192 OR cp div 64 = 192 + cp div 64"
    using assms by (intro or_C0) linarith+
  moreover have "cp \<le> 0xFFFF \<Longrightarrow> 224 OR cp div 64 div 64 = 224 + cp div 64 div 64"
    using assms by (intro or_E0) linarith+
  moreover have "240 OR cp div 64 div 64 div 64 = 240 + cp div 64 div 64 div 64"
    using assms by (intro or_F0) linarith+
  ultimately show ?thesis
    using assms
    by (auto simp: guac_utf8_write_def utf8_size_def utf8_write_bytes_simps simp del: One_nat_def
             split: if_splits)
qed

text \<open>The encoding of each size, read back.\<close>

lemma first_byte_payload:
  fixes k y :: int
  assumes "0 \<le> y" "y < m" "k mod m = 0"
  shows "(k + y) mod m = y"
proof -
  have "(k + y) mod m = (k mod m + y) mod m" by (simp only: mod_add_left_eq)
  with assms show ?thesis by simp
qed

lemma read_trailing_1: "utf8_read_trailing 1 (cp div 64) (trail_byte cp # rest) = cp"
  by (simp only: One_nat_def utf8_read_trailing_Suc utf8_read_trailing.simps uchar_trail_byte
        trail_payload div_mult_mod_eq)

lemma read_trailing_2:
  "utf8_read_trailing 2 (cp div 64 div 64) (trail_byte (cp div 64) # trail_byte cp # rest) = cp"
  using read_trailing_1 [of cp rest]
  by (simp only: numeral_2_eq_2 One_nat_def utf8_read_trailing_Suc uchar_trail_byte
        trail_payload div_mult_mod_eq)

lemma read_trailing_3:
  "utf8_read_trailing 3 (cp div 64 div 64 div 64)
     (trail_byte (cp div 64 div 64) # trail_byte (cp div 64) # trail_byte cp # rest) = cp"
  using read_trailing_2 [of cp rest]
  by (simp only: numeral_3_eq_3 numeral_2_eq_2 utf8_read_trailing_Suc uchar_trail_byte
        trail_payload div_mult_mod_eq)

lemma read_2:
  assumes "0 \<le> cp" "cp \<le> 0x7FF" "2 \<le> len"
  shows "guac_utf8_read (to_char (192 + cp div 64) # trail_byte cp # rest) len = (2, Some cp)"
proof -
  define q where "q = cp div 64"
  have b: "0 \<le> q" "q < 32" using assms unfolding q_def by linarith+
  have "utf8_read_trailing 1 q (trail_byte cp # rest) = cp"
    unfolding q_def by (rule read_trailing_1)
  with assms(3) b show ?thesis
    unfolding q_def [symmetric] by (simp add: guac_utf8_read_byte Let_def first_byte_payload)
qed

lemma read_3:
  assumes "0x7FF < cp" "cp \<le> 0xFFFF" "3 \<le> len"
  shows "guac_utf8_read (to_char (224 + cp div 64 div 64) # trail_byte (cp div 64) # trail_byte cp # rest) len
    = (3, Some cp)"
proof -
  define q where "q = cp div 64 div 64"
  have b: "0 \<le> q" "q < 16" using assms unfolding q_def by linarith+
  have "utf8_read_trailing 2 q (trail_byte (cp div 64) # trail_byte cp # rest) = cp"
    unfolding q_def by (rule read_trailing_2)
  with assms(3) b show ?thesis
    unfolding q_def [symmetric] by (simp add: guac_utf8_read_byte Let_def first_byte_payload)
qed

lemma read_4:
  assumes "0xFFFF < cp" "cp \<le> 0x1FFFFF" "4 \<le> len"
  shows "guac_utf8_read (to_char (240 + cp div 64 div 64 div 64) # trail_byte (cp div 64 div 64) #
      trail_byte (cp div 64) # trail_byte cp # rest) len = (4, Some cp)"
proof -
  define q where "q = cp div 64 div 64 div 64"
  have b: "0 \<le> q" "q < 8" using assms unfolding q_def by linarith+
  have "utf8_read_trailing 3 q
     (trail_byte (cp div 64 div 64) # trail_byte (cp div 64) # trail_byte cp # rest) = cp"
    unfolding q_def by (rule read_trailing_3)
  with assms(3) b show ?thesis
    unfolding q_def [symmetric] by (simp add: guac_utf8_read_byte Let_def first_byte_payload)
qed

section \<open>Properties\<close>

text \<open>
  C16: UTF-8 round trip. A code point up to \<open>0x1FFFFF\<close> that \<open>guac_utf8_write\<close> has room for is
  stored as \<open>n\<close> bytes, \<open>guac_utf8_charsize\<close> of the first of them is \<open>n\<close>, and reading from a
  buffer that starts with them consumes exactly them and gives the code point back.
\<close>

theorem guac_utf8_roundtrip:
  assumes "0 \<le> cp" "cp \<le> 0x1FFFFF" "int (utf8_size cp) \<le> len" "guac_utf8_write cp len = (n, bs)"
  shows "n = int (length bs) \<and> length bs = utf8_size cp \<and>
    guac_utf8_charsize (uchar (hd bs)) = length bs \<and>
    guac_utf8_read (bs @ rest) (int (length (bs @ rest))) = (n, Some cp)"
proof -
  note w = guac_utf8_write_bytes [OF assms(1-3), unfolded assms(4), simplified]
  consider "cp \<le> 0x7F" | "0x7F < cp" "cp \<le> 0x7FF" | "0x7FF < cp" "cp \<le> 0xFFFF" | "0xFFFF < cp"
    by linarith
  then show ?thesis
  proof cases
    case 1
    with w assms show ?thesis by (simp add: utf8_size_def charsize_byte guac_utf8_read_byte Let_def)
  next
    case 2
    then have "0 \<le> cp div 64" "cp div 64 < 32" by linarith+
    with 2 w assms show ?thesis by (simp add: utf8_size_def charsize_byte read_2)
  next
    case 3
    then have "0 \<le> cp div 64 div 64" "cp div 64 div 64 < 16" by linarith+
    with 3 w assms show ?thesis by (simp add: utf8_size_def charsize_byte read_3)
  next
    case 4
    then have "0 \<le> cp div 64 div 64 div 64" "cp div 64 div 64 div 64 < 8" using assms by linarith+
    with 4 w assms show ?thesis by (simp add: utf8_size_def charsize_byte read_4)
  qed
qed

theorem guac_utf8_roundtrip_witness:
  "guac_utf8_read (snd (guac_utf8_write 0x20AC 3) @ ''x'') 4 = (3, Some 0x20AC)"
proof -
  have w: "guac_utf8_write 0x20AC 3 = (3, [CHR 0xE2, CHR 0x82, CHR 0xAC])" by code_simp
  from guac_utf8_roundtrip [OF _ _ _ w, of "''x''"] w show ?thesis
    by (simp add: utf8_size_def)
qed

end
