(* ===== verification/Socket.thy ===== *)
theory Socket
  imports Unicode
begin

text \<open>
  \<open>libguac/socket.c\<close>: the \<open>guac_socket\<close> object, whose input and output go through handlers
  that the kind of socket installs, and the base64 writer. A handler of the source receives the
  socket and works on \<open>socket->data\<close>; here it is a function on that data. The time source read by
  \<open>guac_timestamp_current\<close> is an arbitrary sequence of readings (\<open>clock\<close>, of which \<open>ticks\<close>
  have been taken).

  An operation returns \<open>Some\<close> of its C return value and the socket after it. \<open>None\<close> is the
  absence of a result: the write loop never ends (a handler that keeps accepting nothing) or a
  handler claims to have written more than it was given, which takes the loop outside its buffer.
\<close>

section \<open>State\<close>

datatype guac_socket_state = GUAC_SOCKET_OPEN | GUAC_SOCKET_CLOSED

record 'd guac_socket =
  data :: 'd
  read_handler :: "('d \<Rightarrow> nat \<Rightarrow> int \<times> bytes \<times> 'd) option" \<comment> \<open>return value, bytes stored\<close>
  write_handler :: "('d \<Rightarrow> bytes \<Rightarrow> int \<times> 'd) option"
  select_handler :: "('d \<Rightarrow> int \<Rightarrow> int \<times> 'd) option"
  free_handler :: "('d \<Rightarrow> 'd) option"
  flush_handler :: "('d \<Rightarrow> int \<times> 'd) option"
  lock_handler :: "('d \<Rightarrow> 'd) option"
  unlock_handler :: "('d \<Rightarrow> 'd) option"
  state :: guac_socket_state
  last_write_timestamp :: int
  ready_buf :: bytes \<comment> \<open>the first \<open>__ready\<close> bytes of \<open>__ready_buf\<close>\<close>
  keep_alive_enabled :: bool
  clock :: "nat \<Rightarrow> int"
  ticks :: nat

type_synonym 'd sock_op = "'d guac_socket \<Rightarrow> (int \<times> 'd guac_socket) option"

definition GUAC_SOCKET_BASE64_READY_BUFFER_SIZE :: nat where
  "GUAC_SOCKET_BASE64_READY_BUFFER_SIZE = 768"

definition GUAC_SOCKET_KEEP_ALIVE_INTERVAL :: int where
  "GUAC_SOCKET_KEEP_ALIVE_INTERVAL = 5000"

section \<open>Operations\<close>

definition guac_timestamp_current :: "'d guac_socket \<Rightarrow> int \<times> 'd guac_socket" where
  "guac_timestamp_current s = (clock s (ticks s), s\<lparr>ticks := Suc (ticks s)\<rparr>)"

definition guac_socket_alloc :: "'d \<Rightarrow> (nat \<Rightarrow> int) \<Rightarrow> 'd guac_socket" where
  "guac_socket_alloc d clk =
     \<lparr>data = d, read_handler = None, write_handler = None, select_handler = None,
      free_handler = None, flush_handler = None, lock_handler = None, unlock_handler = None,
      state = GUAC_SOCKET_OPEN, last_write_timestamp = clk 0, ready_buf = [],
      keep_alive_enabled = False, clock = clk, ticks = 1\<rparr>"

text \<open>\<open>__guac_socket_write\<close>: one attempt.\<close>

definition guac_socket_write_once :: "bytes \<Rightarrow> 'd guac_socket \<Rightarrow> int \<times> 'd guac_socket" where
  "guac_socket_write_once buf s =
     (let (now, s1) = guac_timestamp_current s;
          s2 = s1\<lparr>last_write_timestamp := now\<rparr>
      in case write_handler s2 of
           Some h \<Rightarrow> (let (written, d) = h (data s2) buf in (written, s2\<lparr>data := d\<rparr>))
         | None \<Rightarrow> (int (length buf), s2))"

partial_function (option) guac_socket_write :: "bytes \<Rightarrow> 'd guac_socket \<Rightarrow> (int \<times> 'd guac_socket) option"
  where
  [code]: "guac_socket_write buf s =
     (if buf = [] then Some (0, s)
      else case guac_socket_write_once buf s of (written, s') \<Rightarrow>
             if written = -1 then Some (1, s')
             else if 0 \<le> written \<and> written \<le> int (length buf)
                  then guac_socket_write (drop (nat written) buf) s'
                  else None)"

definition guac_socket_read :: "nat \<Rightarrow> 'd guac_socket \<Rightarrow> int \<times> bytes \<times> 'd guac_socket" where
  "guac_socket_read count s =
     (case read_handler s of
        Some h \<Rightarrow> (let (retval, bs, d) = h (data s) count in (retval, bs, s\<lparr>data := d\<rparr>))
      | None \<Rightarrow> (0, [], s))"

definition guac_socket_select :: "int \<Rightarrow> 'd guac_socket \<Rightarrow> int \<times> 'd guac_socket" where
  "guac_socket_select usec_timeout s =
     (case select_handler s of
        Some h \<Rightarrow> (let (retval, d) = h (data s) usec_timeout in (retval, s\<lparr>data := d\<rparr>))
      | None \<Rightarrow> (1, s))"

definition guac_socket_flush :: "'d sock_op" where
  "guac_socket_flush s =
     (case flush_handler s of
        Some h \<Rightarrow> (let (retval, d) = h (data s) in Some (retval, s\<lparr>data := d\<rparr>))
      | None \<Rightarrow> Some (0, s))"

definition guac_socket_instruction_begin :: "'d guac_socket \<Rightarrow> 'd guac_socket" where
  "guac_socket_instruction_begin s =
     (case lock_handler s of Some h \<Rightarrow> s\<lparr>data := h (data s)\<rparr> | None \<Rightarrow> s)"

definition guac_socket_instruction_end :: "'d guac_socket \<Rightarrow> 'd guac_socket" where
  "guac_socket_instruction_end s =
     (case unlock_handler s of Some h \<Rightarrow> s\<lparr>data := h (data s)\<rparr> | None \<Rightarrow> s)"

text \<open>\<open>guac_socket_free\<close> up to the release of the structure itself.\<close>

definition guac_socket_free :: "'d guac_socket \<Rightarrow> 'd guac_socket option" where
  "guac_socket_free s =
     (case guac_socket_flush s of
        None \<Rightarrow> None
      | Some (_, s1) \<Rightarrow>
          let s2 = (case free_handler s1 of Some h \<Rightarrow> s1\<lparr>data := h (data s1)\<rparr> | None \<Rightarrow> s1)
          in Some (s2\<lparr>state := GUAC_SOCKET_CLOSED\<rparr>))"

text \<open>An \<open>int64_t\<close> has at most 20 characters, so the 128-byte buffer never truncates it.\<close>

definition guac_socket_write_int :: "int \<Rightarrow> 'd sock_op" where
  "guac_socket_write_int i = guac_socket_write (show_int i)"

definition guac_socket_write_string :: "string \<Rightarrow> 'd sock_op" where
  "guac_socket_write_string str s =
     (case guac_socket_write str s of
        None \<Rightarrow> None
      | Some (r, s') \<Rightarrow> Some (if r \<noteq> 0 then 1 else 0, s'))"

subsection \<open>Short-circuit disjunction\<close>

text \<open>\<open>a || b || \<dots>\<close> over operations: stop at the first nonzero result, with value 1.\<close>

fun c_or :: "'d sock_op list \<Rightarrow> 'd sock_op" where
  "c_or [] s = Some (0, s)"
| "c_or (f # fs) s =
     (case f s of
        None \<Rightarrow> None
      | Some (r, s') \<Rightarrow> if r \<noteq> 0 then Some (1, s') else c_or fs s')"

subsection \<open>Base64\<close>

definition guac_socket_BASE64_CHARACTERS :: string where
  "guac_socket_BASE64_CHARACTERS =
     ''ABCDEFGHIJKLMNOPQRSTUVWXYZabcdefghijklmnopqrstuvwxyz0123456789+/''"

definition base64_char :: "int \<Rightarrow> char" where
  "base64_char i = guac_socket_BASE64_CHARACTERS ! nat i"

text \<open>\<open>__guac_socket_encode_base64\<close>: the four characters stored in \<open>output\<close>.\<close>

definition guac_socket_encode_base64 :: "int \<Rightarrow> int \<Rightarrow> int \<Rightarrow> string" where
  "guac_socket_encode_base64 a b c =
     base64_char (drop_bit 2 (a AND 0xFC)) #
     (if b \<ge> 0 then
        base64_char (push_bit 4 (a AND 0x03) OR drop_bit 4 (b AND 0xF0)) #
        (if c \<ge> 0 then
           [base64_char (push_bit 2 (b AND 0x0F) OR drop_bit 6 (c AND 0xC0)), base64_char (c AND 0x3F)]
         else [base64_char (push_bit 2 (b AND 0x0F)), CHR ''=''])
      else [base64_char (push_bit 4 (a AND 0x03)), CHR ''='', CHR ''=''])"

text \<open>The content of \<open>__encoded_buf\<close> after the encoding loop and the partial remnant.\<close>

fun base64_encode_buf :: "bytes \<Rightarrow> string" where
  "base64_encode_buf (a # b # c # src) =
     guac_socket_encode_base64 (uchar a) (uchar b) (uchar c) @ base64_encode_buf src"
| "base64_encode_buf [a, b] = guac_socket_encode_base64 (uchar a) (uchar b) (-1)"
| "base64_encode_buf [a] = guac_socket_encode_base64 (uchar a) (-1) (-1)"
| "base64_encode_buf [] = []"

definition guac_socket_flush_base64 :: "'d sock_op" where
  "guac_socket_flush_base64 s =
     (case guac_socket_write (base64_encode_buf (ready_buf s)) s of
        None \<Rightarrow> None
      | Some (retval, s') \<Rightarrow>
          if retval < 0 then Some (retval, s') else Some (0, s'\<lparr>ready_buf := []\<rparr>))"

partial_function (option) guac_socket_write_base64 ::
    "bytes \<Rightarrow> 'd guac_socket \<Rightarrow> (int \<times> 'd guac_socket) option" where
  [code]: "guac_socket_write_base64 src s =
     (if src = [] then Some (0, s)
      else let len = min (GUAC_SOCKET_BASE64_READY_BUFFER_SIZE - length (ready_buf s)) (length src);
               s1 = s\<lparr>ready_buf := ready_buf s @ take len src\<rparr>
           in if length (ready_buf s1) = GUAC_SOCKET_BASE64_READY_BUFFER_SIZE
              then case guac_socket_flush_base64 s1 of
                     None \<Rightarrow> None
                   | Some (retval, s2) \<Rightarrow>
                       if retval < 0 then Some (retval, s2)
                       else guac_socket_write_base64 (drop len src) s2
              else guac_socket_write_base64 (drop len src) s1)"

section \<open>Base64 text\<close>

lemma base64_encode_append:
  "length xs mod 3 = 0 \<Longrightarrow> base64_encode_buf (xs @ ys) = base64_encode_buf xs @ base64_encode_buf ys"
proof (induction xs rule: base64_encode_buf.induct)
  case (1 a b c src)
  then have "length src mod 3 = 0" by (simp add: mod_Suc split: if_splits)
  with "1.IH" show ?case by simp
qed simp_all

lemma length_encode_base64 [simp]: "length (guac_socket_encode_base64 a b c) = 4"
  by (simp add: guac_socket_encode_base64_def)

lemma length_base64_encode: "length (base64_encode_buf xs) = (length xs + 2) div 3 * 4"
proof (induction xs rule: base64_encode_buf.induct)
  case (1 a b c src)
  have "(5 + length src) div 3 = Suc (Suc (Suc (length src)) div 3)" by linarith
  with 1 show ?case by simp
qed simp_all

text \<open>The write loop returns 0 or 1, never a negative value, on any socket.\<close>

lemma guac_socket_write_result:
  assumes ret: "guac_socket_write buf s = Some (r, s')"
  shows "r = 0 \<or> r = 1"
proof -
  have "(\<lambda>(r, s'). r = 0 \<or> r = 1) (r, s')"
  proof (rule guac_socket_write.raw_induct
      [where P = "\<lambda>buf s (x :: int \<times> 'a guac_socket). (\<lambda>(r, s'). r = 0 \<or> r = 1) x", OF _ ret])
    fix f :: "bytes \<Rightarrow> 'a guac_socket \<Rightarrow> (int \<times> 'a guac_socket) option"
      and buf s and x :: "int \<times> 'a guac_socket"
    assume IH: "\<And>buf s x. f buf s = Some x \<Longrightarrow> case x of (r, s') \<Rightarrow> r = 0 \<or> r = 1"
      and eq: "(if buf = [] then Some (0, s)
        else case guac_socket_write_once buf s of (written, s') \<Rightarrow>
             if written = -1 then Some (1, s')
             else if 0 \<le> written \<and> written \<le> int (length buf)
                  then f (drop (nat written) buf) s' else None) = Some x"
    from eq show "case x of (r, s') \<Rightarrow> r = 0 \<or> r = 1"
      by (auto split: if_splits prod.splits dest: IH)
  qed
  then show ?thesis by simp
qed

text \<open>The encoded form of a full ready buffer fills \<open>__encoded_buf\<close> exactly.\<close>

lemma base64_encode_full:
  "length xs \<le> GUAC_SOCKET_BASE64_READY_BUFFER_SIZE \<Longrightarrow> length (base64_encode_buf xs) \<le> 1024"
  by (simp add: length_base64_encode GUAC_SOCKET_BASE64_READY_BUFFER_SIZE_def)

section \<open>The contract of a socket that can be written to\<close>

text \<open>
  What the writing side of \<open>socket.c\<close> and \<open>protocol.c\<close> rely on from a kind of socket: a write
  handler that fails or accepts a nonempty part of its buffer, lock handlers that leave the stream
  alone, a flush handler that adds nothing to it. \<open>sent\<close> is the stream accepted so far, \<open>held\<close> how often the instruction lock is held,
  \<open>healthy\<close> that no further write can fail.
\<close>

locale socket_sink =
  fixes wh :: "'d \<Rightarrow> bytes \<Rightarrow> int \<times> 'd"
    and lk :: "'d \<Rightarrow> 'd"
    and ul :: "'d \<Rightarrow> 'd"
    and fl :: "'d \<Rightarrow> int \<times> 'd"
    and inv :: "'d \<Rightarrow> bool"
    and sent :: "'d \<Rightarrow> bytes"
    and held :: "'d \<Rightarrow> nat"
    and healthy :: "'d \<Rightarrow> bool"
  assumes write_inv: "inv d \<Longrightarrow> buf \<noteq> [] \<Longrightarrow> wh d buf = (r, d') \<Longrightarrow> inv d' \<and> held d' = held d"
    and write_accepts: "inv d \<Longrightarrow> buf \<noteq> [] \<Longrightarrow> wh d buf = (r, d') \<Longrightarrow> r \<noteq> -1 \<Longrightarrow>
          1 \<le> r \<and> r \<le> int (length buf) \<and> sent d' = sent d @ take (nat r) buf"
    and write_healthy: "inv d \<Longrightarrow> healthy d \<Longrightarrow> buf \<noteq> [] \<Longrightarrow> wh d buf = (r, d') \<Longrightarrow>
          r \<noteq> -1 \<and> healthy d'"
    and lock_laws: "inv d \<Longrightarrow> inv (lk d) \<and> sent (lk d) = sent d \<and> held (lk d) = Suc (held d) \<and>
          healthy (lk d) = healthy d"
    and unlock_laws: "inv d \<Longrightarrow> inv (ul d) \<and> sent (ul d) = sent d \<and> held (ul d) = held d - 1 \<and>
          healthy (ul d) = healthy d"
    and flush_laws: "inv d \<Longrightarrow> fl d = (r, d') \<Longrightarrow> inv d' \<and> held d' = held d \<and>
          (r = 0 \<longrightarrow> sent d' = sent d) \<and> (healthy d \<longrightarrow> r = 0 \<and> healthy d')"
begin

definition attached :: "'d guac_socket \<Rightarrow> bool" where
  "attached s \<longleftrightarrow> write_handler s = Some wh \<and> lock_handler s = Some lk \<and>
     unlock_handler s = Some ul \<and> flush_handler s = Some fl \<and> inv (data s)"

text \<open>
  \<open>wrote s str r s'\<close>: what a write of \<open>str\<close> that took the socket \<open>s\<close> to \<open>s'\<close> and returned \<open>r\<close>
  guarantees. The socket stays attached and the lock as it was; a zero result means that exactly
  \<open>str\<close> went out; on a healthy socket the result is zero. \<open>emits op str\<close>: the operation returns
  on every attached socket, having written \<open>str\<close>.
\<close>

definition wrote :: "'d guac_socket \<Rightarrow> bytes \<Rightarrow> int \<Rightarrow> 'd guac_socket \<Rightarrow> bool" where
  "wrote s str r s' \<longleftrightarrow> attached s' \<and> ready_buf s' = ready_buf s \<and> held (data s') = held (data s) \<and>
     (r = 0 \<longrightarrow> sent (data s') = sent (data s) @ str) \<and>
     (healthy (data s) \<longrightarrow> r = 0 \<and> healthy (data s'))"

definition emits :: "'d sock_op \<Rightarrow> bytes \<Rightarrow> bool" where
  "emits op str \<longleftrightarrow> (\<forall>s. attached s \<longrightarrow> (\<exists>r s'. op s = Some (r, s') \<and> wrote s str r s'))"

lemma emitsI: "(\<And>s. attached s \<Longrightarrow> \<exists>r s'. op s = Some (r, s') \<and> wrote s str r s') \<Longrightarrow> emits op str"
  by (simp add: emits_def)

lemma emitsE:
  assumes "emits op str" "attached s"
  obtains r s' where "op s = Some (r, s')" "wrote s str r s'"
  using assms by (auto simp: emits_def)

lemma wrote_refl: "attached s \<Longrightarrow> wrote s [] 0 s"
  by (simp add: wrote_def)

lemma wrote_trans: "wrote s x 0 s1 \<Longrightarrow> wrote s1 y r s2 \<Longrightarrow> wrote s (x @ y) r s2"
  by (simp add: wrote_def)

lemma wrote_fail: "wrote s x r s1 \<Longrightarrow> r \<noteq> 0 \<Longrightarrow> r' \<noteq> 0 \<Longrightarrow> wrote s y r' s1"
  by (simp add: wrote_def)

lemma wrote_attached [dest]: "wrote s x r s' \<Longrightarrow> attached s'"
  by (simp add: wrote_def)

text \<open>One attempt: it fails, or a nonempty part of the buffer goes out.\<close>

lemma write_once_attached:
  assumes "attached s" "buf \<noteq> []"
  obtains r s' where "guac_socket_write_once buf s = (r, s')"
    "r = -1 \<longrightarrow> wrote s buf 1 s'"
    "r \<noteq> -1 \<longrightarrow> 1 \<le> r \<and> r \<le> int (length buf) \<and> wrote s (take (nat r) buf) 0 s'"
proof -
  obtain r d' where h: "wh (data s) buf = (r, d')" by fastforce
  have i: "inv (data s)" using assms by (simp add: attached_def)
  let ?s' = "s\<lparr>ticks := Suc (ticks s), last_write_timestamp := clock s (ticks s), data := d'\<rparr>"
  have "guac_socket_write_once buf s = (r, ?s')"
    using assms h by (simp add: attached_def guac_socket_write_once_def guac_timestamp_current_def)
  moreover have "attached ?s'" "held d' = held (data s)"
    using assms write_inv [OF i assms(2) h] by (simp_all add: attached_def)
  moreover note write_accepts [OF i assms(2) h] write_healthy [OF i _ assms(2) h]
  ultimately show thesis
    by (intro that [of r ?s']) (auto simp: wrote_def)
qed

text \<open>The write loop returns, and writes everything or reports an error.\<close>

lemma write_wrote: "attached s \<Longrightarrow> \<exists>r s'. guac_socket_write buf s = Some (r, s') \<and> wrote s buf r s'"
proof (induction buf arbitrary: s rule: length_induct)
  case (1 buf)
  show ?case
  proof (cases "buf = []")
    case True
    with "1.prems" show ?thesis by (simp add: guac_socket_write.simps wrote_refl)
  next
    case False
    from "1.prems" False obtain r s1 where w: "guac_socket_write_once buf s = (r, s1)"
      and bad: "r = -1 \<longrightarrow> wrote s buf 1 s1"
      and good: "r \<noteq> -1 \<longrightarrow> 1 \<le> r \<and> r \<le> int (length buf) \<and> wrote s (take (nat r) buf) 0 s1"
      by (rule write_once_attached)
    note unfold = guac_socket_write.simps [of buf s]
    show ?thesis
    proof (cases "r = -1")
      case True
      with w bad False show ?thesis by (simp add: unfold)
    next
      case r: False
      note g = good [rule_format, OF r]
      then have "length (drop (nat r) buf) < length buf" "attached s1" by auto
      with "1.IH" obtain r2 s2 where rec: "guac_socket_write (drop (nat r) buf) s1 = Some (r2, s2)"
        "wrote s1 (drop (nat r) buf) r2 s2"
        by blast
      from g rec(2) have "wrote s (take (nat r) buf @ drop (nat r) buf) r2 s2"
        by (blast intro: wrote_trans)
      with g w r False rec(1) show ?thesis by (simp add: unfold)
    qed
  qed
qed

lemma emits_write [intro]: "emits (guac_socket_write buf) buf"
  by (rule emitsI) (rule write_wrote)

lemma emits_write_string [intro]: "emits (guac_socket_write_string str) str"
proof (rule emitsI)
  fix s assume "attached s"
  then obtain r s' where "guac_socket_write str s = Some (r, s')" "wrote s str r s'"
    using write_wrote by blast
  then show "\<exists>r s'. guac_socket_write_string str s = Some (r, s') \<and> wrote s str r s'"
    by (cases "r = 0") (auto simp: guac_socket_write_string_def intro: wrote_fail)
qed

lemma emits_write_int [intro]: "emits (guac_socket_write_int i) (show_int i)"
  unfolding guac_socket_write_int_def by (rule emits_write)

lemma emits_flush [intro]: "emits guac_socket_flush []"
proof (rule emitsI)
  fix s assume a: "attached s"
  obtain r d' where f: "fl (data s) = (r, d')" by fastforce
  from a flush_laws [OF _ f] f
  show "\<exists>r s'. guac_socket_flush s = Some (r, s') \<and> wrote s [] r s'"
    by (auto simp: guac_socket_flush_def attached_def wrote_def)
qed

lemma emits_c_or_Nil [intro]: "emits (c_or []) []"
  by (rule emitsI) (simp add: wrote_refl)

lemma emits_c_or_Cons [intro]:
  assumes "emits f x" "emits (c_or fs) y"
  shows "emits (c_or (f # fs)) (x @ y)"
proof (rule emitsI)
  fix s assume "attached s"
  with assms(1) obtain r s1 where f: "f s = Some (r, s1)" "wrote s x r s1" by (rule emitsE)
  show "\<exists>r s'. c_or (f # fs) s = Some (r, s') \<and> wrote s (x @ y) r s'"
  proof (cases "r = 0")
    case True
    from assms(2) f(2) obtain r2 s2 where "c_or fs s1 = Some (r2, s2)" "wrote s1 y r2 s2"
      by (blast elim: emitsE)
    with True f show ?thesis by (auto intro: wrote_trans)
  next
    case False
    with f show ?thesis by (auto intro: wrote_fail)
  qed
qed

subsection \<open>Base64 output\<close>

text \<open>
  The base64 writer does not report a failed write, so what it guarantees is weaker: \<open>streams op str\<close>
  says that the operation returns, leaves the lock and an empty ready buffer as they were, and
  writes \<open>str\<close> on a healthy socket.
\<close>

definition streams :: "'d sock_op \<Rightarrow> bytes \<Rightarrow> bool" where
  "streams op str \<longleftrightarrow> (\<forall>s. attached s \<longrightarrow> ready_buf s = [] \<longrightarrow>
     (\<exists>r s'. op s = Some (r, s') \<and> attached s' \<and> ready_buf s' = [] \<and> held (data s') = held (data s) \<and>
        (healthy (data s) \<longrightarrow> r = 0 \<and> healthy (data s') \<and> sent (data s') = sent (data s) @ str)))"

lemma emits_streams: "emits op str \<Longrightarrow> streams op str"
  by (auto simp: emits_def streams_def wrote_def)

lemma streams_c_or_Cons:
  assumes "streams f x" "streams (c_or fs) y"
  shows "streams (c_or (f # fs)) (x @ y)"
  unfolding streams_def
proof (intro allI impI)
  fix s assume "attached s" "ready_buf s = []"
  with assms(1) obtain r s1 where f: "f s = Some (r, s1)" "attached s1" "ready_buf s1 = []"
    "held (data s1) = held (data s)"
    "healthy (data s) \<longrightarrow> r = 0 \<and> healthy (data s1) \<and> sent (data s1) = sent (data s) @ x"
    unfolding streams_def by blast
  from assms(2) f obtain r2 s2 where "c_or fs s1 = Some (r2, s2)" "attached s2" "ready_buf s2 = []"
    "held (data s2) = held (data s1)"
    "healthy (data s1) \<longrightarrow> r2 = 0 \<and> healthy (data s2) \<and> sent (data s2) = sent (data s1) @ y"
    unfolding streams_def by blast
  with f show "\<exists>r s'. c_or (f # fs) s = Some (r, s') \<and> attached s' \<and> ready_buf s' = [] \<and>
      held (data s') = held (data s) \<and>
      (healthy (data s) \<longrightarrow> r = 0 \<and> healthy (data s') \<and> sent (data s') = sent (data s) @ x @ y)"
    by auto
qed

lemma flush_base64_attached:
  assumes "attached s"
  obtains s' where "guac_socket_flush_base64 s = Some (0, s')" "attached s'" "ready_buf s' = []"
    "held (data s') = held (data s)"
    "healthy (data s) \<longrightarrow> healthy (data s') \<and>
       sent (data s') = sent (data s) @ base64_encode_buf (ready_buf s)"
proof -
  obtain r s1 where w: "guac_socket_write (base64_encode_buf (ready_buf s)) s = Some (r, s1)"
      "wrote s (base64_encode_buf (ready_buf s)) r s1"
    using write_wrote [OF assms] by blast
  from guac_socket_write_result [OF w(1)] w show thesis
    by (intro that [of "s1\<lparr>ready_buf := []\<rparr>"]) (auto simp: guac_socket_flush_base64_def wrote_def attached_def)
qed

text \<open>
  The bytes still buffered are part of the stream: \<open>sent\<close> followed by the encoding of the ready
  buffer grows by the encoding of the data, because a full ready buffer is a whole number of
  three-byte groups.
\<close>

lemma write_base64_attached:
  "attached s \<Longrightarrow> length (ready_buf s) < GUAC_SOCKET_BASE64_READY_BUFFER_SIZE \<Longrightarrow>
   \<exists>s'. guac_socket_write_base64 src s = Some (0, s') \<and> attached s' \<and>
     length (ready_buf s') < GUAC_SOCKET_BASE64_READY_BUFFER_SIZE \<and>
     held (data s') = held (data s) \<and>
     (healthy (data s) \<longrightarrow> healthy (data s') \<and>
        sent (data s') @ base64_encode_buf (ready_buf s') =
        sent (data s) @ base64_encode_buf (ready_buf s @ src))"
proof (induction src arbitrary: s rule: length_induct)
  case (1 src)
  let ?N = GUAC_SOCKET_BASE64_READY_BUFFER_SIZE
  note unfold = guac_socket_write_base64.simps [of src s]
  show ?case
  proof (cases "src = []")
    case True
    with "1.prems" show ?thesis by (simp add: guac_socket_write_base64.simps [of "[]"])
  next
    case False
    define len where "len = min (?N - length (ready_buf s)) (length src)"
    define s1 where "s1 = s\<lparr>ready_buf := ready_buf s @ take len src\<rparr>"
    have len: "0 < len" "len \<le> length src" using False "1.prems" by (auto simp: len_def)
    have s1: "attached s1" "data s1 = data s" "ready_buf s1 = ready_buf s @ take len src"
      using "1.prems" by (auto simp: s1_def attached_def)
    have shorter: "length (drop len src) < length src" using len by simp
    show ?thesis
    proof (cases "length (ready_buf s1) = ?N")
      case full: True
      obtain s2 where f: "guac_socket_flush_base64 s1 = Some (0, s2)" "attached s2" "ready_buf s2 = []"
        "held (data s2) = held (data s1)" "healthy (data s1) \<longrightarrow> healthy (data s2) \<and>
           sent (data s2) = sent (data s1) @ base64_encode_buf (ready_buf s1)"
        by (rule flush_base64_attached [OF s1(1)])
      have "?N mod 3 = 0" "0 < ?N" by (simp_all add: GUAC_SOCKET_BASE64_READY_BUFFER_SIZE_def)
      then have split: "base64_encode_buf (ready_buf s @ src) =
          base64_encode_buf (ready_buf s1) @ base64_encode_buf (drop len src)"
        using base64_encode_append [of "ready_buf s1" "drop len src"] full s1(3) by simp
      from f \<open>0 < ?N\<close> shorter obtain s3 where "guac_socket_write_base64 (drop len src) s2 = Some (0, s3)"
        "attached s3" "length (ready_buf s3) < ?N" "held (data s3) = held (data s2)"
        "healthy (data s2) \<longrightarrow> healthy (data s3) \<and>
          sent (data s3) @ base64_encode_buf (ready_buf s3) =
          sent (data s2) @ base64_encode_buf (ready_buf s2 @ drop len src)"
        using "1.IH" by fastforce
      moreover have "guac_socket_write_base64 src s = guac_socket_write_base64 (drop len src) s2"
        using False full f(1) s1(3) by (simp add: unfold Let_def len_def [symmetric] s1_def [symmetric])
      ultimately show ?thesis using f s1 split by auto
    next
      case partial: False
      have less: "length (ready_buf s1) < ?N" using partial s1(3) "1.prems" by (auto simp: len_def)
      from less s1 shorter obtain s3 where "guac_socket_write_base64 (drop len src) s1 = Some (0, s3)"
        "attached s3" "length (ready_buf s3) < ?N" "held (data s3) = held (data s1)"
        "healthy (data s1) \<longrightarrow> healthy (data s3) \<and>
          sent (data s3) @ base64_encode_buf (ready_buf s3) =
          sent (data s1) @ base64_encode_buf (ready_buf s1 @ drop len src)"
        using "1.IH" by fastforce
      moreover have "guac_socket_write_base64 src s = guac_socket_write_base64 (drop len src) s1"
        using False partial s1(3) by (simp add: unfold Let_def len_def [symmetric] s1_def [symmetric])
      ultimately show ?thesis using s1 by auto
    qed
  qed
qed

lemma streams_base64: "streams (c_or [guac_socket_write_base64 src, guac_socket_flush_base64])
   (base64_encode_buf src)"
  unfolding streams_def
proof (intro allI impI)
  fix s assume s: "attached s" "ready_buf s = []"
  then obtain s1 where w: "guac_socket_write_base64 src s = Some (0, s1)" "attached s1"
    "held (data s1) = held (data s)" "healthy (data s) \<longrightarrow> healthy (data s1) \<and>
        sent (data s1) @ base64_encode_buf (ready_buf s1) = sent (data s) @ base64_encode_buf src"
    using write_base64_attached [of s src] by (auto simp: GUAC_SOCKET_BASE64_READY_BUFFER_SIZE_def)
  obtain s2 where "guac_socket_flush_base64 s1 = Some (0, s2)" "attached s2" "ready_buf s2 = []"
    "held (data s2) = held (data s1)" "healthy (data s1) \<longrightarrow> healthy (data s2) \<and>
       sent (data s2) = sent (data s1) @ base64_encode_buf (ready_buf s1)"
    by (rule flush_base64_attached [OF w(2)])
  with w show "\<exists>r s'. c_or [guac_socket_write_base64 src, guac_socket_flush_base64] s = Some (r, s') \<and>
      attached s' \<and> ready_buf s' = [] \<and> held (data s') = held (data s) \<and>
      (healthy (data s) \<longrightarrow> r = 0 \<and> healthy (data s') \<and>
         sent (data s') = sent (data s) @ base64_encode_buf src)"
    by (intro exI [of _ 0] exI [of _ s2]) simp
qed

end

section \<open>The reading interface\<close>

text \<open>
  The contract of the handlers that a parser reads through. \<open>input d\<close> is the data still to come;
  a source is \<open>calm\<close> when no call fails or times out.
\<close>

locale socket_source =
  fixes rd :: "'d \<Rightarrow> nat \<Rightarrow> int \<times> bytes \<times> 'd"
    and sel :: "'d \<Rightarrow> int \<Rightarrow> int \<times> 'd"
    and input :: "'d \<Rightarrow> bytes"
    and calm :: "'d \<Rightarrow> bool"
  assumes read_some: "rd d count = (r, bs, d') \<Longrightarrow> 0 \<le> r \<Longrightarrow>
        r = int (length bs) \<and> length bs \<le> count \<and> input d = bs @ input d'"
    and read_eof: "rd d count = (0, bs, d') \<Longrightarrow> 0 < count \<Longrightarrow> input d = []"
    and read_calm: "rd d count = (r, bs, d') \<Longrightarrow> calm d \<Longrightarrow> 0 \<le> r \<and> calm d'"
    and select_input: "sel d t = (r, d') \<Longrightarrow> input d' = input d"
    and select_calm: "sel d t = (r, d') \<Longrightarrow> calm d \<Longrightarrow> 0 < r \<and> calm d'"
begin

definition source :: "'d guac_socket \<Rightarrow> bool" where
  "source s \<longleftrightarrow> read_handler s = Some rd \<and> select_handler s = Some sel"

end

end
