(* ===== verification/SocketFd.thy ===== *)
theory SocketFd
  imports Socket
begin

text \<open>
  \<open>libguac/socket-fd.c\<close>: the socket over a file descriptor, with its output buffer, its two
  locks and its handlers, down to the POSIX calls. It provides the \<open>socket_sink\<close> contract.
\<close>

section \<open>The file descriptor\<close>

text \<open>
  A descriptor as \<open>read\<close>, \<open>write\<close> and \<open>poll\<close> show it to one process: the bytes still to be read
  before end-of-file, the bytes written, and what the kernel will do at the next calls. A plan entry
  \<open>None\<close> is a failing call, \<open>Some k\<close> a call that transfers at most \<open>Suc k\<close> bytes; with an empty
  plan a call transfers all it can. Every behaviour of a blocking descriptor is some plan.
\<close>

record os_fd =
  fd_in :: bytes
  fd_out :: bytes
  read_plan :: "nat option list"
  write_plan :: "nat option list"
  poll_plan :: "int list"
  fd_open :: bool

definition posix_write :: "bytes \<Rightarrow> os_fd \<Rightarrow> int \<times> os_fd" where
  "posix_write buf f =
     (case write_plan f of
        None # plan \<Rightarrow> (-1, f\<lparr>write_plan := plan\<rparr>)
      | Some k # plan \<Rightarrow>
          (let n = min (Suc k) (length buf)
           in (int n, f\<lparr>fd_out := fd_out f @ take n buf, write_plan := plan\<rparr>))
      | [] \<Rightarrow> (int (length buf), f\<lparr>fd_out := fd_out f @ buf\<rparr>))"

definition posix_read :: "nat \<Rightarrow> os_fd \<Rightarrow> int \<times> bytes \<times> os_fd" where
  "posix_read count f =
     (case read_plan f of
        None # plan \<Rightarrow> (-1, [], f\<lparr>read_plan := plan\<rparr>)
      | Some k # plan \<Rightarrow>
          (let bs = take (min (Suc k) count) (fd_in f)
           in (int (length bs), bs, f\<lparr>fd_in := drop (length bs) (fd_in f), read_plan := plan\<rparr>))
      | [] \<Rightarrow>
          (let bs = take count (fd_in f)
           in (int (length bs), bs, f\<lparr>fd_in := drop (length bs) (fd_in f)\<rparr>)))"

text \<open>\<open>poll\<close> on the one descriptor; without a time limit it does not report a timeout (0).\<close>

definition posix_poll :: "int \<Rightarrow> os_fd \<Rightarrow> int \<times> os_fd" where
  "posix_poll timeout f =
     (case poll_plan f of
        r # plan \<Rightarrow> (if timeout < 0 \<and> r = 0 then 1 else r, f\<lparr>poll_plan := plan\<rparr>)
      | [] \<Rightarrow> (1, f))"

text \<open>
  \<open>libguac/wait-fd.c\<close>, as built with \<open>poll\<close>. The sum wraps at the width of \<open>int\<close>; C divides towards zero.
\<close>

definition guac_wait_for_fd :: "os_fd \<Rightarrow> int \<Rightarrow> int \<times> os_fd" where
  "guac_wait_for_fd f usec_timeout =
     (if usec_timeout < 0 then posix_poll (-1) f
      else let t = wrap32 (usec_timeout + 999) in posix_poll (if t < 0 then - ((- t) div 1000) else t div 1000) f)"

lemma posix_write_cases:
  assumes "posix_write buf f = (r, f')" "buf \<noteq> []"
  obtains (fail) "r = -1" "fd_out f' = fd_out f" "None \<in> set (write_plan f)"
      "set (write_plan f') \<subseteq> set (write_plan f)"
  | (some) n where "r = int n" "1 \<le> n" "n \<le> length buf" "fd_out f' = fd_out f @ take n buf"
      "set (write_plan f') \<subseteq> set (write_plan f)"
proof (cases "write_plan f")
  case Nil
  with assms show thesis
    by (intro some [of "length buf"]) (auto simp: posix_write_def Suc_le_eq)
next
  case (Cons a plan)
  with assms show thesis
    by (cases a) (auto simp: posix_write_def Let_def Suc_le_eq intro: fail some [of "min (Suc _) (length buf)"])
qed

section \<open>State and handlers\<close>

definition GUAC_SOCKET_OUTPUT_BUFFER_SIZE :: nat where
  "GUAC_SOCKET_OUTPUT_BUFFER_SIZE = 8192"

text \<open>
  \<open>guac_socket_fd_data\<close>. \<open>out_buf\<close> is the first \<open>written\<close> bytes of the buffer; a lock is the number
  of times the running thread holds it; \<open>guac_error\<close> is the thread's error variable.
\<close>

record guac_socket_fd_data =
  fd :: os_fd
  out_buf :: bytes
  socket_lock :: nat
  buffer_lock :: nat
  guac_error :: guac_status

function guac_socket_fd_write :: "bytes \<Rightarrow> guac_socket_fd_data \<Rightarrow> int \<times> guac_socket_fd_data" where
  "guac_socket_fd_write buf d =
     (if buf = [] then (0, d)
      else let (retval, f) = posix_write buf (fd d)
           in if retval < 0 then (retval, d\<lparr>fd := f, guac_error := GUAC_STATUS_SEE_ERRNO\<rparr>)
              else guac_socket_fd_write (drop (nat retval) buf) (d\<lparr>fd := f\<rparr>))"
  by pat_completeness auto
termination
proof (relation "measure (\<lambda>(buf, d). length buf)", goal_cases)
  case (2 buf d x retval f)
  then have w: "posix_write buf (fd d) = (retval, f)" by simp
  from w 2(1) show ?case by (cases rule: posix_write_cases) (use 2 in auto)
qed simp

declare guac_socket_fd_write.simps [simp del]

definition guac_socket_fd_read_handler ::
    "guac_socket_fd_data \<Rightarrow> nat \<Rightarrow> int \<times> bytes \<times> guac_socket_fd_data" where
  "guac_socket_fd_read_handler d count =
     (let (retval, bs, f) = posix_read count (fd d); d' = d\<lparr>fd := f\<rparr>
      in if retval < 0 then (retval, bs, d'\<lparr>guac_error := GUAC_STATUS_SEE_ERRNO\<rparr>)
         else (retval, bs, d'))"

definition guac_socket_fd_flush :: "guac_socket_fd_data \<Rightarrow> int \<times> guac_socket_fd_data" where
  "guac_socket_fd_flush d =
     (if length (out_buf d) > 0
      then let (r, d') = guac_socket_fd_write (out_buf d) d
           in if r \<noteq> 0 then (1, d') else (0, d'\<lparr>out_buf := []\<rparr>)
      else (0, d))"

definition guac_socket_fd_flush_handler :: "guac_socket_fd_data \<Rightarrow> int \<times> guac_socket_fd_data" where
  "guac_socket_fd_flush_handler d =
     (let (retval, d') = guac_socket_fd_flush (d\<lparr>buffer_lock := Suc (buffer_lock d)\<rparr>)
      in (retval, d'\<lparr>buffer_lock := buffer_lock d' - 1\<rparr>))"

text \<open>
  The loop of \<open>guac_socket_fd_write_buffered\<close>; its result is whether it ran to the end. The source keeps
  counts in \<open>int\<close> variables (\<open>chunk_size\<close>, \<open>retval\<close>, and \<open>written\<close> in \<open>guac_socket_write\<close>): the definitions
  are those of calls with fewer than \<open>2 ^ 31\<close> bytes.
\<close>

lemma fd_flush_empties: "guac_socket_fd_flush d = (0, d') \<Longrightarrow> out_buf d' = []"
  by (auto simp: guac_socket_fd_flush_def Let_def split: prod.splits if_splits)

function fd_write_buffered_loop :: "bytes \<Rightarrow> guac_socket_fd_data \<Rightarrow> bool \<times> guac_socket_fd_data" where
  "fd_write_buffered_loop buf d =
     (if buf = [] then (True, d)
      else let remaining = GUAC_SOCKET_OUTPUT_BUFFER_SIZE - length (out_buf d)
           in if remaining = 0
              then let (r, d') = guac_socket_fd_flush d
                   in if r \<noteq> 0 then (False, d') else fd_write_buffered_loop buf d'
              else let chunk_size = min (length buf) remaining
                   in fd_write_buffered_loop (drop chunk_size buf)
                        (d\<lparr>out_buf := out_buf d @ take chunk_size buf\<rparr>))"
  by pat_completeness auto
termination
  by (relation "measure (\<lambda>(buf, d). 2 * length buf +
        (if GUAC_SOCKET_OUTPUT_BUFFER_SIZE \<le> length (out_buf d) then 1 else 0))")
     (auto simp: GUAC_SOCKET_OUTPUT_BUFFER_SIZE_def min_def dest!: sym [of "(_, _)"] fd_flush_empties)

declare fd_write_buffered_loop.simps [simp del]

definition guac_socket_fd_write_buffered ::
    "guac_socket_fd_data \<Rightarrow> bytes \<Rightarrow> int \<times> guac_socket_fd_data" where
  "guac_socket_fd_write_buffered d buf =
     (let (ok, d') = fd_write_buffered_loop buf d in (if ok then int (length buf) else -1, d'))"

definition guac_socket_fd_write_handler ::
    "guac_socket_fd_data \<Rightarrow> bytes \<Rightarrow> int \<times> guac_socket_fd_data" where
  "guac_socket_fd_write_handler d buf =
     (let (retval, d') = guac_socket_fd_write_buffered (d\<lparr>buffer_lock := Suc (buffer_lock d)\<rparr>) buf
      in (retval, d'\<lparr>buffer_lock := buffer_lock d' - 1\<rparr>))"

definition guac_socket_fd_select_handler ::
    "guac_socket_fd_data \<Rightarrow> int \<Rightarrow> int \<times> guac_socket_fd_data" where
  "guac_socket_fd_select_handler d usec_timeout =
     (let (retval, f) = guac_wait_for_fd (fd d) usec_timeout; d' = d\<lparr>fd := f\<rparr>
      in if retval < 0 then (retval, d'\<lparr>guac_error := GUAC_STATUS_SEE_ERRNO\<rparr>)
         else if retval = 0 then (retval, d'\<lparr>guac_error := GUAC_STATUS_TIMEOUT\<rparr>)
         else (retval, d'))"

definition guac_socket_fd_lock_handler :: "guac_socket_fd_data \<Rightarrow> guac_socket_fd_data" where
  "guac_socket_fd_lock_handler d = d\<lparr>socket_lock := Suc (socket_lock d)\<rparr>"

definition guac_socket_fd_unlock_handler :: "guac_socket_fd_data \<Rightarrow> guac_socket_fd_data" where
  "guac_socket_fd_unlock_handler d = d\<lparr>socket_lock := socket_lock d - 1\<rparr>"

definition guac_socket_fd_free_handler :: "guac_socket_fd_data \<Rightarrow> guac_socket_fd_data" where
  "guac_socket_fd_free_handler d = d\<lparr>fd := (fd d)\<lparr>fd_open := False\<rparr>\<rparr>"

definition guac_socket_open :: "os_fd \<Rightarrow> (nat \<Rightarrow> int) \<Rightarrow> guac_socket_fd_data guac_socket" where
  "guac_socket_open f clk =
     (guac_socket_alloc
        \<lparr>fd = f, out_buf = [], socket_lock = 0, buffer_lock = 0, guac_error = GUAC_STATUS_SUCCESS\<rparr> clk)
     \<lparr>read_handler := Some guac_socket_fd_read_handler,
      write_handler := Some guac_socket_fd_write_handler,
      select_handler := Some guac_socket_fd_select_handler,
      lock_handler := Some guac_socket_fd_lock_handler,
      unlock_handler := Some guac_socket_fd_unlock_handler,
      flush_handler := Some guac_socket_fd_flush_handler,
      free_handler := Some guac_socket_fd_free_handler\<rparr>"

section \<open>The descriptor socket is a sink\<close>

text \<open>The stream a socket has accepted: what the kernel took, then what is still buffered.\<close>

definition fd_sent :: "guac_socket_fd_data \<Rightarrow> bytes" where
  "fd_sent d = fd_out (fd d) @ out_buf d"

definition fd_inv :: "guac_socket_fd_data \<Rightarrow> bool" where
  "fd_inv d \<longleftrightarrow> length (out_buf d) \<le> GUAC_SOCKET_OUTPUT_BUFFER_SIZE"

definition fd_healthy :: "guac_socket_fd_data \<Rightarrow> bool" where
  "fd_healthy d \<longleftrightarrow> None \<notin> set (write_plan (fd d))"

text \<open>\<open>fd_same d d'\<close>: what no write of the socket touches.\<close>

definition fd_same :: "guac_socket_fd_data \<Rightarrow> guac_socket_fd_data \<Rightarrow> bool" where
  "fd_same d d' \<longleftrightarrow> socket_lock d' = socket_lock d \<and> buffer_lock d' = buffer_lock d \<and>
     set (write_plan (fd d')) \<subseteq> set (write_plan (fd d))"

lemma fd_same_refl [simp]: "fd_same d d"
  by (simp add: fd_same_def)

lemma fd_same_trans: "fd_same d d' \<Longrightarrow> fd_same d' d'' \<Longrightarrow> fd_same d d''"
  by (auto simp: fd_same_def)

lemma fd_same_healthy: "fd_same d d' \<Longrightarrow> fd_healthy d \<Longrightarrow> fd_healthy d'"
  by (auto simp: fd_same_def fd_healthy_def)

lemma fd_write_spec:
  "guac_socket_fd_write buf d = (r, d') \<Longrightarrow>
   fd_same d d' \<and> out_buf d' = out_buf d \<and>
   (r = 0 \<longrightarrow> fd_out (fd d') = fd_out (fd d) @ buf) \<and> (fd_healthy d \<longrightarrow> r = 0)"
proof (induction buf d rule: guac_socket_fd_write.induct)
  case (1 buf d)
  note unfold = guac_socket_fd_write.simps [of buf d]
  show ?case
  proof (cases "buf = []")
    case True
    with "1.prems" show ?thesis by (simp add: guac_socket_fd_write.simps [of "[]"])
  next
    case False
    obtain k f where w: "posix_write buf (fd d) = (k, f)" by fastforce
    from w False show ?thesis
    proof (cases rule: posix_write_cases)
      case fail
      with "1.prems" w False show ?thesis
        by (auto simp: unfold fd_same_def fd_healthy_def)
    next
      case (some n)
      let ?d = "d\<lparr>fd := f\<rparr>"
      from some "1.prems" w False have rec: "guac_socket_fd_write (drop n buf) ?d = (r, d')"
        by (simp add: unfold)
      have "fd_same ?d d' \<and> out_buf d' = out_buf ?d \<and>
          (r = 0 \<longrightarrow> fd_out (fd d') = fd_out (fd ?d) @ drop n buf) \<and> (fd_healthy ?d \<longrightarrow> r = 0)"
        using "1.IH" [OF False w [symmetric] refl] rec some(1) by simp
      with some show ?thesis by (auto simp: fd_same_def fd_healthy_def)
    qed
  qed
qed

lemma fd_flush_spec:
  assumes "guac_socket_fd_flush d = (r, d')"
  shows "fd_same d d' \<and> (fd_inv d \<longrightarrow> fd_inv d') \<and>
    (r = 0 \<longrightarrow> fd_sent d' = fd_sent d \<and> out_buf d' = []) \<and> (fd_healthy d \<longrightarrow> r = 0)"
proof (cases "out_buf d = []")
  case True
  with assms show ?thesis by (simp add: guac_socket_fd_flush_def)
next
  case False
  obtain k e where w: "guac_socket_fd_write (out_buf d) d = (k, e)" by fastforce
  from fd_write_spec [OF w] assms w False show ?thesis
    by (auto simp: guac_socket_fd_flush_def fd_same_def fd_inv_def fd_sent_def split: if_splits)
qed

lemma fd_write_buffered_spec:
  "fd_write_buffered_loop buf d = (ok, d') \<Longrightarrow> fd_inv d \<Longrightarrow>
   fd_same d d' \<and> fd_inv d' \<and> (ok \<longrightarrow> fd_sent d' = fd_sent d @ buf) \<and> (fd_healthy d \<longrightarrow> ok)"
proof (induction buf d rule: fd_write_buffered_loop.induct)
  case (1 buf d)
  let ?rem = "GUAC_SOCKET_OUTPUT_BUFFER_SIZE - length (out_buf d)"
  note unfold = fd_write_buffered_loop.simps [of buf d]
  consider "buf = []" | "buf \<noteq> []" "?rem = 0" | "buf \<noteq> []" "?rem \<noteq> 0" by blast
  then show ?case
  proof cases
    case 1
    with "1.prems" show ?thesis by (simp add: fd_write_buffered_loop.simps [of "[]"])
  next
    case 2
    obtain r e where f: "guac_socket_fd_flush d = (r, e)" by fastforce
    note fl = fd_flush_spec [OF f]
    show ?thesis
    proof (cases "r = 0")
      case True
      with "1.prems" 2 f have "fd_write_buffered_loop buf e = (ok, d')" by (simp add: unfold)
      with "1.IH"(1) [OF 2(1) refl 2(2) f [symmetric]] True fl "1.prems"
      have "fd_same e d' \<and> fd_inv d' \<and> (ok \<longrightarrow> fd_sent d' = fd_sent e @ buf) \<and> (fd_healthy e \<longrightarrow> ok)"
        by simp
      with fl True show ?thesis by (auto intro: fd_same_trans fd_same_healthy)
    next
      case False
      with "1.prems" 2 f fl show ?thesis by (auto simp: unfold)
    qed
  next
    case 3
    let ?n = "min (length buf) ?rem"
    let ?e = "d\<lparr>out_buf := out_buf d @ take ?n buf\<rparr>"
    have e: "fd_inv ?e" "fd_same d ?e" "fd_healthy ?e = fd_healthy d" "fd_sent ?e = fd_sent d @ take ?n buf"
      using "1.prems" 3 by (auto simp: fd_inv_def fd_same_def fd_healthy_def fd_sent_def)
    from "1.prems" 3 have "fd_write_buffered_loop (drop ?n buf) ?e = (ok, d')"
      by (simp add: unfold Let_def)
    with "1.IH"(2) [OF 3(1) refl 3(2) refl] e
    have "fd_same ?e d' \<and> fd_inv d' \<and> (ok \<longrightarrow> fd_sent d' = fd_sent ?e @ drop ?n buf) \<and> (fd_healthy ?e \<longrightarrow> ok)"
      by simp
    with e show ?thesis by (auto intro: fd_same_trans)
  qed
qed

lemma fd_write_handler_spec:
  assumes "guac_socket_fd_write_handler d buf = (r, d')" "fd_inv d"
  shows "fd_inv d' \<and> socket_lock d' = socket_lock d \<and> buffer_lock d' = buffer_lock d \<and>
    (r = int (length buf) \<and> fd_sent d' = fd_sent d @ buf \<or> r = -1) \<and>
    (fd_healthy d \<longrightarrow> r = int (length buf) \<and> fd_healthy d')"
proof -
  let ?d = "d\<lparr>buffer_lock := Suc (buffer_lock d)\<rparr>"
  obtain ok e where l: "fd_write_buffered_loop buf ?d = (ok, e)" by fastforce
  have "fd_inv ?d" "fd_healthy ?d = fd_healthy d" "fd_sent ?d = fd_sent d"
    using assms(2) by (auto simp: fd_inv_def fd_healthy_def fd_sent_def)
  with fd_write_buffered_spec [OF l] assms(1) l show ?thesis
    by (auto simp: guac_socket_fd_write_handler_def guac_socket_fd_write_buffered_def fd_same_def
          fd_inv_def fd_healthy_def fd_sent_def split: if_splits)
qed

lemma fd_flush_handler_spec:
  assumes "guac_socket_fd_flush_handler d = (r, d')" "fd_inv d"
  shows "fd_inv d' \<and> socket_lock d' = socket_lock d \<and> buffer_lock d' = buffer_lock d \<and>
    (r = 0 \<longrightarrow> fd_sent d' = fd_sent d \<and> out_buf d' = []) \<and>
    (fd_healthy d \<longrightarrow> r = 0 \<and> fd_healthy d')"
proof -
  let ?d = "d\<lparr>buffer_lock := Suc (buffer_lock d)\<rparr>"
  obtain k e where l: "guac_socket_fd_flush ?d = (k, e)" by fastforce
  have "fd_inv ?d" "fd_healthy ?d = fd_healthy d" "fd_sent ?d = fd_sent d"
    using assms(2) by (auto simp: fd_inv_def fd_healthy_def fd_sent_def)
  with fd_flush_spec [OF l] assms(1) l show ?thesis
    by (auto simp: guac_socket_fd_flush_handler_def fd_same_def fd_inv_def fd_healthy_def fd_sent_def)
qed

interpretation fd_sink: socket_sink
  guac_socket_fd_write_handler guac_socket_fd_lock_handler guac_socket_fd_unlock_handler
  guac_socket_fd_flush_handler fd_inv fd_sent socket_lock fd_healthy
proof (unfold_locales, goal_cases)
  case (1 d buf r d')
  with fd_write_handler_spec show ?case by blast
next
  case (2 d buf r d')
  with fd_write_handler_spec [OF 2(3) 2(1)] show ?case by (auto simp: Suc_le_eq)
next
  case (3 d buf r d')
  with fd_write_handler_spec [OF 3(4) 3(1)] show ?case by auto
next
  case (4 d)
  then show ?case
    by (simp add: guac_socket_fd_lock_handler_def fd_inv_def fd_sent_def fd_healthy_def)
next
  case (5 d)
  then show ?case
    by (simp add: guac_socket_fd_unlock_handler_def fd_inv_def fd_sent_def fd_healthy_def)
next
  case (6 d r d')
  with fd_flush_handler_spec [OF 6(2) 6(1)] show ?case by simp
qed

lemma guac_socket_open_attached [simp]: "fd_sink.attached (guac_socket_open f clk)"
  by (simp add: fd_sink.attached_def guac_socket_open_def guac_socket_alloc_def fd_inv_def)

section \<open>The descriptor socket is a source\<close>

text \<open>A calm descriptor has no failing read or wait ahead of it, and no timeout.\<close>

definition fd_calm :: "guac_socket_fd_data \<Rightarrow> bool" where
  "fd_calm d \<longleftrightarrow> None \<notin> set (read_plan (fd d)) \<and> list_all (\<lambda>r. 0 < r) (poll_plan (fd d))"

lemma posix_read_spec:
  assumes "posix_read count f = (r, bs, f')"
  shows "0 \<le> r \<longrightarrow> r = int (length bs) \<and> length bs \<le> count \<and> fd_in f = bs @ fd_in f'"
    and "r = 0 \<longrightarrow> 0 < count \<longrightarrow> fd_in f = []"
    and "None \<notin> set (read_plan f) \<longrightarrow> 0 \<le> r \<and> None \<notin> set (read_plan f')"
    and "poll_plan f' = poll_plan f"
  using assms
  by (auto simp: posix_read_def Let_def append_eq_conv_conj min_def split: list.splits option.splits if_splits)

lemma wait_for_fd_spec:
  assumes "guac_wait_for_fd f t = (r, f')"
  shows "fd_in f' = fd_in f" "read_plan f' = read_plan f"
    and "list_all (\<lambda>r. 0 < r) (poll_plan f) \<longrightarrow> 0 < r \<and> list_all (\<lambda>r. 0 < r) (poll_plan f')"
  using assms by (auto simp: guac_wait_for_fd_def posix_poll_def Let_def split: list.splits if_splits)

interpretation fd_source: socket_source
  guac_socket_fd_read_handler guac_socket_fd_select_handler "\<lambda>d. fd_in (fd d)" fd_calm
proof (unfold_locales, goal_cases)
  case (1 d count r bs d')
  obtain k xs f where p: "posix_read count (fd d) = (k, xs, f)" by (metis prod_cases3)
  with 1 posix_read_spec [OF p] show ?case
    by (auto simp: guac_socket_fd_read_handler_def Let_def split: if_splits)
next
  case (2 d count bs d')
  obtain k xs f where p: "posix_read count (fd d) = (k, xs, f)" by (metis prod_cases3)
  with 2 posix_read_spec [OF p] show ?case
    by (auto simp: guac_socket_fd_read_handler_def Let_def split: if_splits)
next
  case (3 d count r bs d')
  obtain k xs f where p: "posix_read count (fd d) = (k, xs, f)" by (metis prod_cases3)
  with 3 posix_read_spec [OF p] show ?case
    by (auto simp: guac_socket_fd_read_handler_def Let_def fd_calm_def split: if_splits)
next
  case (4 d t r d')
  obtain k f where p: "guac_wait_for_fd (fd d) t = (k, f)" by fastforce
  with 4 wait_for_fd_spec [OF p] show ?case
    by (auto simp: guac_socket_fd_select_handler_def Let_def split: if_splits)
next
  case (5 d t r d')
  obtain k f where p: "guac_wait_for_fd (fd d) t = (k, f)" by fastforce
  with 5 wait_for_fd_spec [OF p] show ?case
    by (auto simp: guac_socket_fd_select_handler_def Let_def fd_calm_def split: if_splits)
qed

lemma guac_socket_open_source [simp]: "fd_source.source (guac_socket_open f clk)"
  by (simp add: fd_source.source_def guac_socket_open_def guac_socket_alloc_def)

text \<open>A socket as \<open>guac_socket_open\<close> makes it, at any later time.\<close>

definition fd_socket :: "guac_socket_fd_data guac_socket \<Rightarrow> bool" where
  "fd_socket s \<longleftrightarrow>
     read_handler s = Some guac_socket_fd_read_handler \<and>
     select_handler s = Some guac_socket_fd_select_handler \<and>
     write_handler s = Some guac_socket_fd_write_handler \<and>
     lock_handler s = Some guac_socket_fd_lock_handler \<and>
     unlock_handler s = Some guac_socket_fd_unlock_handler \<and>
     flush_handler s = Some guac_socket_fd_flush_handler \<and>
     fd_inv (data s)"

lemma fd_socket_contracts: "fd_socket s \<Longrightarrow> fd_sink.attached s" "fd_socket s \<Longrightarrow> fd_source.source s"
  by (simp_all add: fd_socket_def fd_sink.attached_def fd_source.source_def)

lemma fd_socket_open [simp]: "fd_socket (guac_socket_open f clk)"
  by (simp add: fd_socket_def guac_socket_open_def guac_socket_alloc_def fd_inv_def)

text \<open>A descriptor on which every call succeeds at once.\<close>

definition quiet_fd :: "bytes \<Rightarrow> os_fd" where
  "quiet_fd input = \<lparr>fd_in = input, fd_out = [], read_plan = [], write_plan = [], poll_plan = [], fd_open = True\<rparr>"

definition quiet_socket :: "bytes \<Rightarrow> guac_socket_fd_data guac_socket" where
  "quiet_socket input = guac_socket_open (quiet_fd input) (\<lambda>_. 0)"

lemma quiet_socket_simps [simp]:
  "fd_socket (quiet_socket input)"
  "fd_healthy (data (quiet_socket input))"
  "fd_calm (data (quiet_socket input))"
  "fd_sent (data (quiet_socket input)) = []"
  "fd_in (fd (data (quiet_socket input))) = input"
  "ready_buf (quiet_socket input) = []"
  "socket_lock (data (quiet_socket input)) = 0"
  "out_buf (data (quiet_socket input)) = []"
  "state (quiet_socket input) = GUAC_SOCKET_OPEN"
  by (simp_all add: quiet_socket_def quiet_fd_def fd_healthy_def fd_calm_def fd_sent_def fd_socket_def
      fd_inv_def guac_socket_open_def guac_socket_alloc_def)

section \<open>Properties\<close>

lemma flushed_out:
  assumes "fd_sink.attached s" "guac_socket_flush s = Some (0, s')"
  shows "fd_out (fd (data s')) = fd_sent (data s')"
  using assms fd_flush_handler_spec [of "data s" 0 "data s'"]
  by (auto simp: guac_socket_flush_def fd_sink.attached_def fd_sent_def split: prod.splits)

text \<open>
  The calls of \<open>write\<close> that an operation has made, as the part of the kernel's plan that it has used up.
\<close>

definition fd_used :: "guac_socket_fd_data \<Rightarrow> nat option list \<Rightarrow> guac_socket_fd_data \<Rightarrow> bool" where
  "fd_used d used d' \<longleftrightarrow> write_plan (fd d) = used @ write_plan (fd d')"

lemma posix_write_used:
  assumes "posix_write buf f = (r, f')"
  obtains used where "write_plan f = used @ write_plan f'" "r < 0 \<longleftrightarrow> None \<in> set used"
proof (cases "write_plan f")
  case Nil
  then show thesis using assms by (intro that [of "[]"]) (auto simp: posix_write_def)
next
  case (Cons a plan)
  then show thesis using assms by (intro that [of "[a]"]) (auto simp: posix_write_def Let_def split: option.splits)
qed

lemma fd_write_used:
  "guac_socket_fd_write buf d = (r, d') \<Longrightarrow> \<exists>used. fd_used d used d' \<and> (r = 0 \<longleftrightarrow> None \<notin> set used) \<and>
     (r \<noteq> 0 \<longrightarrow> guac_error d' = GUAC_STATUS_SEE_ERRNO)"
proof (induction buf d rule: guac_socket_fd_write.induct)
  case (1 buf d)
  show ?case
  proof (cases "buf = []")
    case True
    with "1.prems" show ?thesis by (auto simp: guac_socket_fd_write.simps [of "[]"] fd_used_def)
  next
    case False
    obtain k f where w: "posix_write buf (fd d) = (k, f)" by fastforce
    obtain used where u: "write_plan (fd d) = used @ write_plan f" "k < 0 \<longleftrightarrow> None \<in> set used" by (rule posix_write_used [OF w])
    show ?thesis
    proof (cases "k < 0")
      case True
      then show ?thesis using "1.prems" w u False by (auto simp: guac_socket_fd_write.simps [of buf] fd_used_def)
    next
      case nonneg: False
      then have "guac_socket_fd_write (drop (nat k) buf) (d\<lparr>fd := f\<rparr>) = (r, d')"
        using "1.prems" w False by (simp add: guac_socket_fd_write.simps [of buf])
      from "1.IH" [OF False w [symmetric] refl nonneg this] obtain rest where r: "write_plan f = rest @ write_plan (fd d')" "r = 0 \<longleftrightarrow> None \<notin> set rest"
        "r \<noteq> 0 \<longrightarrow> guac_error d' = GUAC_STATUS_SEE_ERRNO" by (auto simp: fd_used_def)
      then show ?thesis using u nonneg by (intro exI [of _ "used @ rest"]) (simp add: fd_used_def)
    qed
  qed
qed

lemma fd_flush_used:
  assumes "guac_socket_fd_flush d = (r, d')"
  shows "\<exists>used. fd_used d used d' \<and> (r = 0 \<longleftrightarrow> None \<notin> set used) \<and> (r \<noteq> 0 \<longrightarrow> guac_error d' = GUAC_STATUS_SEE_ERRNO)"
proof (cases "out_buf d = []")
  case True
  with assms show ?thesis by (auto simp: guac_socket_fd_flush_def fd_used_def)
next
  case False
  obtain k e where w: "guac_socket_fd_write (out_buf d) d = (k, e)" by fastforce
  from fd_write_used [OF w] assms w False show ?thesis by (auto simp: guac_socket_fd_flush_def fd_used_def split: if_splits)
qed

lemma fd_write_buffered_used:
  "fd_write_buffered_loop buf d = (ok, d') \<Longrightarrow> \<exists>used. fd_used d used d' \<and> (ok \<longleftrightarrow> None \<notin> set used) \<and>
     (\<not> ok \<longrightarrow> guac_error d' = GUAC_STATUS_SEE_ERRNO)"
proof (induction buf d rule: fd_write_buffered_loop.induct)
  case (1 buf d)
  let ?rem = "GUAC_SOCKET_OUTPUT_BUFFER_SIZE - length (out_buf d)"
  note unfold = fd_write_buffered_loop.simps [of buf d]
  consider "buf = []" | "buf \<noteq> []" "?rem = 0" | "buf \<noteq> []" "?rem \<noteq> 0" by blast
  then show ?case
  proof cases
    case 1
    with "1.prems" show ?thesis by (auto simp: fd_write_buffered_loop.simps [of "[]"] fd_used_def)
  next
    case 2
    obtain r e where f: "guac_socket_fd_flush d = (r, e)" by fastforce
    from fd_flush_used [OF f] obtain used where u: "write_plan (fd d) = used @ write_plan (fd e)" "r = 0 \<longleftrightarrow> None \<notin> set used"
      "r \<noteq> 0 \<longrightarrow> guac_error e = GUAC_STATUS_SEE_ERRNO" by (auto simp: fd_used_def)
    show ?thesis
    proof (cases "r = 0")
      case True
      with "1.prems" 2 f have "fd_write_buffered_loop buf e = (ok, d')" by (simp add: unfold)
      with "1.IH"(1) [OF 2(1) refl 2(2) f [symmetric]] True
      obtain rest where "write_plan (fd e) = rest @ write_plan (fd d')" "ok \<longleftrightarrow> None \<notin> set rest" "\<not> ok \<longrightarrow> guac_error d' = GUAC_STATUS_SEE_ERRNO"
        by (auto simp: fd_used_def)
      with u True show ?thesis by (intro exI [of _ "used @ rest"]) (simp add: fd_used_def)
    next
      case False
      with "1.prems" 2 f u show ?thesis by (auto simp: unfold fd_used_def)
    qed
  next
    case 3
    from "1.prems" 3 have "fd_write_buffered_loop (drop (min (length buf) ?rem) buf)
        (d\<lparr>out_buf := out_buf d @ take (min (length buf) ?rem) buf\<rparr>) = (ok, d')" by (simp add: unfold Let_def)
    with "1.IH"(2) [OF 3(1) refl 3(2) refl] show ?thesis by (simp add: fd_used_def)
  qed
qed

lemma fd_socket_write_used:
  assumes "fd_socket s" "guac_socket_write buf s = Some (r, s')"
  shows "\<exists>used. fd_used (data s) used (data s') \<and> (r = 0 \<longleftrightarrow> None \<notin> set used) \<and>
    (r \<noteq> 0 \<longrightarrow> guac_error (data s') = GUAC_STATUS_SEE_ERRNO) \<and> buffer_lock (data s') = buffer_lock (data s)"
proof (cases "buf = []")
  case True
  then show ?thesis using assms(2) by (auto simp: guac_socket_write.simps [of "[]"] fd_used_def)
next
  case False
  let ?d = "(data s)\<lparr>buffer_lock := Suc (buffer_lock (data s))\<rparr>"
  obtain ok e where l: "fd_write_buffered_loop buf ?d = (ok, e)" by fastforce
  from fd_write_buffered_used [OF l] obtain used where u: "fd_used (data s) used e" "ok \<longleftrightarrow> None \<notin> set used"
    "\<not> ok \<longrightarrow> guac_error e = GUAC_STATUS_SEE_ERRNO" by (auto simp: fd_used_def)
  have "buffer_lock e = Suc (buffer_lock (data s))"
    using fd_write_buffered_spec [OF l] assms(1) by (simp add: fd_socket_def fd_inv_def fd_same_def)
  then show ?thesis using assms l u False
    by (intro exI [of _ used]) (auto simp: guac_socket_write.simps [of buf] guac_socket_write.simps [of "[]"] guac_socket_write_once_def
        guac_timestamp_current_def fd_socket_def guac_socket_fd_write_handler_def guac_socket_fd_write_buffered_def fd_used_def Let_def
        split: if_splits)
qed

text \<open>
  C14: a write to a descriptor socket reports success exactly when no call of \<open>write\<close> that it made has
  failed. From any state within its buffer's bounds, \<open>guac_socket_write\<close> returns; \<open>used\<close> is what the
  kernel did at the calls that were made. On success the bytes given to the kernel followed by the
  buffered ones have grown by exactly the data; a failure is 1 and sets the error; and both locks and
  the buffer's bounds are as before. The number of bytes is below \<open>2 ^ 31\<close>: the source keeps it in an \<open>int\<close>.
\<close>

theorem guac_socket_fd_write_all:
  assumes "fd_socket s" "length buf < 2 ^ 31"
  shows "\<exists>r s' used. guac_socket_write buf s = Some (r, s') \<and>
    write_plan (fd (data s)) = used @ write_plan (fd (data s')) \<and> (r = 0 \<longleftrightarrow> None \<notin> set used) \<and>
    (r = 0 \<longrightarrow> fd_out (fd (data s')) @ out_buf (data s') = fd_out (fd (data s)) @ out_buf (data s) @ buf) \<and>
    (r \<noteq> 0 \<longrightarrow> r = 1 \<and> guac_error (data s') = GUAC_STATUS_SEE_ERRNO) \<and>
    length (out_buf (data s')) \<le> GUAC_SOCKET_OUTPUT_BUFFER_SIZE \<and>
    socket_lock (data s') = socket_lock (data s) \<and> buffer_lock (data s') = buffer_lock (data s)"
proof -
  obtain r s' where w: "guac_socket_write buf s = Some (r, s')" "fd_sink.wrote s buf r s'"
    using fd_sink.write_wrote [OF fd_socket_contracts(1) [OF assms(1)]] by blast
  obtain used where "fd_used (data s) used (data s')" "r = 0 \<longleftrightarrow> None \<notin> set used"
    "r \<noteq> 0 \<longrightarrow> guac_error (data s') = GUAC_STATUS_SEE_ERRNO" "buffer_lock (data s') = buffer_lock (data s)"
    using fd_socket_write_used [OF assms(1) w(1)] by blast
  with w guac_socket_write_result [OF w(1)] show ?thesis
    by (intro exI [of _ r] exI [of _ s'] exI [of _ used])
      (auto simp: fd_sink.wrote_def fd_sink.attached_def fd_sent_def fd_inv_def fd_used_def)
qed

theorem guac_socket_fd_write_all_witness:
  "\<exists>r s' used. guac_socket_write ''hello'' (guac_socket_open ((quiet_fd [])\<lparr>write_plan := [Some 0]\<rparr>) (\<lambda>_. 0)) = Some (r, s') \<and>
    (r = 0 \<longleftrightarrow> None \<notin> set used) \<and> [Some 0] = used @ write_plan (fd (data s')) \<and> buffer_lock (data s') = 0"
  using guac_socket_fd_write_all [of "guac_socket_open ((quiet_fd [])\<lparr>write_plan := [Some 0]\<rparr>) (\<lambda>_. 0)" "''hello''"]
  by (auto simp: guac_socket_open_def guac_socket_alloc_def quiet_fd_def fd_socket_def fd_inv_def)

text \<open>A write that takes a few parts and then fails.\<close>

lemma fd_write_interrupted:
  "write_plan (fd d) = map Some ks @ None # plan \<Longrightarrow> sum_list (map Suc ks) < length buf \<Longrightarrow>
   guac_socket_fd_write buf d = (-1, d\<lparr>fd := (fd d)\<lparr>fd_out := fd_out (fd d) @ take (sum_list (map Suc ks)) buf, write_plan := plan\<rparr>,
     guac_error := GUAC_STATUS_SEE_ERRNO\<rparr>)"
proof (induction ks arbitrary: buf d)
  case Nil
  then show ?case by (auto simp: guac_socket_fd_write.simps [of buf] posix_write_def)
next
  case (Cons k ks)
  let ?f = "(fd d)\<lparr>fd_out := fd_out (fd d) @ take (Suc k) buf, write_plan := map Some ks @ None # plan\<rparr>"
  have n: "Suc k \<le> length buf" "buf \<noteq> []" using Cons.prems(2) by auto
  have "posix_write buf (fd d) = (int (Suc k), ?f)" using Cons.prems(1) n by (simp add: posix_write_def Let_def)
  then have "guac_socket_fd_write buf d = guac_socket_fd_write (drop (Suc k) buf) (d\<lparr>fd := ?f\<rparr>)"
    using n by (simp add: guac_socket_fd_write.simps [of buf] del: of_nat_Suc)
  also have "\<dots> = (-1, d\<lparr>fd := (fd d)\<lparr>fd_out := fd_out (fd d) @ take (sum_list (map Suc (k # ks))) buf, write_plan := plan\<rparr>,
     guac_error := GUAC_STATUS_SEE_ERRNO\<rparr>)"
    using Cons.IH [of "d\<lparr>fd := ?f\<rparr>" "drop (Suc k) buf"] Cons.prems(2) take_add [of "Suc k" "sum_list (map Suc ks)" buf] by simp
  finally show ?case .
qed

text \<open>
  C22: the result of a failed flush. Whenever \<open>write\<close> takes some parts of the output buffer, fewer bytes
  than are buffered, and then fails, the buffer is kept whole: a later flush that succeeds sends the
  parts that were already taken a second time, in front of the whole buffer.
\<close>

theorem guac_socket_fd_flush_repeats:
  assumes "write_plan (fd d) = map Some ks @ None # plan" "sum_list (map Suc ks) < length (out_buf d)" "None \<notin> set plan"
  shows "\<exists>d1 d2. guac_socket_fd_flush d = (1, d1) \<and> guac_socket_fd_flush d1 = (0, d2) \<and>
    fd_out (fd d2) = fd_out (fd d) @ take (sum_list (map Suc ks)) (out_buf d) @ out_buf d"
proof -
  let ?sent = "take (sum_list (map Suc ks)) (out_buf d)"
  define d1 where "d1 = d\<lparr>fd := (fd d)\<lparr>fd_out := fd_out (fd d) @ ?sent, write_plan := plan\<rparr>, guac_error := GUAC_STATUS_SEE_ERRNO\<rparr>"
  have f1: "guac_socket_fd_flush d = (1, d1)"
    using fd_write_interrupted [OF assms(1, 2)] assms(2) by (auto simp: guac_socket_fd_flush_def d1_def)
  obtain r d2 where f2: "guac_socket_fd_flush d1 = (r, d2)" by fastforce
  have "fd_healthy d1" using assms(3) by (simp add: fd_healthy_def d1_def)
  with fd_flush_spec [OF f2] have "r = 0" "fd_sent d2 = fd_sent d1" "out_buf d2 = []" by auto
  then show ?thesis using f1 f2 by (auto simp: fd_sent_def d1_def)
qed

theorem guac_socket_fd_flush_repeats_witness:
  "\<exists>d1 d2. guac_socket_fd_flush \<lparr>fd = (quiet_fd [])\<lparr>write_plan := [Some 1, None]\<rparr>, out_buf = ''3.nop;'', socket_lock = 0,
       buffer_lock = 0, guac_error = GUAC_STATUS_SUCCESS\<rparr> = (1, d1) \<and>
     guac_socket_fd_flush d1 = (0, d2) \<and> fd_out (fd d2) = ''3.'' @ ''3.nop;''"
  using guac_socket_fd_flush_repeats [of "\<lparr>fd = (quiet_fd [])\<lparr>write_plan := [Some 1, None]\<rparr>, out_buf = ''3.nop;'', socket_lock = 0,
       buffer_lock = 0, guac_error = GUAC_STATUS_SUCCESS\<rparr>" "[1]" "[]"]
  by (auto simp: quiet_fd_def numeral_2_eq_2)

end
