(* ===== verification/Printf.thy ===== *)
theory Printf
  imports Unicode
begin

text \<open>
  The \<open>%.16g\<close> conversion of \<open>snprintf\<close>, which \<open>protocol.c\<close> uses for coordinates and angles. A
  \<open>double\<close> is its sign, integer mantissa and binary exponent (value \<open>m * 2 ^ e\<close>), or one of the
  special values. The conversion rounds the exact value to 16 significant digits, half to even,
  and drops trailing zeros, as the C standard prescribes.
\<close>

datatype c_double = Finite bool nat int | Infinity bool | NaN bool

definition ndigits :: "nat \<Rightarrow> nat" where
  "ndigits n = length (show_nat n)"

text \<open>Numerator and denominator of \<open>m * 2 ^ e\<close>, and the decimal exponent of their quotient.\<close>

definition dyadic :: "nat \<Rightarrow> int \<Rightarrow> nat \<times> nat" where
  "dyadic m e = (if e \<ge> 0 then (m * 2 ^ nat e, 1) else (m, 2 ^ nat (- e)))"

definition decimal_exponent :: "nat \<Rightarrow> nat \<Rightarrow> int" where
  "decimal_exponent num den =
     (if num \<ge> den then int (ndigits (num div den)) - 1
      else - int (ndigits ((den + num - 1) div num - 1)))"

definition round_half_even :: "nat \<Rightarrow> nat \<Rightarrow> nat" where
  "round_half_even a b =
     (let q = a div b; r = a mod b
      in if 2 * r > b \<or> 2 * r = b \<and> odd q then q + 1 else q)"

text \<open>The 16 significant digits as a number, and the exponent of the first of them.\<close>

definition significant_16 :: "nat \<Rightarrow> nat \<Rightarrow> nat \<times> int" where
  "significant_16 num den =
     (let x = decimal_exponent num den; k = 15 - x;
          q = (if k \<ge> 0 then round_half_even (num * 10 ^ nat k) den
               else round_half_even num (den * 10 ^ nat (- k)))
      in if q = 10 ^ 16 then (10 ^ 15, x + 1) else (q, x))"

definition strip_zeros :: "string \<Rightarrow> string" where
  "strip_zeros ds = rev (dropWhile (\<lambda>c. c = CHR ''0'') (rev ds))"

definition with_point :: "string \<Rightarrow> string \<Rightarrow> string" where
  "with_point whole frac = (let f = strip_zeros frac in if f = [] then whole else whole @ ''.'' @ f)"

definition exponent_part :: "int \<Rightarrow> string" where
  "exponent_part x =
     (let ds = show_nat (nat \<bar>x\<bar>)
      in (if x < 0 then ''e-'' else ''e+'') @ (if length ds < 2 then ''0'' else []) @ ds)"

definition printf_g16 :: "c_double \<Rightarrow> string" where
  "printf_g16 d =
     (case d of
        NaN s \<Rightarrow> (if s then ''-nan'' else ''nan'')
      | Infinity s \<Rightarrow> (if s then ''-inf'' else ''inf'')
      | Finite s m e \<Rightarrow>
          (if s then ''-'' else []) @
          (if m = 0 then ''0''
           else let (num, den) = dyadic m e; (q, x) = significant_16 num den; ds = show_nat q
                in if x < -4 \<or> x \<ge> 16 then with_point (take 1 ds) (drop 1 ds) @ exponent_part x
                   else if x \<ge> 0 then with_point (take (nat (x + 1)) ds) (drop (nat (x + 1)) ds)
                   else with_point ''0'' (replicate (nat (- x - 1)) (CHR ''0'') @ ds)))"

lemma ascii_take [simp]: "ascii xs \<Longrightarrow> ascii (take n xs)"
  by (auto simp: ascii_def list_all_iff dest: in_set_takeD)

lemma ascii_drop [simp]: "ascii xs \<Longrightarrow> ascii (drop n xs)"
  by (auto simp: ascii_def list_all_iff dest: in_set_dropD)

lemma ascii_replicate [simp]: "ascii (replicate n c) \<longleftrightarrow> n = 0 \<or> uchar c < 128"
  by (auto simp: ascii_def list_all_iff)

lemma ascii_strip_zeros [simp]: "ascii xs \<Longrightarrow> ascii (strip_zeros xs)"
  by (auto simp: ascii_def list_all_iff strip_zeros_def dest: set_dropWhileD)

lemma ascii_with_point [simp]: "ascii xs \<Longrightarrow> ascii ys \<Longrightarrow> ascii (with_point xs ys)"
  by (simp add: with_point_def Let_def)

lemma ascii_exponent_part [simp]: "ascii (exponent_part x)"
  by (simp add: exponent_part_def Let_def)

lemma ascii_printf_g16 [simp]: "ascii (printf_g16 d)"
  by (cases d) (simp_all add: printf_g16_def Let_def split: prod.splits)

end
