(* ===== verification/Wire.thy ===== *)
theory Wire
  imports Unicode
begin

text \<open>
  The protocol's text form: each element is its length in characters, a period and its content;
  elements are separated by commas and the instruction ends with a semicolon.
\<close>

definition encode_element :: "string \<Rightarrow> string" where
  "encode_element e = show_nat (guac_utf8_strlen e) @ ''.'' @ e"

fun encode_rest :: "string list \<Rightarrow> string" where
  "encode_rest [] = '';''"
| "encode_rest (e # es) = '','' @ encode_element e @ encode_rest es"

fun encode_instruction :: "string list \<Rightarrow> string" where
  "encode_instruction [] = []"
| "encode_instruction (e # es) = encode_element e @ encode_rest es"

fun encode_args :: "string list \<Rightarrow> string" where
  "encode_args [] = []"
| "encode_args (e # es) = '','' @ encode_element e @ encode_args es"

lemma encode_rest_args: "encode_rest es = encode_args es @ '';''"
  by (induction es) simp_all

lemma encode_args_append: "encode_args (xs @ ys) = encode_args xs @ encode_args ys"
  by (induction xs) simp_all

end
