(* ===== verification/Protocol.thy ===== *)
theory Protocol
  imports SocketFd Printf Wire
begin

text \<open>
  \<open>libguac/protocol.c\<close>: one function per instruction of the Guacamole protocol, each a chain of
  writes between the lock and unlock of an instruction, and the helpers that write an element with
  its length prefix. The socket comes last, so that an instruction is an operation of type
  \<open>'d sock_op\<close>. Enumerations (composite modes, line styles, status codes) are their integer values.
\<close>

section \<open>Elements\<close>

record guac_layer = layer_index :: int
record guac_stream = stream_index :: int
record guac_object = object_index :: int

definition GUACAMOLE_PROTOCOL_VERSION :: string where
  "GUACAMOLE_PROTOCOL_VERSION = ''VERSION_1_5_0''"

definition GUAC_PROTOCOL_BLOB_MAX_LENGTH :: nat where
  "GUAC_PROTOCOL_BLOB_MAX_LENGTH = 6048"

definition guac_socket_write_length_string :: "string \<Rightarrow> 'd sock_op" where
  "guac_socket_write_length_string str =
     c_or [guac_socket_write_int (int (guac_utf8_strlen str)), guac_socket_write_string ''.'',
           guac_socket_write_string str]"

definition guac_socket_write_length_int :: "int \<Rightarrow> 'd sock_op" where
  "guac_socket_write_length_int i = guac_socket_write_length_string (show_int i)"

text \<open>\<open>snprintf\<close> into 128 bytes keeps at most 127 characters.\<close>

definition double_text :: "c_double \<Rightarrow> string" where
  "double_text d = take 127 (printf_g16 d)"

definition guac_socket_write_length_double :: "c_double \<Rightarrow> 'd sock_op" where
  "guac_socket_write_length_double d = guac_socket_write_length_string (double_text d)"

text \<open>\<open>if (a) return -1; if (b) return -1; \<dots>; return z;\<close>\<close>

fun c_try :: "'d sock_op list \<Rightarrow> 'd sock_op \<Rightarrow> 'd sock_op" where
  "c_try [] z s = z s"
| "c_try (f # fs) z s =
     (case f s of
        None \<Rightarrow> None
      | Some (r, s') \<Rightarrow> if r \<noteq> 0 then Some (-1, s') else c_try fs z s')"

fun guac_socket_write_array :: "string list \<Rightarrow> 'd sock_op" where
  "guac_socket_write_array [] = (\<lambda>s. Some (0, s))"
| "guac_socket_write_array (x # xs) =
     c_try [guac_socket_write_string '','', guac_socket_write_length_string x]
       (guac_socket_write_array xs)"

text \<open>\<open>guac_socket_instruction_begin\<close>, the writes, \<open>guac_socket_instruction_end\<close>.\<close>

definition guac_instruction :: "'d sock_op \<Rightarrow> 'd sock_op" where
  "guac_instruction op s =
     (case op (guac_socket_instruction_begin s) of
        None \<Rightarrow> None
      | Some (ret_val, s') \<Rightarrow> Some (ret_val, guac_socket_instruction_end s'))"

section \<open>Instructions\<close>

definition guac_protocol_send_ack ::
    "guac_stream \<Rightarrow> string \<Rightarrow> int \<Rightarrow> 'd sock_op" where
  "guac_protocol_send_ack stream err status =
     guac_instruction (c_or [
       guac_socket_write_string ''3.ack,'',
       guac_socket_write_length_int (stream_index stream), guac_socket_write_string '','',
       guac_socket_write_length_string err, guac_socket_write_string '','',
       guac_socket_write_length_int status, guac_socket_write_string '';''])"

definition guac_protocol_send_argv ::
    "guac_stream \<Rightarrow> string \<Rightarrow> string \<Rightarrow> 'd sock_op" where
  "guac_protocol_send_argv stream mimetype nm =
     guac_instruction (c_or [
       guac_socket_write_string ''4.argv,'',
       guac_socket_write_length_int (stream_index stream), guac_socket_write_string '','',
       guac_socket_write_length_string mimetype, guac_socket_write_string '','',
       guac_socket_write_length_string nm, guac_socket_write_string '';''])"

definition guac_protocol_send_arc ::
    "guac_layer \<Rightarrow> int \<Rightarrow> int \<Rightarrow> int \<Rightarrow> c_double \<Rightarrow> c_double \<Rightarrow> int \<Rightarrow> 'd sock_op" where
  "guac_protocol_send_arc layer x y radius startAngle endAngle negative =
     guac_instruction (c_or [
       guac_socket_write_string ''3.arc,'', guac_socket_write_length_int (layer_index layer),
       guac_socket_write_string '','', guac_socket_write_length_int x,
       guac_socket_write_string '','', guac_socket_write_length_int y,
       guac_socket_write_string '','', guac_socket_write_length_int radius,
       guac_socket_write_string '','', guac_socket_write_length_double startAngle,
       guac_socket_write_string '','', guac_socket_write_length_double endAngle,
       guac_socket_write_string '','',
       guac_socket_write_string (if negative \<noteq> 0 then ''1.1'' else ''1.0''),
       guac_socket_write_string '';''])"

definition guac_protocol_send_audio ::
    "guac_stream \<Rightarrow> string \<Rightarrow> 'd sock_op" where
  "guac_protocol_send_audio stream mimetype =
     guac_instruction (c_or [
       guac_socket_write_string ''5.audio,'',
       guac_socket_write_length_int (stream_index stream), guac_socket_write_string '','',
       guac_socket_write_length_string mimetype, guac_socket_write_string '';''])"

definition guac_protocol_send_body ::
    "guac_object \<Rightarrow> guac_stream \<Rightarrow> string \<Rightarrow> string \<Rightarrow> 'd sock_op" where
  "guac_protocol_send_body obj stream mimetype nm =
     guac_instruction (c_or [
       guac_socket_write_string ''4.body,'', guac_socket_write_length_int (object_index obj),
       guac_socket_write_string '','', guac_socket_write_length_int (stream_index stream),
       guac_socket_write_string '','', guac_socket_write_length_string mimetype,
       guac_socket_write_string '','', guac_socket_write_length_string nm,
       guac_socket_write_string '';''])"

definition guac_protocol_send_cfill ::
    "int \<Rightarrow> guac_layer \<Rightarrow> int \<Rightarrow> int \<Rightarrow> int \<Rightarrow> int \<Rightarrow> 'd sock_op" where
  "guac_protocol_send_cfill mode layer r g b a =
     guac_instruction (c_or [
       guac_socket_write_string ''5.cfill,'', guac_socket_write_length_int mode,
       guac_socket_write_string '','', guac_socket_write_length_int (layer_index layer),
       guac_socket_write_string '','', guac_socket_write_length_int r,
       guac_socket_write_string '','', guac_socket_write_length_int g,
       guac_socket_write_string '','', guac_socket_write_length_int b,
       guac_socket_write_string '','', guac_socket_write_length_int a,
       guac_socket_write_string '';''])"

definition guac_protocol_send_close ::
    "guac_layer \<Rightarrow> 'd sock_op" where
  "guac_protocol_send_close layer =
     guac_instruction (c_or [
       guac_socket_write_string ''5.close,'',
       guac_socket_write_length_int (layer_index layer), guac_socket_write_string '';''])"

definition guac_protocol_send_clip ::
    "guac_layer \<Rightarrow> 'd sock_op" where
  "guac_protocol_send_clip layer =
     guac_instruction (c_or [
       guac_socket_write_string ''4.clip,'', guac_socket_write_length_int (layer_index layer),
       guac_socket_write_string '';''])"

definition guac_protocol_send_clipboard ::
    "guac_stream \<Rightarrow> string \<Rightarrow> 'd sock_op" where
  "guac_protocol_send_clipboard stream mimetype =
     guac_instruction (c_or [
       guac_socket_write_string ''9.clipboard,'',
       guac_socket_write_length_int (stream_index stream), guac_socket_write_string '','',
       guac_socket_write_length_string mimetype, guac_socket_write_string '';''])"

definition guac_protocol_send_copy ::
    "guac_layer \<Rightarrow> int \<Rightarrow> int \<Rightarrow> int \<Rightarrow> int \<Rightarrow> int \<Rightarrow> guac_layer \<Rightarrow> int \<Rightarrow> int \<Rightarrow> 'd sock_op" where
  "guac_protocol_send_copy srcl srcx srcy w h mode dstl dstx dsty =
     guac_instruction (c_or [
       guac_socket_write_string ''4.copy,'', guac_socket_write_length_int (layer_index srcl),
       guac_socket_write_string '','', guac_socket_write_length_int srcx,
       guac_socket_write_string '','', guac_socket_write_length_int srcy,
       guac_socket_write_string '','', guac_socket_write_length_int w,
       guac_socket_write_string '','', guac_socket_write_length_int h,
       guac_socket_write_string '','', guac_socket_write_length_int mode,
       guac_socket_write_string '','', guac_socket_write_length_int (layer_index dstl),
       guac_socket_write_string '','', guac_socket_write_length_int dstx,
       guac_socket_write_string '','', guac_socket_write_length_int dsty,
       guac_socket_write_string '';''])"

definition guac_protocol_send_cstroke ::
    "int \<Rightarrow> guac_layer \<Rightarrow> int \<Rightarrow> int \<Rightarrow> int \<Rightarrow> int \<Rightarrow> int \<Rightarrow> int \<Rightarrow> int \<Rightarrow> 'd sock_op" where
  "guac_protocol_send_cstroke mode layer cap_style join_style thickness r g b a =
     guac_instruction (c_or [
       guac_socket_write_string ''7.cstroke,'', guac_socket_write_length_int mode,
       guac_socket_write_string '','', guac_socket_write_length_int (layer_index layer),
       guac_socket_write_string '','', guac_socket_write_length_int cap_style,
       guac_socket_write_string '','', guac_socket_write_length_int join_style,
       guac_socket_write_string '','', guac_socket_write_length_int thickness,
       guac_socket_write_string '','', guac_socket_write_length_int r,
       guac_socket_write_string '','', guac_socket_write_length_int g,
       guac_socket_write_string '','', guac_socket_write_length_int b,
       guac_socket_write_string '','', guac_socket_write_length_int a,
       guac_socket_write_string '';''])"

definition guac_protocol_send_cursor ::
    "int \<Rightarrow> int \<Rightarrow> guac_layer \<Rightarrow> int \<Rightarrow> int \<Rightarrow> int \<Rightarrow> int \<Rightarrow> 'd sock_op" where
  "guac_protocol_send_cursor x y srcl srcx srcy w h =
     guac_instruction (c_or [
       guac_socket_write_string ''6.cursor,'', guac_socket_write_length_int x,
       guac_socket_write_string '','', guac_socket_write_length_int y,
       guac_socket_write_string '','', guac_socket_write_length_int (layer_index srcl),
       guac_socket_write_string '','', guac_socket_write_length_int srcx,
       guac_socket_write_string '','', guac_socket_write_length_int srcy,
       guac_socket_write_string '','', guac_socket_write_length_int w,
       guac_socket_write_string '','', guac_socket_write_length_int h,
       guac_socket_write_string '';''])"

definition guac_protocol_send_curve ::
    "guac_layer \<Rightarrow> int \<Rightarrow> int \<Rightarrow> int \<Rightarrow> int \<Rightarrow> int \<Rightarrow> int \<Rightarrow> 'd sock_op" where
  "guac_protocol_send_curve layer cp1x cp1y cp2x cp2y x y =
     guac_instruction (c_or [
       guac_socket_write_string ''5.curve,'',
       guac_socket_write_length_int (layer_index layer), guac_socket_write_string '','',
       guac_socket_write_length_int cp1x, guac_socket_write_string '','',
       guac_socket_write_length_int cp1y, guac_socket_write_string '','',
       guac_socket_write_length_int cp2x, guac_socket_write_string '','',
       guac_socket_write_length_int cp2y, guac_socket_write_string '','',
       guac_socket_write_length_int x, guac_socket_write_string '','',
       guac_socket_write_length_int y, guac_socket_write_string '';''])"

definition guac_protocol_send_disconnect ::
    "'d sock_op" where
  "guac_protocol_send_disconnect =
     guac_instruction (c_or [
       guac_socket_write_string ''10.disconnect;''])"

definition guac_protocol_send_dispose ::
    "guac_layer \<Rightarrow> 'd sock_op" where
  "guac_protocol_send_dispose layer =
     guac_instruction (c_or [
       guac_socket_write_string ''7.dispose,'',
       guac_socket_write_length_int (layer_index layer), guac_socket_write_string '';''])"

definition guac_protocol_send_distort ::
    "guac_layer \<Rightarrow> c_double \<Rightarrow> c_double \<Rightarrow> c_double \<Rightarrow> c_double \<Rightarrow> c_double \<Rightarrow> c_double \<Rightarrow> 'd sock_op" where
  "guac_protocol_send_distort layer m11 m12 m21 m22 dx dy =
     guac_instruction (c_or [
       guac_socket_write_string ''7.distort,'',
       guac_socket_write_length_int (layer_index layer), guac_socket_write_string '','',
       guac_socket_write_length_double m11, guac_socket_write_string '','',
       guac_socket_write_length_double m12, guac_socket_write_string '','',
       guac_socket_write_length_double m21, guac_socket_write_string '','',
       guac_socket_write_length_double m22, guac_socket_write_string '','',
       guac_socket_write_length_double dx, guac_socket_write_string '','',
       guac_socket_write_length_double dy, guac_socket_write_string '';''])"

definition guac_protocol_send_end ::
    "guac_stream \<Rightarrow> 'd sock_op" where
  "guac_protocol_send_end stream =
     guac_instruction (c_or [
       guac_socket_write_string ''3.end,'',
       guac_socket_write_length_int (stream_index stream), guac_socket_write_string '';''])"

definition guac_protocol_send_error ::
    "string \<Rightarrow> int \<Rightarrow> 'd sock_op" where
  "guac_protocol_send_error err status =
     guac_instruction (c_or [
       guac_socket_write_string ''5.error,'', guac_socket_write_length_string err,
       guac_socket_write_string '','', guac_socket_write_length_int status,
       guac_socket_write_string '';''])"

definition guac_protocol_send_msg ::
    "int \<Rightarrow> string list \<Rightarrow> 'd sock_op" where
  "guac_protocol_send_msg msg args =
     guac_instruction (c_or [
       guac_socket_write_string ''3.msg,'', guac_socket_write_length_int msg,
       guac_socket_write_array args, guac_socket_write_string '';''])"

definition guac_protocol_send_file ::
    "guac_stream \<Rightarrow> string \<Rightarrow> string \<Rightarrow> 'd sock_op" where
  "guac_protocol_send_file stream mimetype nm =
     guac_instruction (c_or [
       guac_socket_write_string ''4.file,'',
       guac_socket_write_length_int (stream_index stream), guac_socket_write_string '','',
       guac_socket_write_length_string mimetype, guac_socket_write_string '','',
       guac_socket_write_length_string nm, guac_socket_write_string '';''])"

definition guac_protocol_send_filesystem ::
    "guac_object \<Rightarrow> string \<Rightarrow> 'd sock_op" where
  "guac_protocol_send_filesystem obj nm =
     guac_instruction (c_or [
       guac_socket_write_string ''10.filesystem,'',
       guac_socket_write_length_int (object_index obj), guac_socket_write_string '','',
       guac_socket_write_length_string nm, guac_socket_write_string '';''])"

definition guac_protocol_send_identity ::
    "guac_layer \<Rightarrow> 'd sock_op" where
  "guac_protocol_send_identity layer =
     guac_instruction (c_or [
       guac_socket_write_string ''8.identity,'',
       guac_socket_write_length_int (layer_index layer), guac_socket_write_string '';''])"

definition guac_protocol_send_key ::
    "int \<Rightarrow> int \<Rightarrow> int \<Rightarrow> 'd sock_op" where
  "guac_protocol_send_key keysym pressed timestamp =
     guac_instruction (c_or [
       guac_socket_write_string ''3.key,'', guac_socket_write_length_int keysym,
       guac_socket_write_string (if pressed \<noteq> 0 then '',1.1,'' else '',1.0,''),
       guac_socket_write_length_int timestamp, guac_socket_write_string '';''])"

definition guac_protocol_send_lfill ::
    "int \<Rightarrow> guac_layer \<Rightarrow> guac_layer \<Rightarrow> 'd sock_op" where
  "guac_protocol_send_lfill mode layer srcl =
     guac_instruction (c_or [
       guac_socket_write_string ''5.lfill,'', guac_socket_write_length_int mode,
       guac_socket_write_string '','', guac_socket_write_length_int (layer_index layer),
       guac_socket_write_string '','', guac_socket_write_length_int (layer_index srcl),
       guac_socket_write_string '';''])"

definition guac_protocol_send_line ::
    "guac_layer \<Rightarrow> int \<Rightarrow> int \<Rightarrow> 'd sock_op" where
  "guac_protocol_send_line layer x y =
     guac_instruction (c_or [
       guac_socket_write_string ''4.line,'', guac_socket_write_length_int (layer_index layer),
       guac_socket_write_string '','', guac_socket_write_length_int x,
       guac_socket_write_string '','', guac_socket_write_length_int y,
       guac_socket_write_string '';''])"

definition guac_protocol_send_lstroke ::
    "int \<Rightarrow> guac_layer \<Rightarrow> int \<Rightarrow> int \<Rightarrow> int \<Rightarrow> guac_layer \<Rightarrow> 'd sock_op" where
  "guac_protocol_send_lstroke mode layer cap_style join_style thickness srcl =
     guac_instruction (c_or [
       guac_socket_write_string ''7.lstroke,'', guac_socket_write_length_int mode,
       guac_socket_write_string '','', guac_socket_write_length_int (layer_index layer),
       guac_socket_write_string '','', guac_socket_write_length_int cap_style,
       guac_socket_write_string '','', guac_socket_write_length_int join_style,
       guac_socket_write_string '','', guac_socket_write_length_int thickness,
       guac_socket_write_string '','', guac_socket_write_length_int (layer_index srcl),
       guac_socket_write_string '';''])"

definition guac_protocol_send_mouse ::
    "int \<Rightarrow> int \<Rightarrow> int \<Rightarrow> int \<Rightarrow> 'd sock_op" where
  "guac_protocol_send_mouse x y button_mask timestamp =
     guac_instruction (c_or [
       guac_socket_write_string ''5.mouse,'', guac_socket_write_length_int x,
       guac_socket_write_string '','', guac_socket_write_length_int y,
       guac_socket_write_string '','', guac_socket_write_length_int button_mask,
       guac_socket_write_string '','', guac_socket_write_length_int timestamp,
       guac_socket_write_string '';''])"

definition guac_protocol_send_touch ::
    "int \<Rightarrow> int \<Rightarrow> int \<Rightarrow> int \<Rightarrow> int \<Rightarrow> c_double \<Rightarrow> c_double \<Rightarrow> int \<Rightarrow> 'd sock_op" where
  "guac_protocol_send_touch ident x y x_radius y_radius angle touch_force timestamp =
     guac_instruction (c_or [
       guac_socket_write_string ''5.touch,'', guac_socket_write_length_int ident,
       guac_socket_write_string '','', guac_socket_write_length_int x,
       guac_socket_write_string '','', guac_socket_write_length_int y,
       guac_socket_write_string '','', guac_socket_write_length_int x_radius,
       guac_socket_write_string '','', guac_socket_write_length_int y_radius,
       guac_socket_write_string '','', guac_socket_write_length_double angle,
       guac_socket_write_string '','', guac_socket_write_length_double touch_force,
       guac_socket_write_string '','', guac_socket_write_length_int timestamp,
       guac_socket_write_string '';''])"

definition guac_protocol_send_move ::
    "guac_layer \<Rightarrow> guac_layer \<Rightarrow> int \<Rightarrow> int \<Rightarrow> int \<Rightarrow> 'd sock_op" where
  "guac_protocol_send_move layer parent_layer x y z =
     guac_instruction (c_or [
       guac_socket_write_string ''4.move,'', guac_socket_write_length_int (layer_index layer),
       guac_socket_write_string '','',
       guac_socket_write_length_int (layer_index parent_layer),
       guac_socket_write_string '','', guac_socket_write_length_int x,
       guac_socket_write_string '','', guac_socket_write_length_int y,
       guac_socket_write_string '','', guac_socket_write_length_int z,
       guac_socket_write_string '';''])"

definition guac_protocol_send_name ::
    "string \<Rightarrow> 'd sock_op" where
  "guac_protocol_send_name nm =
     guac_instruction (c_or [
       guac_socket_write_string ''4.name,'', guac_socket_write_length_string nm,
       guac_socket_write_string '';''])"

definition guac_protocol_send_nest ::
    "int \<Rightarrow> string \<Rightarrow> 'd sock_op" where
  "guac_protocol_send_nest idx txt_data =
     guac_instruction (c_or [
       guac_socket_write_string ''4.nest,'', guac_socket_write_length_int idx,
       guac_socket_write_string '','', guac_socket_write_length_string txt_data,
       guac_socket_write_string '';''])"

definition guac_protocol_send_nop ::
    "'d sock_op" where
  "guac_protocol_send_nop =
     guac_instruction (c_or [
       guac_socket_write_string ''3.nop;''])"

definition guac_protocol_send_pipe ::
    "guac_stream \<Rightarrow> string \<Rightarrow> string \<Rightarrow> 'd sock_op" where
  "guac_protocol_send_pipe stream mimetype nm =
     guac_instruction (c_or [
       guac_socket_write_string ''4.pipe,'',
       guac_socket_write_length_int (stream_index stream), guac_socket_write_string '','',
       guac_socket_write_length_string mimetype, guac_socket_write_string '','',
       guac_socket_write_length_string nm, guac_socket_write_string '';''])"

definition guac_protocol_send_img ::
    "guac_stream \<Rightarrow> int \<Rightarrow> guac_layer \<Rightarrow> string \<Rightarrow> int \<Rightarrow> int \<Rightarrow> 'd sock_op" where
  "guac_protocol_send_img stream mode layer mimetype x y =
     guac_instruction (c_or [
       guac_socket_write_string ''3.img,'',
       guac_socket_write_length_int (stream_index stream), guac_socket_write_string '','',
       guac_socket_write_length_int mode, guac_socket_write_string '','',
       guac_socket_write_length_int (layer_index layer), guac_socket_write_string '','',
       guac_socket_write_length_string mimetype, guac_socket_write_string '','',
       guac_socket_write_length_int x, guac_socket_write_string '','',
       guac_socket_write_length_int y, guac_socket_write_string '';''])"

definition guac_protocol_send_pop ::
    "guac_layer \<Rightarrow> 'd sock_op" where
  "guac_protocol_send_pop layer =
     guac_instruction (c_or [
       guac_socket_write_string ''3.pop,'', guac_socket_write_length_int (layer_index layer),
       guac_socket_write_string '';''])"

definition guac_protocol_send_push ::
    "guac_layer \<Rightarrow> 'd sock_op" where
  "guac_protocol_send_push layer =
     guac_instruction (c_or [
       guac_socket_write_string ''4.push,'', guac_socket_write_length_int (layer_index layer),
       guac_socket_write_string '';''])"

definition guac_protocol_send_ready ::
    "string \<Rightarrow> 'd sock_op" where
  "guac_protocol_send_ready ident =
     guac_instruction (c_or [
       guac_socket_write_string ''5.ready,'', guac_socket_write_length_string ident,
       guac_socket_write_string '';''])"

definition guac_protocol_send_rect ::
    "guac_layer \<Rightarrow> int \<Rightarrow> int \<Rightarrow> int \<Rightarrow> int \<Rightarrow> 'd sock_op" where
  "guac_protocol_send_rect layer x y width height =
     guac_instruction (c_or [
       guac_socket_write_string ''4.rect,'', guac_socket_write_length_int (layer_index layer),
       guac_socket_write_string '','', guac_socket_write_length_int x,
       guac_socket_write_string '','', guac_socket_write_length_int y,
       guac_socket_write_string '','', guac_socket_write_length_int width,
       guac_socket_write_string '','', guac_socket_write_length_int height,
       guac_socket_write_string '';''])"

definition guac_protocol_send_reset ::
    "guac_layer \<Rightarrow> 'd sock_op" where
  "guac_protocol_send_reset layer =
     guac_instruction (c_or [
       guac_socket_write_string ''5.reset,'',
       guac_socket_write_length_int (layer_index layer), guac_socket_write_string '';''])"

definition guac_protocol_send_set ::
    "guac_layer \<Rightarrow> string \<Rightarrow> string \<Rightarrow> 'd sock_op" where
  "guac_protocol_send_set layer nm val =
     guac_instruction (c_or [
       guac_socket_write_string ''3.set,'', guac_socket_write_length_int (layer_index layer),
       guac_socket_write_string '','', guac_socket_write_length_string nm,
       guac_socket_write_string '','', guac_socket_write_length_string val,
       guac_socket_write_string '';''])"

definition guac_protocol_send_set_int ::
    "guac_layer \<Rightarrow> string \<Rightarrow> int \<Rightarrow> 'd sock_op" where
  "guac_protocol_send_set_int layer nm val =
     guac_instruction (c_or [
       guac_socket_write_string ''3.set,'', guac_socket_write_length_int (layer_index layer),
       guac_socket_write_string '','', guac_socket_write_length_string nm,
       guac_socket_write_string '','', guac_socket_write_length_int val,
       guac_socket_write_string '';''])"

definition guac_protocol_send_select ::
    "string \<Rightarrow> 'd sock_op" where
  "guac_protocol_send_select protocol_name =
     guac_instruction (c_or [
       guac_socket_write_string ''6.select,'', guac_socket_write_length_string protocol_name,
       guac_socket_write_string '';''])"

definition guac_protocol_send_shade ::
    "guac_layer \<Rightarrow> int \<Rightarrow> 'd sock_op" where
  "guac_protocol_send_shade layer a =
     guac_instruction (c_or [
       guac_socket_write_string ''5.shade,'',
       guac_socket_write_length_int (layer_index layer), guac_socket_write_string '','',
       guac_socket_write_length_int a, guac_socket_write_string '';''])"

definition guac_protocol_send_size ::
    "guac_layer \<Rightarrow> int \<Rightarrow> int \<Rightarrow> 'd sock_op" where
  "guac_protocol_send_size layer w h =
     guac_instruction (c_or [
       guac_socket_write_string ''4.size,'', guac_socket_write_length_int (layer_index layer),
       guac_socket_write_string '','', guac_socket_write_length_int w,
       guac_socket_write_string '','', guac_socket_write_length_int h,
       guac_socket_write_string '';''])"

definition guac_protocol_send_start ::
    "guac_layer \<Rightarrow> int \<Rightarrow> int \<Rightarrow> 'd sock_op" where
  "guac_protocol_send_start layer x y =
     guac_instruction (c_or [
       guac_socket_write_string ''5.start,'',
       guac_socket_write_length_int (layer_index layer), guac_socket_write_string '','',
       guac_socket_write_length_int x, guac_socket_write_string '','',
       guac_socket_write_length_int y, guac_socket_write_string '';''])"

definition guac_protocol_send_sync ::
    "int \<Rightarrow> int \<Rightarrow> 'd sock_op" where
  "guac_protocol_send_sync timestamp frames =
     guac_instruction (c_or [
       guac_socket_write_string ''4.sync,'', guac_socket_write_length_int timestamp,
       guac_socket_write_string '','', guac_socket_write_length_int frames,
       guac_socket_write_string '';''])"

definition guac_protocol_send_transfer ::
    "guac_layer \<Rightarrow> int \<Rightarrow> int \<Rightarrow> int \<Rightarrow> int \<Rightarrow> int \<Rightarrow> guac_layer \<Rightarrow> int \<Rightarrow> int \<Rightarrow> 'd sock_op" where
  "guac_protocol_send_transfer srcl srcx srcy w h transfer_fn dstl dstx dsty =
     guac_instruction (c_or [
       guac_socket_write_string ''8.transfer,'',
       guac_socket_write_length_int (layer_index srcl), guac_socket_write_string '','',
       guac_socket_write_length_int srcx, guac_socket_write_string '','',
       guac_socket_write_length_int srcy, guac_socket_write_string '','',
       guac_socket_write_length_int w, guac_socket_write_string '','',
       guac_socket_write_length_int h, guac_socket_write_string '','',
       guac_socket_write_length_int transfer_fn, guac_socket_write_string '','',
       guac_socket_write_length_int (layer_index dstl), guac_socket_write_string '','',
       guac_socket_write_length_int dstx, guac_socket_write_string '','',
       guac_socket_write_length_int dsty, guac_socket_write_string '';''])"

definition guac_protocol_send_transform ::
    "guac_layer \<Rightarrow> c_double \<Rightarrow> c_double \<Rightarrow> c_double \<Rightarrow> c_double \<Rightarrow> c_double \<Rightarrow> c_double \<Rightarrow> 'd sock_op" where
  "guac_protocol_send_transform layer m11 m12 m21 m22 dx dy =
     guac_instruction (c_or [
       guac_socket_write_string ''9.transform,'',
       guac_socket_write_length_int (layer_index layer), guac_socket_write_string '','',
       guac_socket_write_length_double m11, guac_socket_write_string '','',
       guac_socket_write_length_double m12, guac_socket_write_string '','',
       guac_socket_write_length_double m21, guac_socket_write_string '','',
       guac_socket_write_length_double m22, guac_socket_write_string '','',
       guac_socket_write_length_double dx, guac_socket_write_string '','',
       guac_socket_write_length_double dy, guac_socket_write_string '';''])"

definition guac_protocol_send_undefine ::
    "guac_object \<Rightarrow> 'd sock_op" where
  "guac_protocol_send_undefine obj =
     guac_instruction (c_or [
       guac_socket_write_string ''8.undefine,'',
       guac_socket_write_length_int (object_index obj), guac_socket_write_string '';''])"

definition guac_protocol_send_video ::
    "guac_stream \<Rightarrow> guac_layer \<Rightarrow> string \<Rightarrow> 'd sock_op" where
  "guac_protocol_send_video stream layer mimetype =
     guac_instruction (c_or [
       guac_socket_write_string ''5.video,'',
       guac_socket_write_length_int (stream_index stream), guac_socket_write_string '','',
       guac_socket_write_length_int (layer_index layer), guac_socket_write_string '','',
       guac_socket_write_length_string mimetype, guac_socket_write_string '';''])"

definition guac_protocol_send_args_body :: "string list \<Rightarrow> 'd sock_op" where
  "guac_protocol_send_args_body args =
     c_try [guac_socket_write_string ''4.args'',
            c_or [guac_socket_write_string '','',
                  guac_socket_write_length_string GUACAMOLE_PROTOCOL_VERSION],
            guac_socket_write_array args]
       (guac_socket_write_string '';'')"

definition guac_protocol_send_args :: "string list \<Rightarrow> 'd sock_op" where
  "guac_protocol_send_args args = guac_instruction (guac_protocol_send_args_body args)"

definition guac_protocol_send_connect_body :: "string list \<Rightarrow> 'd sock_op" where
  "guac_protocol_send_connect_body args =
     c_try [guac_socket_write_string ''7.connect'', guac_socket_write_array args]
       (guac_socket_write_string '';'')"

definition guac_protocol_send_connect :: "string list \<Rightarrow> 'd sock_op" where
  "guac_protocol_send_connect args = guac_instruction (guac_protocol_send_connect_body args)"

definition guac_protocol_send_required :: "string list \<Rightarrow> 'd sock_op" where
  "guac_protocol_send_required req =
     guac_instruction (c_or [
       guac_socket_write_string ''8.required'', guac_socket_write_array req,
       guac_socket_write_string '';'', guac_socket_flush])"

text \<open>
  \<open>formatted\<close> is the text that the format and its arguments denote; \<open>vsnprintf\<close> keeps the first
  4095 bytes of it.
\<close>

definition vguac_protocol_send_log :: "string \<Rightarrow> 'd sock_op" where
  "vguac_protocol_send_log formatted =
     guac_instruction (c_or [
       guac_socket_write_string ''3.log,'',
       guac_socket_write_length_string (take 4095 formatted),
       guac_socket_write_string '';''])"

definition guac_protocol_send_log :: "string \<Rightarrow> 'd sock_op" where
  "guac_protocol_send_log formatted = vguac_protocol_send_log formatted"

text \<open>\<open>(count + 2) / 3 * 4\<close> is computed on a nonnegative count, the length of the data.\<close>

definition guac_protocol_send_blob :: "guac_stream \<Rightarrow> bytes \<Rightarrow> 'd sock_op" where
  "guac_protocol_send_blob stream dat =
     (let base64_length = (int (length dat) + 2) div 3 * 4
      in guac_instruction (c_or [
           guac_socket_write_string ''4.blob,'', guac_socket_write_length_int (stream_index stream),
           guac_socket_write_string '','', guac_socket_write_int base64_length,
           guac_socket_write_string ''.'', guac_socket_write_base64 dat,
           guac_socket_flush_base64, guac_socket_write_string '';'']))"

function guac_protocol_send_blobs :: "guac_stream \<Rightarrow> bytes \<Rightarrow> 'd sock_op" where
  "guac_protocol_send_blobs stream dat s =
     (if dat = [] then Some (0, s)
      else let blob_size = min (length dat) GUAC_PROTOCOL_BLOB_MAX_LENGTH
           in case guac_protocol_send_blob stream (take blob_size dat) s of
                None \<Rightarrow> None
              | Some (ret_val, s') \<Rightarrow>
                  if ret_val \<noteq> 0 then Some (ret_val, s')
                  else guac_protocol_send_blobs stream (drop blob_size dat) s')"
  by pat_completeness auto
termination
  by (relation "measure (\<lambda>(stream, dat, s). length dat)")
     (auto simp: GUAC_PROTOCOL_BLOB_MAX_LENGTH_def)

declare guac_protocol_send_blobs.simps [simp del]

section \<open>The wire format\<close>

text \<open>
  The elements (opcode and arguments) of the instruction that each function sends, as the protocol
  documents them.
\<close>

inductive wire_format :: "'d sock_op \<Rightarrow> string list \<Rightarrow> bool" where
"wire_format (guac_protocol_send_ack stream err status)
       [''ack'', show_int (stream_index stream), err, show_int status]"
| "wire_format (guac_protocol_send_argv stream mimetype nm)
       [''argv'', show_int (stream_index stream), mimetype, nm]"
| "wire_format (guac_protocol_send_arc layer x y radius startAngle endAngle negative)
       [''arc'', show_int (layer_index layer), show_int x, show_int y, show_int radius,
         double_text startAngle, double_text endAngle,
         (if negative \<noteq> 0 then ''1'' else ''0'')]"
| "wire_format (guac_protocol_send_audio stream mimetype)
       [''audio'', show_int (stream_index stream), mimetype]"
| "wire_format (guac_protocol_send_body obj stream mimetype nm)
       [''body'', show_int (object_index obj), show_int (stream_index stream), mimetype, nm]"
| "wire_format (guac_protocol_send_cfill mode layer r g b a)
       [''cfill'', show_int mode, show_int (layer_index layer), show_int r, show_int g,
         show_int b, show_int a]"
| "wire_format (guac_protocol_send_close layer)
       [''close'', show_int (layer_index layer)]"
| "wire_format (guac_protocol_send_clip layer)
       [''clip'', show_int (layer_index layer)]"
| "wire_format (guac_protocol_send_clipboard stream mimetype)
       [''clipboard'', show_int (stream_index stream), mimetype]"
| "wire_format (guac_protocol_send_copy srcl srcx srcy w h mode dstl dstx dsty)
       [''copy'', show_int (layer_index srcl), show_int srcx, show_int srcy, show_int w,
         show_int h, show_int mode, show_int (layer_index dstl), show_int dstx, show_int dsty]"
| "wire_format (guac_protocol_send_cstroke mode layer cap_style join_style thickness r g b a)
       [''cstroke'', show_int mode, show_int (layer_index layer), show_int cap_style,
         show_int join_style, show_int thickness, show_int r, show_int g, show_int b, show_int a]"
| "wire_format (guac_protocol_send_cursor x y srcl srcx srcy w h)
       [''cursor'', show_int x, show_int y, show_int (layer_index srcl), show_int srcx,
         show_int srcy, show_int w, show_int h]"
| "wire_format (guac_protocol_send_curve layer cp1x cp1y cp2x cp2y x y)
       [''curve'', show_int (layer_index layer), show_int cp1x, show_int cp1y, show_int cp2x,
         show_int cp2y, show_int x, show_int y]"
| "wire_format (guac_protocol_send_disconnect)
       [''disconnect'']"
| "wire_format (guac_protocol_send_dispose layer)
       [''dispose'', show_int (layer_index layer)]"
| "wire_format (guac_protocol_send_distort layer m11 m12 m21 m22 dx dy)
       [''distort'', show_int (layer_index layer), double_text m11, double_text m12,
         double_text m21, double_text m22, double_text dx, double_text dy]"
| "wire_format (guac_protocol_send_end stream)
       [''end'', show_int (stream_index stream)]"
| "wire_format (guac_protocol_send_error err status)
       [''error'', err, show_int status]"
| "wire_format (guac_protocol_send_msg msg args)
       ([''msg'', show_int msg] @ args)"
| "wire_format (guac_protocol_send_file stream mimetype nm)
       [''file'', show_int (stream_index stream), mimetype, nm]"
| "wire_format (guac_protocol_send_filesystem obj nm)
       [''filesystem'', show_int (object_index obj), nm]"
| "wire_format (guac_protocol_send_identity layer)
       [''identity'', show_int (layer_index layer)]"
| "wire_format (guac_protocol_send_key keysym pressed timestamp)
       [''key'', show_int keysym, (if pressed \<noteq> 0 then ''1'' else ''0''),
         show_int timestamp]"
| "wire_format (guac_protocol_send_lfill mode layer srcl)
       [''lfill'', show_int mode, show_int (layer_index layer), show_int (layer_index srcl)]"
| "wire_format (guac_protocol_send_line layer x y)
       [''line'', show_int (layer_index layer), show_int x, show_int y]"
| "wire_format (guac_protocol_send_lstroke mode layer cap_style join_style thickness srcl)
       [''lstroke'', show_int mode, show_int (layer_index layer), show_int cap_style,
         show_int join_style, show_int thickness, show_int (layer_index srcl)]"
| "wire_format (guac_protocol_send_mouse x y button_mask timestamp)
       [''mouse'', show_int x, show_int y, show_int button_mask, show_int timestamp]"
| "wire_format (guac_protocol_send_touch ident x y x_radius y_radius angle touch_force timestamp)
       [''touch'', show_int ident, show_int x, show_int y, show_int x_radius,
         show_int y_radius, double_text angle, double_text touch_force, show_int timestamp]"
| "wire_format (guac_protocol_send_move layer parent_layer x y z)
       [''move'', show_int (layer_index layer), show_int (layer_index parent_layer),
         show_int x, show_int y, show_int z]"
| "wire_format (guac_protocol_send_name nm)
       [''name'', nm]"
| "wire_format (guac_protocol_send_nest idx txt_data)
       [''nest'', show_int idx, txt_data]"
| "wire_format (guac_protocol_send_nop)
       [''nop'']"
| "wire_format (guac_protocol_send_pipe stream mimetype nm)
       [''pipe'', show_int (stream_index stream), mimetype, nm]"
| "wire_format (guac_protocol_send_img stream mode layer mimetype x y)
       [''img'', show_int (stream_index stream), show_int mode, show_int (layer_index layer),
         mimetype, show_int x, show_int y]"
| "wire_format (guac_protocol_send_pop layer)
       [''pop'', show_int (layer_index layer)]"
| "wire_format (guac_protocol_send_push layer)
       [''push'', show_int (layer_index layer)]"
| "wire_format (guac_protocol_send_ready ident)
       [''ready'', ident]"
| "wire_format (guac_protocol_send_rect layer x y width height)
       [''rect'', show_int (layer_index layer), show_int x, show_int y, show_int width,
         show_int height]"
| "wire_format (guac_protocol_send_reset layer)
       [''reset'', show_int (layer_index layer)]"
| "wire_format (guac_protocol_send_set layer nm val)
       [''set'', show_int (layer_index layer), nm, val]"
| "wire_format (guac_protocol_send_set_int layer nm val)
       [''set'', show_int (layer_index layer), nm, show_int val]"
| "wire_format (guac_protocol_send_select protocol_name)
       [''select'', protocol_name]"
| "wire_format (guac_protocol_send_shade layer a)
       [''shade'', show_int (layer_index layer), show_int a]"
| "wire_format (guac_protocol_send_size layer w h)
       [''size'', show_int (layer_index layer), show_int w, show_int h]"
| "wire_format (guac_protocol_send_start layer x y)
       [''start'', show_int (layer_index layer), show_int x, show_int y]"
| "wire_format (guac_protocol_send_sync timestamp frames)
       [''sync'', show_int timestamp, show_int frames]"
| "wire_format (guac_protocol_send_transfer srcl srcx srcy w h transfer_fn dstl dstx dsty)
       [''transfer'', show_int (layer_index srcl), show_int srcx, show_int srcy, show_int w,
         show_int h, show_int transfer_fn, show_int (layer_index dstl), show_int dstx,
         show_int dsty]"
| "wire_format (guac_protocol_send_transform layer m11 m12 m21 m22 dx dy)
       [''transform'', show_int (layer_index layer), double_text m11, double_text m12,
         double_text m21, double_text m22, double_text dx, double_text dy]"
| "wire_format (guac_protocol_send_undefine obj)
       [''undefine'', show_int (object_index obj)]"
| "wire_format (guac_protocol_send_video stream layer mimetype)
       [''video'', show_int (stream_index stream), show_int (layer_index layer), mimetype]"
| "wire_format (guac_protocol_send_args args)
       (''args'' # GUACAMOLE_PROTOCOL_VERSION # args)"
| "wire_format (guac_protocol_send_connect args)
       (''connect'' # args)"
| "wire_format (guac_protocol_send_log formatted)
       [''log'', take 4095 formatted]"
| "wire_format (guac_protocol_send_required req)
       (''required'' # req)"

lemmas send_defs =
  guac_protocol_send_ack_def
  guac_protocol_send_argv_def
  guac_protocol_send_arc_def
  guac_protocol_send_audio_def
  guac_protocol_send_body_def
  guac_protocol_send_cfill_def
  guac_protocol_send_close_def
  guac_protocol_send_clip_def
  guac_protocol_send_clipboard_def
  guac_protocol_send_copy_def
  guac_protocol_send_cstroke_def
  guac_protocol_send_cursor_def
  guac_protocol_send_curve_def
  guac_protocol_send_disconnect_def
  guac_protocol_send_dispose_def
  guac_protocol_send_distort_def
  guac_protocol_send_end_def
  guac_protocol_send_error_def
  guac_protocol_send_msg_def
  guac_protocol_send_file_def
  guac_protocol_send_filesystem_def
  guac_protocol_send_identity_def
  guac_protocol_send_key_def
  guac_protocol_send_lfill_def
  guac_protocol_send_line_def
  guac_protocol_send_lstroke_def
  guac_protocol_send_mouse_def
  guac_protocol_send_touch_def
  guac_protocol_send_move_def
  guac_protocol_send_name_def
  guac_protocol_send_nest_def
  guac_protocol_send_nop_def
  guac_protocol_send_pipe_def
  guac_protocol_send_img_def
  guac_protocol_send_pop_def
  guac_protocol_send_push_def
  guac_protocol_send_ready_def
  guac_protocol_send_rect_def
  guac_protocol_send_reset_def
  guac_protocol_send_set_def
  guac_protocol_send_set_int_def
  guac_protocol_send_select_def
  guac_protocol_send_shade_def
  guac_protocol_send_size_def
  guac_protocol_send_start_def
  guac_protocol_send_sync_def
  guac_protocol_send_transfer_def
  guac_protocol_send_transform_def
  guac_protocol_send_undefine_def
  guac_protocol_send_video_def
  guac_protocol_send_args_def
  guac_protocol_send_connect_def
  guac_protocol_send_log_def
  guac_protocol_send_required_def
  guac_protocol_send_args_body_def
  guac_protocol_send_connect_body_def
  vguac_protocol_send_log_def

section \<open>Encoding of instructions\<close>

lemma encode_literals:
  "encode_element ''ack'' = ''3.ack''"
  "encode_element ''arc'' = ''3.arc''"
  "encode_element ''args'' = ''4.args''"
  "encode_element ''argv'' = ''4.argv''"
  "encode_element ''audio'' = ''5.audio''"
  "encode_element ''body'' = ''4.body''"
  "encode_element ''cfill'' = ''5.cfill''"
  "encode_element ''clip'' = ''4.clip''"
  "encode_element ''clipboard'' = ''9.clipboard''"
  "encode_element ''close'' = ''5.close''"
  "encode_element ''connect'' = ''7.connect''"
  "encode_element ''copy'' = ''4.copy''"
  "encode_element ''cstroke'' = ''7.cstroke''"
  "encode_element ''cursor'' = ''6.cursor''"
  "encode_element ''curve'' = ''5.curve''"
  "encode_element ''disconnect'' = ''10.disconnect''"
  "encode_element ''dispose'' = ''7.dispose''"
  "encode_element ''distort'' = ''7.distort''"
  "encode_element ''end'' = ''3.end''"
  "encode_element ''error'' = ''5.error''"
  "encode_element ''file'' = ''4.file''"
  "encode_element ''filesystem'' = ''10.filesystem''"
  "encode_element ''identity'' = ''8.identity''"
  "encode_element ''img'' = ''3.img''"
  "encode_element ''key'' = ''3.key''"
  "encode_element ''lfill'' = ''5.lfill''"
  "encode_element ''line'' = ''4.line''"
  "encode_element ''log'' = ''3.log''"
  "encode_element ''lstroke'' = ''7.lstroke''"
  "encode_element ''mouse'' = ''5.mouse''"
  "encode_element ''move'' = ''4.move''"
  "encode_element ''msg'' = ''3.msg''"
  "encode_element ''name'' = ''4.name''"
  "encode_element ''nest'' = ''4.nest''"
  "encode_element ''nop'' = ''3.nop''"
  "encode_element ''pipe'' = ''4.pipe''"
  "encode_element ''pop'' = ''3.pop''"
  "encode_element ''push'' = ''4.push''"
  "encode_element ''ready'' = ''5.ready''"
  "encode_element ''rect'' = ''4.rect''"
  "encode_element ''required'' = ''8.required''"
  "encode_element ''reset'' = ''5.reset''"
  "encode_element ''select'' = ''6.select''"
  "encode_element ''set'' = ''3.set''"
  "encode_element ''shade'' = ''5.shade''"
  "encode_element ''size'' = ''4.size''"
  "encode_element ''start'' = ''5.start''"
  "encode_element ''sync'' = ''4.sync''"
  "encode_element ''touch'' = ''5.touch''"
  "encode_element ''transfer'' = ''8.transfer''"
  "encode_element ''transform'' = ''9.transform''"
  "encode_element ''undefine'' = ''8.undefine''"
  "encode_element ''video'' = ''5.video''"
  "encode_element ''1'' = ''1.1''"
  "encode_element ''0'' = ''1.0''"
  "encode_element ''VERSION_1_5_0'' = ''13.VERSION_1_5_0''"
  by (code_simp)+

context socket_sink
begin

lemma emits_eqI: "emits op x \<Longrightarrow> x = y \<Longrightarrow> emits op y"
  by simp

lemma emits_c_try:
  assumes "emits (c_or fs) x" "emits z y"
  shows "emits (c_try fs z) (x @ y)"
proof -
  have "\<exists>r2 s2. c_try fs z s = Some (r2, s2) \<and> wrote s0 (w @ x @ y) r2 s2"
    if "c_or fs s = Some (r, s1)" "wrote s0 (w @ x) r s1" "attached s1" for s0 s r s1 w
    using that
  proof (induction fs arbitrary: s)
    case Nil
    from assms(2) Nil(3) obtain r2 s2 where "z s1 = Some (r2, s2)" "wrote s1 y r2 s2" by (rule emitsE)
    with Nil show ?case using wrote_trans [of s0 "w @ x" s1 y r2 s2] by auto
  next
    case (Cons f fs)
    from Cons.prems(1) obtain r1 t where f: "f s = Some (r1, t)"
      by (cases "f s") auto
    show ?case
    proof (cases "r1 = 0")
      case True
      with Cons f show ?thesis by simp
    next
      case False
      with Cons.prems f show ?thesis by (auto intro: wrote_fail)
    qed
  qed
  then show ?thesis
    by (intro emitsI) (metis append_Nil assms(1) emitsE wrote_attached)
qed

lemma emits_length_string: "emits (guac_socket_write_length_string str) (encode_element str)"
  unfolding guac_socket_write_length_string_def
  by (rule emits_eqI, (rule emits_c_or_Cons emits_c_or_Nil emits_write_int emits_write_string)+)
     (simp add: encode_element_def show_int_def)

lemma emits_length_int: "emits (guac_socket_write_length_int i) (encode_element (show_int i))"
  unfolding guac_socket_write_length_int_def by (rule emits_length_string)

lemma emits_length_double: "emits (guac_socket_write_length_double d) (encode_element (double_text d))"
  unfolding guac_socket_write_length_double_def by (rule emits_length_string)

lemma emits_array: "emits (guac_socket_write_array xs) (encode_args xs)"
proof (induction xs)
  case Nil
  show ?case using emits_c_or_Nil by (simp add: emits_def)
next
  case (Cons x xs)
  have "emits (c_or [guac_socket_write_string '','', guac_socket_write_length_string x])
      ('','' @ encode_element x @ [])"
    by (intro emits_c_or_Cons emits_c_or_Nil emits_write_string emits_length_string)
  from emits_c_try [OF this Cons] show ?case by (simp del: c_try.simps)
qed

lemma attached_begin_end:
  assumes "attached s"
  shows "attached (guac_socket_instruction_begin s)"
    and "attached (guac_socket_instruction_end s)"
  using assms lock_laws unlock_laws
  by (auto simp: attached_def guac_socket_instruction_begin_def guac_socket_instruction_end_def)

text \<open>Bracketing an operation with lock and unlock keeps what it writes and the lock.\<close>

lemma emits_instruction:
  assumes "emits op str"
  shows "emits (guac_instruction op) str"
proof (rule emitsI)
  fix s assume a: "attached s"
  then have b: "data (guac_socket_instruction_begin s) = lk (data s)"
    "ready_buf (guac_socket_instruction_begin s) = ready_buf s"
    by (simp_all add: attached_def guac_socket_instruction_begin_def)
  from assms attached_begin_end(1) [OF a] obtain r s1
    where o: "op (guac_socket_instruction_begin s) = Some (r, s1)"
      "wrote (guac_socket_instruction_begin s) str r s1"
    by (rule emitsE)
  then have a1: "attached s1" by auto
  then have e: "data (guac_socket_instruction_end s1) = ul (data s1)"
    "ready_buf (guac_socket_instruction_end s1) = ready_buf s1"
    by (simp_all add: attached_def guac_socket_instruction_end_def)
  have "wrote s str r (guac_socket_instruction_end s1)"
    using o(2) a a1 attached_begin_end(2) [OF a1] b e lock_laws [of "data s"] unlock_laws [of "data s1"]
    by (simp add: wrote_def attached_def)
  with o(1) show "\<exists>r s'. guac_instruction op s = Some (r, s') \<and> wrote s str r s'"
    by (simp add: guac_instruction_def)
qed

lemmas emits_rules = emits_c_or_Cons emits_c_or_Nil emits_write_string emits_write_int
  emits_length_string emits_length_int emits_length_double emits_array emits_flush

text \<open>Every function of the table writes exactly the encoding of its instruction.\<close>

lemma wire_format_emits: "wire_format op es \<Longrightarrow> emits op (encode_instruction es)"
proof (induction rule: wire_format.induct)
qed (unfold send_defs,
     (rule emits_instruction, rule emits_eqI, (rule emits_c_try emits_rules)+,
      simp add: encode_literals encode_rest_args encode_args_append GUACAMOLE_PROTOCOL_VERSION_def)+)

end

section \<open>Properties\<close>

text \<open>
  C12: every function of the instruction table writes exactly the wire format of its instruction.
  For each pair of \<open>wire_format\<close> the function returns on every descriptor socket; a zero result
  means that the stream has grown by exactly the encoding of the listed elements (each with its
  length in UTF-8 characters, separated by commas and closed by a semicolon); when no write of the
  kernel fails the result is zero; and the instruction lock is released.
\<close>

theorem guac_protocol_wire_format:
  assumes "wire_format op es" "fd_socket s"
  shows "\<exists>r s'. op s = Some (r, s') \<and>
    (r = 0 \<longrightarrow> fd_sent (data s') = fd_sent (data s) @ encode_instruction es) \<and>
    (fd_healthy (data s) \<longrightarrow> r = 0) \<and> socket_lock (data s') = socket_lock (data s)"
proof -
  obtain r s' where "op s = Some (r, s')" "fd_sink.wrote s (encode_instruction es) r s'"
    by (rule fd_sink.emitsE [OF fd_sink.wire_format_emits [OF assms(1)] fd_socket_contracts(1) [OF assms(2)]])
  then show ?thesis by (auto simp: fd_sink.wrote_def)
qed

theorem guac_protocol_wire_format_witness:
  "\<exists>r s'. guac_protocol_send_sync 7 2 (quiet_socket []) = Some (r, s') \<and> r = 0 \<and>
    fd_sent (data s') = ''4.sync,1.7,1.2;''"
proof -
  have enc: "encode_instruction [''sync'', show_int 7, show_int 2] = ''4.sync,1.7,1.2;''" by code_simp
  have "wire_format (guac_protocol_send_sync 7 2) [''sync'', show_int 7, show_int 2]"
    by (intro wire_format.intros)
  from guac_protocol_wire_format [OF this, of "quiet_socket []", unfolded enc] show ?thesis by auto
qed

end
