(* ===== verification/Base64.thy ===== *)
theory Base64
  imports Socket
begin

text \<open>
  The base64 decoder of \<open>libguac/protocol.c\<close> and its agreement with the encoder of
  \<open>libguac/socket.c\<close>. The decoder works in place and never clears the bits it has used up: its
  accumulator \<open>value\<close> is a 32-bit \<open>int\<close> that keeps shifting left, written here with the
  wrap-around of two's complement.
\<close>

section \<open>The decoder\<close>

definition guac_base64_value :: "char \<Rightarrow> int" where
  "guac_base64_value c =
     (let v = uchar c
      in if 65 \<le> v \<and> v \<le> 90 then v - 65
         else if 97 \<le> v \<and> v \<le> 122 then v - 97 + 26
         else if 48 \<le> v \<and> v \<le> 57 then v - 48 + 52
         else if v = 43 then 62
         else if v = 47 then 63
         else 0)"

text \<open>The bytes stored by the loop, given \<open>bits_read\<close> and \<open>value\<close>.\<close>

fun decode_base64_loop :: "string \<Rightarrow> int \<Rightarrow> int \<Rightarrow> bytes" where
  "decode_base64_loop [] bits_read val = []"
| "decode_base64_loop (current # input) bits_read val =
     (if current = CHR ''='' then []
      else let val' = wrap32 (push_bit 6 val OR guac_base64_value current);
               bits = bits_read + 6
           in if bits \<ge> 8
              then to_char (drop_bit (nat (bits mod 8)) val' AND 0xFF) #
                     decode_base64_loop input (bits - 8) val'
              else decode_base64_loop input bits val')"

text \<open>The decoded bytes, whose number is the function's return value.\<close>

definition guac_protocol_decode_base64 :: "string \<Rightarrow> bytes" where
  "guac_protocol_decode_base64 base64 = decode_base64_loop base64 0 0"

section \<open>Digits\<close>

lemma base64_digit:
  "0 \<le> i \<Longrightarrow> i < 64 \<Longrightarrow>
   guac_base64_value (base64_char i) = i \<and> base64_char i \<noteq> CHR ''='' \<and>
   uchar (base64_char i) < 128 \<and> base64_char i \<noteq> NUL"
proof -
  have "\<forall>i \<in> set [0..63]. guac_base64_value (base64_char i) = i \<and> base64_char i \<noteq> CHR ''='' \<and>
      uchar (base64_char i) < 128 \<and> base64_char i \<noteq> NUL"
    by code_simp
  then show "0 \<le> i \<Longrightarrow> i < 64 \<Longrightarrow> ?thesis" by simp
qed

text \<open>The four six-bit digits of three bytes.\<close>

lemma byte_fields:
  "0 \<le> v \<Longrightarrow> v \<le> 255 \<Longrightarrow>
     drop_bit 2 (v AND 0xFC) = v div 4 \<and> v AND 0x03 = v mod 4 \<and>
     drop_bit 4 (v AND 0xF0) = v div 16 \<and> v AND 0x0F = v mod 16 \<and>
     drop_bit 6 (v AND 0xC0) = v div 64 \<and> v AND 0x3F = v mod 64" for v :: int
proof (rule byte_cases [where v = v])
  show "\<forall>v :: int \<in> set [0..255].
     drop_bit 2 (v AND 0xFC) = v div 4 \<and> v AND 0x03 = v mod 4 \<and>
     drop_bit 4 (v AND 0xF0) = v div 16 \<and> v AND 0x0F = v mod 16 \<and>
     drop_bit 6 (v AND 0xC0) = v div 64 \<and> v AND 0x3F = v mod 64"
    by code_simp
qed simp_all

lemma fields_or:
  fixes a b :: int
  assumes "0 \<le> b" "b \<le> 255"
  shows "(a mod 4 * 16) OR b div 16 = a mod 4 * 16 + b div 16"
    and "(a mod 16 * 4) OR b div 64 = a mod 16 * 4 + b div 64"
  using assms or_disjoint_add [of "b div 16" 4 "a mod 4"] or_disjoint_add [of "b div 64" 2 "a mod 16"]
  by (simp_all add: mult.commute)

lemma encode_base64_digits:
  "guac_socket_encode_base64 (uchar a) (uchar b) (uchar c) =
     [base64_char (uchar a div 4), base64_char (uchar a mod 4 * 16 + uchar b div 16),
      base64_char (uchar b mod 16 * 4 + uchar c div 64), base64_char (uchar c mod 64)]"
  "guac_socket_encode_base64 (uchar a) (uchar b) (-1) =
     [base64_char (uchar a div 4), base64_char (uchar a mod 4 * 16 + uchar b div 16),
      base64_char (uchar b mod 16 * 4), CHR ''='']"
  "guac_socket_encode_base64 (uchar a) (-1) (-1) =
     [base64_char (uchar a div 4), base64_char (uchar a mod 4 * 16), CHR ''='', CHR ''='']"
  using byte_fields [of "uchar a"] byte_fields [of "uchar b"] byte_fields [of "uchar c"]
  by (simp_all add: guac_socket_encode_base64_def fields_or push_bit_eq_mult)

text \<open>Six bits more: the low bits of the accumulator only depend on the last digits.\<close>

lemma wrap32_low: "wrap32 x mod 4096 = x mod 4096"
proof -
  have "wrap32 x mod 4096 = ((x + 2 ^ 31) mod 2 ^ 32 mod 4096 - 2 ^ 31 mod 4096) mod 4096"
    by (simp only: wrap32_def mod_diff_eq)
  also have "(x + 2 ^ 31) mod 2 ^ 32 mod 4096 = (x + 2 ^ 31) mod 4096"
    by (rule mod_mod_cancel) (rule dvdI [of _ _ "2 ^ 20"], simp)
  also have "((x + 2 ^ 31) mod 4096 - 2 ^ 31 mod 4096) mod 4096 = (x + 2 ^ 31 - 2 ^ 31) mod 4096"
    by (rule mod_diff_eq)
  finally show ?thesis by simp
qed

lemma accumulate:
  assumes "0 \<le> i" "i < 64"
  shows "wrap32 (push_bit 6 v OR i) mod 4096 = v mod 64 * 64 + i"
proof -
  have "wrap32 (push_bit 6 v OR i) mod 4096 = (v * 64 + i) mod (64 * 64)"
    using assms by (simp add: wrap32_low push_6_or_add)
  also have "\<dots> = 64 * ((v * 64 + i) div 64 mod 64) + (v * 64 + i) mod 64"
    by (rule zmod_zmult2_eq) simp
  also have "(v * 64 + i) div 64 = v" using assms by simp
  also have "(v * 64 + i) mod 64 = i" using assms by simp
  finally show ?thesis by simp
qed

lemma shifted_byte:
  "drop_bit 4 v AND 0xFF = v mod 4096 div 16"
  "drop_bit 2 v AND 0xFF = v mod 4096 div 4 mod 256"
  "v AND 0xFF = v mod 4096 mod 256" for v :: int
proof -
  have m: "x AND 0xFF = x mod 256" for x :: int using and_low_bits [of x 8] by simp
  have "v mod (16 * 256) = 16 * (v div 16 mod 256) + v mod 16" by (rule zmod_zmult2_eq) simp
  then show "drop_bit 4 v AND 0xFF = v mod 4096 div 16" by (simp add: m drop_bit_eq_div)
  have "v mod (4 * 1024) = 4 * (v div 4 mod 1024) + v mod 4" by (rule zmod_zmult2_eq) simp
  then show "drop_bit 2 v AND 0xFF = v mod 4096 div 4 mod 256"
    by (simp add: m drop_bit_eq_div mod_mod_cancel)
  show "v AND 0xFF = v mod 4096 mod 256" by (simp add: m mod_mod_cancel)
qed

section \<open>Groups\<close>

text \<open>Decoding one full group from an empty bit buffer, whatever the accumulator holds.\<close>

lemma digits_back:
  fixes a b c :: int
  assumes "0 \<le> a" "a \<le> 255" "0 \<le> b" "b \<le> 255" "0 \<le> c" "c \<le> 255"
  shows "(a div 4 * 64 + (a mod 4 * 16 + b div 16)) div 16 = a"
    and "((a mod 4 * 16 + b div 16) * 64 + (b mod 16 * 4 + c div 64)) div 4 mod 256 = b"
    and "((b mod 16 * 4 + c div 64) * 64 + c mod 64) mod 256 = c"
proof -
  have arith: "16 * p + q = x \<Longrightarrow> (m * 16 + p) * 64 + (q * 4 + n) = 4 * (256 * m + x) + n"
    for m n p q x :: int by simp
  have arith2: "64 * p + q = x \<Longrightarrow> (m * 4 + p) * 64 + q = 256 * m + x" for m p q x :: int by simp
  have quot: "0 \<le> y \<Longrightarrow> y < 4 \<Longrightarrow> (4 * x + y) div 4 = x" for x y :: int by simp
  have d: "b div 16 < 16" "c div 64 < 4" "0 \<le> b div 16" "0 \<le> c div 64" using assms by linarith+
  have e: "4 * (a div 4) + a mod 4 = a" "16 * (b div 16) + b mod 16 = b" "64 * (c div 64) + c mod 64 = c"
    by (rule mult_div_mod_eq)+
  have "a div 4 * 64 + (a mod 4 * 16 + b div 16) = 16 * a + b div 16"
    using e(1) by linarith
  then show "(a div 4 * 64 + (a mod 4 * 16 + b div 16)) div 16 = a" using d by (simp only:) simp
  have "(a mod 4 * 16 + b div 16) * 64 + (b mod 16 * 4 + c div 64) =
      4 * (256 * (a mod 4) + b) + c div 64" using e(2) by (rule arith)
  then show "((a mod 4 * 16 + b div 16) * 64 + (b mod 16 * 4 + c div 64)) div 4 mod 256 = b"
    using assms(3,4) quot [OF d(4,2), of "256 * (a mod 4) + b"] by (simp only:) simp
  have "(b mod 16 * 4 + c div 64) * 64 + c mod 64 = 256 * (b mod 16) + c"
    using e(3) by (rule arith2)
  then show "((b mod 16 * 4 + c div 64) * 64 + c mod 64) mod 256 = c"
    using assms(5,6) by (simp only:) simp
qed

definition b64_step :: "int \<Rightarrow> int \<Rightarrow> int" where
  "b64_step i v = wrap32 (push_bit 6 v OR i)"

lemma b64_step_low: "0 \<le> i \<Longrightarrow> i < 64 \<Longrightarrow> b64_step i v mod 4096 = v mod 64 * 64 + i"
  by (simp add: b64_step_def accumulate)

lemma b64_step_twice:
  assumes "0 \<le> i" "i < 64" "0 \<le> j" "j < 64"
  shows "b64_step j (b64_step i v) mod 4096 = i * 64 + j"
proof -
  have "b64_step i v mod 64 = b64_step i v mod 4096 mod 64"
    by (simp add: mod_mod_cancel)
  also have "\<dots> = i" using assms by (simp add: b64_step_low)
  finally show ?thesis using assms by (simp add: b64_step_low)
qed

lemma decode_loop_digit:
  "0 \<le> i \<Longrightarrow> i < 64 \<Longrightarrow>
   decode_base64_loop (base64_char i # input) bits v =
     (if bits + 6 \<ge> 8
      then to_char (drop_bit (nat ((bits + 6) mod 8)) (b64_step i v) AND 0xFF) #
             decode_base64_loop input (bits - 2) (b64_step i v)
      else decode_base64_loop input (bits + 6) (b64_step i v))"
  by (simp add: base64_digit b64_step_def Let_def)

text \<open>The bytes read off the accumulator after the second, third and fourth digit of a group.\<close>

lemma group_bytes:
  fixes a b c :: char
  shows "v2 mod 4096 = uchar a div 4 * 64 + (uchar a mod 4 * 16 + uchar b div 16) \<Longrightarrow>
      to_char (drop_bit 4 v2 AND 255) = a"
    and "v3 mod 4096 = (uchar a mod 4 * 16 + uchar b div 16) * 64 + (uchar b mod 16 * 4 + uchar c div 64) \<Longrightarrow>
      to_char (drop_bit 2 v3 AND 255) = b"
    and "v4 mod 4096 = (uchar b mod 16 * 4 + uchar c div 64) * 64 + uchar c mod 64 \<Longrightarrow>
      to_char (v4 AND 255) = c"
proof -
  note r = of_char_range [of a] of_char_range [of b] of_char_range [of c]
  note backs = digits_back [OF r(1) r(3) r(4) r(6) r(7) r(9)]
  show "v2 mod 4096 = uchar a div 4 * 64 + (uchar a mod 4 * 16 + uchar b div 16) \<Longrightarrow>
      to_char (drop_bit 4 v2 AND 255) = a"
    by (simp only: shifted_byte(1) backs to_char_uchar)
  show "v3 mod 4096 = (uchar a mod 4 * 16 + uchar b div 16) * 64 + (uchar b mod 16 * 4 + uchar c div 64) \<Longrightarrow>
      to_char (drop_bit 2 v3 AND 255) = b"
    by (simp only: shifted_byte(2) backs to_char_uchar)
  show "v4 mod 4096 = (uchar b mod 16 * 4 + uchar c div 64) * 64 + uchar c mod 64 \<Longrightarrow>
      to_char (v4 AND 255) = c"
    by (simp only: shifted_byte(3) backs to_char_uchar)
qed

lemma digit_bounds:
  "uchar a div 4 < 64" "uchar a mod 4 * 16 + uchar b div 16 < 64"
  "uchar b mod 16 * 4 + uchar c div 64 < 64" "uchar c mod 64 < 64"
  "0 \<le> uchar a div 4" "0 \<le> uchar a mod 4 * 16 + uchar b div 16"
  "0 \<le> uchar b mod 16 * 4 + uchar c div 64" "0 \<le> uchar c mod 64"
  using of_char_range [of a] of_char_range [of b] of_char_range [of c] by linarith+

lemma decode_group:
  "\<exists>v'. decode_base64_loop
      (guac_socket_encode_base64 (uchar a) (uchar b) (uchar c) @ rest) 0 v =
    a # b # c # decode_base64_loop rest 0 v'"
proof -
  let ?i = "uchar a div 4" and ?j = "uchar a mod 4 * 16 + uchar b div 16"
  let ?k = "uchar b mod 16 * 4 + uchar c div 64" and ?l = "uchar c mod 64"
  define v1 v2 v3 v4 where "v1 = b64_step ?i v" and "v2 = b64_step ?j v1"
    and "v3 = b64_step ?k v2" and "v4 = b64_step ?l v3"
  have low: "v2 mod 4096 = ?i * 64 + ?j" "v3 mod 4096 = ?j * 64 + ?k" "v4 mod 4096 = ?k * 64 + ?l"
    unfolding v1_def v2_def v3_def v4_def by (intro b64_step_twice digit_bounds)+
  show ?thesis
    by (intro exI [of _ v4])
      (simp add: encode_base64_digits decode_loop_digit digit_bounds group_bytes(1) [OF low(1)] group_bytes(2) [OF low(2)]
        group_bytes(3) [OF low(3)]
        v1_def [symmetric] v2_def [symmetric] v3_def [symmetric] v4_def [symmetric]
        del: decode_base64_loop.simps)
qed

text \<open>The final one or two bytes, whose padding stops the decoder.\<close>

lemma decode_rest:
  "decode_base64_loop (guac_socket_encode_base64 (uchar a) (uchar b) (-1)) 0 v = [a, b]"
  "decode_base64_loop (guac_socket_encode_base64 (uchar a) (-1) (-1)) 0 v = [a]"
proof -
  let ?i = "uchar a div 4" and ?j = "uchar a mod 4 * 16 + uchar b div 16"
  let ?m = "uchar a mod 4 * 16" and ?k = "uchar b mod 16 * 4"
  define v1 v2 v3 w2 where "v1 = b64_step ?i v" and "v2 = b64_step ?j v1"
    and "v3 = b64_step ?k v2" and "w2 = b64_step ?m v1"
  have bounds: "0 \<le> ?i" "?i < 64" "0 \<le> ?j" "?j < 64" "0 \<le> ?m" "?m < 64" "0 \<le> ?k" "?k < 64"
    using of_char_range [of a] of_char_range [of b] by linarith+
  have low: "v2 mod 4096 = ?i * 64 + ?j" "v3 mod 4096 = ?j * 64 + (?k + uchar NUL div 64)"
    "w2 mod 4096 = ?i * 64 + (?m + uchar NUL div 16)"
    unfolding v1_def v2_def v3_def w2_def using bounds by (simp_all add: b64_step_twice)
  note eqs = encode_base64_digits decode_loop_digit [OF bounds(1,2)] decode_loop_digit [OF bounds(3,4)]
    decode_loop_digit [OF bounds(5,6)] decode_loop_digit [OF bounds(7,8)]
  show "decode_base64_loop (guac_socket_encode_base64 (uchar a) (uchar b) (-1)) 0 v = [a, b]"
    unfolding eqs v1_def [symmetric] v2_def [symmetric] v3_def [symmetric]
    by (simp add: group_bytes(1) [OF low(1)] group_bytes(2) [OF low(2)])
  show "decode_base64_loop (guac_socket_encode_base64 (uchar a) (-1) (-1)) 0 v = [a]"
    unfolding eqs v1_def [symmetric] w2_def [symmetric]
    by (simp add: group_bytes(1) [OF low(3)])
qed

section \<open>Round trip\<close>

lemma decode_encode_loop: "decode_base64_loop (base64_encode_buf xs) 0 v = xs"
proof (induction xs arbitrary: v rule: base64_encode_buf.induct)
  case (1 a b c rest)
  obtain v' where "decode_base64_loop (base64_encode_buf (a # b # c # rest)) 0 v =
      a # b # c # decode_base64_loop (base64_encode_buf rest) 0 v'"
    using decode_group [of a b c "base64_encode_buf rest" v] by auto
  with "1.IH" show ?case by simp
qed (simp_all add: decode_rest)

text \<open>
  C15: decoding what the base64 writer produces gives back the original bytes, for every run of
  bytes of every length, although the decoder never masks its accumulator and lets it overflow.
\<close>

theorem guac_base64_roundtrip:
  "guac_protocol_decode_base64 (base64_encode_buf xs) = xs"
  by (simp add: guac_protocol_decode_base64_def decode_encode_loop)

text \<open>Base64 text is ASCII without NUL, so it may stand in an instruction as it is.\<close>

lemma encode_group_plain:
  "x \<in> set (guac_socket_encode_base64 (uchar a) (uchar b) (uchar c)) \<Longrightarrow> uchar x < 128 \<and> x \<noteq> NUL"
  "x \<in> set (guac_socket_encode_base64 (uchar a) (uchar b) (-1)) \<Longrightarrow> uchar x < 128 \<and> x \<noteq> NUL"
  "x \<in> set (guac_socket_encode_base64 (uchar a) (-1) (-1)) \<Longrightarrow> uchar x < 128 \<and> x \<noteq> NUL"
  using base64_digit [OF digit_bounds(5) digit_bounds(1)] base64_digit [OF digit_bounds(6) digit_bounds(2)]
    base64_digit [OF digit_bounds(7) digit_bounds(3)] base64_digit [OF digit_bounds(8) digit_bounds(4)]
    digit_bounds(2,6) [of a NUL, simplified] digit_bounds(3,7) [of b NUL, simplified]
  by (auto simp: encode_base64_digits base64_digit)

lemma base64_plain: "x \<in> set (base64_encode_buf xs) \<Longrightarrow> uchar x < 128 \<and> x \<noteq> NUL"
proof (induction xs rule: base64_encode_buf.induct)
  case (1 a b c rest)
  then show ?case using encode_group_plain(1) [of x a b c] by auto
qed (use encode_group_plain in fastforce)+

end
