(* ===== verification/Blob.thy ===== *)
theory Blob
  imports Protocol Base64
begin

text \<open>
  The instructions of \<open>libguac/protocol.c\<close> that carry binary data (\<open>blob\<close> and the splitting of
  \<open>guac_protocol_send_blobs\<close>), the table of protocol versions, and the keep-alive thread of
  \<open>libguac/socket.c\<close>, which sends a \<open>nop\<close>.
\<close>

section \<open>Protocol versions\<close>

datatype guac_protocol_version =
    GUAC_PROTOCOL_VERSION_UNKNOWN
  | GUAC_PROTOCOL_VERSION_1_0_0
  | GUAC_PROTOCOL_VERSION_1_1_0
  | GUAC_PROTOCOL_VERSION_1_3_0
  | GUAC_PROTOCOL_VERSION_1_5_0

text \<open>The table, without its terminating entry.\<close>

definition guac_protocol_version_table :: "(guac_protocol_version \<times> string) list" where
  "guac_protocol_version_table =
     [(GUAC_PROTOCOL_VERSION_1_0_0, ''VERSION_1_0_0''),
      (GUAC_PROTOCOL_VERSION_1_1_0, ''VERSION_1_1_0''),
      (GUAC_PROTOCOL_VERSION_1_3_0, ''VERSION_1_3_0''),
      (GUAC_PROTOCOL_VERSION_1_5_0, ''VERSION_1_5_0'')]"

fun string_to_version_loop ::
    "(guac_protocol_version \<times> string) list \<Rightarrow> string \<Rightarrow> guac_protocol_version" where
  "string_to_version_loop [] str = GUAC_PROTOCOL_VERSION_UNKNOWN"
| "string_to_version_loop ((v, s) # table) str = (if s = str then v else string_to_version_loop table str)"

definition guac_protocol_string_to_version :: "string \<Rightarrow> guac_protocol_version" where
  "guac_protocol_string_to_version str = string_to_version_loop guac_protocol_version_table str"

fun version_to_string_loop ::
    "(guac_protocol_version \<times> string) list \<Rightarrow> guac_protocol_version \<Rightarrow> string option" where
  "version_to_string_loop [] ver = None"
| "version_to_string_loop ((v, s) # table) ver = (if v = ver then Some s else version_to_string_loop table ver)"

definition guac_protocol_version_to_string :: "guac_protocol_version \<Rightarrow> string option" where
  "guac_protocol_version_to_string ver = version_to_string_loop guac_protocol_version_table ver"

section \<open>Keep-alive\<close>

text \<open>
  One turn of the loop of \<open>__guac_socket_keep_alive_thread\<close>, up to its sleep: whether the loop
  goes on, and the socket.
\<close>

definition keep_alive_turn :: "'d guac_socket \<Rightarrow> (bool \<times> 'd guac_socket) option" where
  "keep_alive_turn s =
     (if state s = GUAC_SOCKET_OPEN
      then let (timestamp, s1) = guac_timestamp_current s
           in if timestamp - last_write_timestamp s1 > GUAC_SOCKET_KEEP_ALIVE_INTERVAL
              then case c_or [guac_protocol_send_nop, guac_socket_flush] s1 of
                     None \<Rightarrow> None
                   | Some (r, s2) \<Rightarrow> Some (r = 0, s2)
              else Some (True, s1)
      else Some (False, s))"

section \<open>Blobs\<close>

lemma c_or_append:
  "c_or (xs @ ys) s =
     (case c_or xs s of None \<Rightarrow> None | Some (r, s') \<Rightarrow> if r \<noteq> 0 then Some (r, s') else c_or ys s')"
  by (induction xs arbitrary: s) (auto split: option.splits prod.splits)

text \<open>The elements of a blob instruction, and the pieces that long data is cut into.\<close>

definition blob_elements :: "guac_stream \<Rightarrow> bytes \<Rightarrow> string list" where
  "blob_elements stream dat = [''blob'', show_int (stream_index stream), base64_encode_buf dat]"

lemma base64_ascii: "ascii (base64_encode_buf xs)"
  using base64_plain by (auto simp: ascii_def list_all_iff)

function blob_chunks :: "bytes \<Rightarrow> bytes list" where
  "blob_chunks dat =
     (if dat = [] then []
      else take GUAC_PROTOCOL_BLOB_MAX_LENGTH dat # blob_chunks (drop GUAC_PROTOCOL_BLOB_MAX_LENGTH dat))"
  by pat_completeness auto
termination
  by (relation "measure length") (auto simp: GUAC_PROTOCOL_BLOB_MAX_LENGTH_def)

declare blob_chunks.simps [simp del]

lemma concat_blob_chunks: "concat (blob_chunks dat) = dat"
proof (induction dat rule: blob_chunks.induct)
  case (1 dat)
  then show ?case by (cases "dat = []") (simp_all add: blob_chunks.simps [of dat] blob_chunks.simps [of "[]"])
qed

lemma length_blob_chunks: "c \<in> set (blob_chunks dat) \<Longrightarrow> 0 < length c \<and> length c \<le> GUAC_PROTOCOL_BLOB_MAX_LENGTH"
proof (induction dat rule: blob_chunks.induct)
  case (1 dat)
  then show ?case
    by (cases "dat = []") (auto simp: blob_chunks.simps [of dat] blob_chunks.simps [of "[]"]
      GUAC_PROTOCOL_BLOB_MAX_LENGTH_def)
qed

context socket_sink
begin

lemma streams_c_or_append:
  assumes "streams (c_or xs) x" "streams (c_or ys) y"
  shows "streams (c_or (xs @ ys)) (x @ y)"
  unfolding streams_def
proof (intro allI impI)
  fix s assume "attached s" "ready_buf s = []"
  with assms(1) obtain r s1 where f: "c_or xs s = Some (r, s1)" "attached s1" "ready_buf s1 = []"
    "held (data s1) = held (data s)"
    "healthy (data s) \<longrightarrow> r = 0 \<and> healthy (data s1) \<and> sent (data s1) = sent (data s) @ x"
    unfolding streams_def by blast
  from assms(2) f obtain r2 s2 where "c_or ys s1 = Some (r2, s2)" "attached s2" "ready_buf s2 = []"
    "held (data s2) = held (data s1)"
    "healthy (data s1) \<longrightarrow> r2 = 0 \<and> healthy (data s2) \<and> sent (data s2) = sent (data s1) @ y"
    unfolding streams_def by blast
  with f show "\<exists>r s'. c_or (xs @ ys) s = Some (r, s') \<and> attached s' \<and> ready_buf s' = [] \<and>
      held (data s') = held (data s) \<and>
      (healthy (data s) \<longrightarrow> r = 0 \<and> healthy (data s') \<and> sent (data s') = sent (data s) @ x @ y)"
    by (auto simp: c_or_append)
qed

lemma streams_instruction:
  assumes "streams op str"
  shows "streams (guac_instruction op) str"
  unfolding streams_def
proof (intro allI impI)
  fix s assume a: "attached s" "ready_buf s = []"
  let ?b = "guac_socket_instruction_begin s"
  have b: "data ?b = lk (data s)" "ready_buf ?b = []"
    using a by (simp_all add: attached_def guac_socket_instruction_begin_def)
  from assms attached_begin_end(1) [OF a(1)] b(2) obtain r s1
    where o: "op ?b = Some (r, s1)" "attached s1" "ready_buf s1 = []" "held (data s1) = held (data ?b)"
      "healthy (data ?b) \<longrightarrow> r = 0 \<and> healthy (data s1) \<and> sent (data s1) = sent (data ?b) @ str"
    unfolding streams_def by blast
  let ?e = "guac_socket_instruction_end s1"
  have e: "data ?e = ul (data s1)" "ready_buf ?e = []"
    using o by (simp_all add: attached_def guac_socket_instruction_end_def)
  have "inv (data s)" "inv (data s1)" using a o by (simp_all add: attached_def)
  with o b e lock_laws [of "data s"] unlock_laws [of "data s1"] attached_begin_end(2) [OF o(2)]
  show "\<exists>r s'. guac_instruction op s = Some (r, s') \<and> attached s' \<and> ready_buf s' = [] \<and>
      held (data s') = held (data s) \<and>
      (healthy (data s) \<longrightarrow> r = 0 \<and> healthy (data s') \<and> sent (data s') = sent (data s) @ str)"
    by (intro exI [of _ r] exI [of _ ?e]) (simp add: guac_instruction_def)
qed

lemma streams_blob:
  "streams (guac_protocol_send_blob stream dat) (encode_instruction (blob_elements stream dat))"
proof -
  let ?l = "(int (length dat) + 2) div 3 * 4"
  have len: "?l = int (guac_utf8_strlen (base64_encode_buf dat))"
    using base64_ascii [of dat] by (simp add: length_base64_encode zdiv_int)
  have pre: "streams (c_or [guac_socket_write_string ''4.blob,'', guac_socket_write_length_int (stream_index stream),
      guac_socket_write_string '','', guac_socket_write_int ?l, guac_socket_write_string ''.''])
      (''4.blob,'' @ encode_element (show_int (stream_index stream)) @ '','' @ show_int ?l @ ''.'' @ [])"
    by (rule emits_streams) (intro emits_rules)
  have post: "streams (c_or [guac_socket_write_string '';'']) ('';'' @ [])"
    by (rule emits_streams) (intro emits_rules)
  have "streams (guac_protocol_send_blob stream dat)
    ((''4.blob,'' @ encode_element (show_int (stream_index stream)) @ '','' @ show_int ?l @ ''.'' @ []) @
     base64_encode_buf dat @ '';'' @ [])"
    using streams_instruction [OF streams_c_or_append [OF pre streams_c_or_append [OF streams_base64 post]]]
    by (simp add: guac_protocol_send_blob_def Let_def)
  moreover have "encode_element (base64_encode_buf dat) = show_int ?l @ ''.'' @ base64_encode_buf dat"
    unfolding len by (simp add: encode_element_def show_int_def)
  moreover have "encode_element ''blob'' = ''4.blob''" by code_simp
  ultimately show ?thesis
    by (simp add: blob_elements_def)
qed

lemma streams_blobs:
  "streams (guac_protocol_send_blobs stream dat)
     (concat (map (\<lambda>c. encode_instruction (blob_elements stream c)) (blob_chunks dat)))"
proof (induction dat rule: blob_chunks.induct)
  case (1 dat)
  let ?n = GUAC_PROTOCOL_BLOB_MAX_LENGTH
  show ?case
  proof (cases "dat = []")
    case True
    then show ?thesis
      by (simp add: streams_def guac_protocol_send_blobs.simps [of _ "[]"] blob_chunks.simps [of "[]"])
  next
    case False
    have eq: "guac_protocol_send_blobs stream dat s =
        (case guac_protocol_send_blob stream (take ?n dat) s of
           None \<Rightarrow> None
         | Some (r, s') \<Rightarrow> if r \<noteq> 0 then Some (r, s') else guac_protocol_send_blobs stream (drop ?n dat) s')" for s
      using False by (simp add: guac_protocol_send_blobs.simps [of stream dat] min_def Let_def split: option.splits)
    show ?thesis
      unfolding streams_def
    proof (intro allI impI)
      fix s assume "attached s" "ready_buf s = []"
      with streams_blob [of stream "take ?n dat"] obtain r s1
        where f: "guac_protocol_send_blob stream (take ?n dat) s = Some (r, s1)" "attached s1" "ready_buf s1 = []"
          "held (data s1) = held (data s)" "healthy (data s) \<longrightarrow> r = 0 \<and> healthy (data s1) \<and>
            sent (data s1) = sent (data s) @ encode_instruction (blob_elements stream (take ?n dat))"
        unfolding streams_def by blast
      from "1.IH" [OF False] f obtain r2 s2
        where "guac_protocol_send_blobs stream (drop ?n dat) s1 = Some (r2, s2)" "attached s2" "ready_buf s2 = []"
          "held (data s2) = held (data s1)" "healthy (data s1) \<longrightarrow> r2 = 0 \<and> healthy (data s2) \<and>
            sent (data s2) = sent (data s1) @
              concat (map (\<lambda>c. encode_instruction (blob_elements stream c)) (blob_chunks (drop ?n dat)))"
        unfolding streams_def by blast
      with f show "\<exists>r s'. guac_protocol_send_blobs stream dat s = Some (r, s') \<and> attached s' \<and>
          ready_buf s' = [] \<and> held (data s') = held (data s) \<and>
          (healthy (data s) \<longrightarrow> r = 0 \<and> healthy (data s') \<and> sent (data s') = sent (data s) @
             concat (map (\<lambda>c. encode_instruction (blob_elements stream c)) (blob_chunks dat)))"
        using False by (auto simp: eq blob_chunks.simps [of dat])
    qed
  qed
qed

end

section \<open>Properties\<close>

text \<open>
  C13: \<open>guac_protocol_send_blobs\<close> transfers the data. On a descriptor whose writes succeed it returns
  0, having sent one \<open>blob\<close> instruction for every piece of at most 6048 bytes, each with a length
  prefix that matches its base64 text; decoding the pieces and joining them gives the data back.
\<close>

theorem guac_protocol_send_blobs_wire:
  assumes "fd_socket s" "ready_buf s = []" "fd_healthy (data s)"
  shows "\<exists>s'. guac_protocol_send_blobs stream dat s = Some (0, s') \<and> ready_buf s' = [] \<and>
    socket_lock (data s') = socket_lock (data s) \<and>
    fd_sent (data s') = fd_sent (data s) @
      concat (map (\<lambda>c. encode_instruction [''blob'', show_int (stream_index stream), base64_encode_buf c])
        (blob_chunks dat)) \<and>
    list_all (\<lambda>c. length c \<le> GUAC_PROTOCOL_BLOB_MAX_LENGTH) (blob_chunks dat) \<and>
    concat (map (\<lambda>c. guac_protocol_decode_base64 (base64_encode_buf c)) (blob_chunks dat)) = dat"
proof -
  have "guac_protocol_decode_base64 (base64_encode_buf c) = c" for c
    by (simp add: guac_protocol_decode_base64_def decode_encode_loop)
  moreover have "list_all (\<lambda>c. length c \<le> GUAC_PROTOCOL_BLOB_MAX_LENGTH) (blob_chunks dat)"
    using length_blob_chunks by (auto simp: list_all_iff)
  moreover from fd_sink.streams_blobs [of stream dat] fd_socket_contracts(1) [OF assms(1)] assms(2,3)
  obtain s' where "guac_protocol_send_blobs stream dat s = Some (0, s')" "ready_buf s' = []"
    "socket_lock (data s') = socket_lock (data s)"
    "fd_sent (data s') = fd_sent (data s) @
      concat (map (\<lambda>c. encode_instruction (blob_elements stream c)) (blob_chunks dat))"
    unfolding fd_sink.streams_def by blast
  ultimately show ?thesis by (simp add: blob_elements_def concat_blob_chunks)
qed

theorem guac_protocol_send_blobs_wire_witness:
  "\<exists>s'. guac_protocol_send_blobs \<lparr>stream_index = 3\<rparr> ''hello'' (quiet_socket []) = Some (0, s') \<and>
    fd_sent (data s') = ''4.blob,1.3,8.aGVsbG8=;''"
proof -
  have c: "concat (map (\<lambda>c. encode_instruction [''blob'', show_int (stream_index \<lparr>stream_index = 3\<rparr>), base64_encode_buf c])
      (blob_chunks ''hello'')) = ''4.blob,1.3,8.aGVsbG8=;''"
    by (simp add: blob_chunks.simps GUAC_PROTOCOL_BLOB_MAX_LENGTH_def del: encode_instruction.simps) code_simp
  show ?thesis
    using guac_protocol_send_blobs_wire [of "quiet_socket []" "\<lparr>stream_index = 3\<rparr>" "''hello''", unfolded c]
    by auto
qed

text \<open>
  C20: the base64 writer hides failed writes. \<open>guac_socket_write\<close> reports an error as 1, while
  \<open>guac_socket_flush_base64\<close> tests for a negative result: whenever it returns, it returns 0, with its
  buffer emptied.
\<close>

theorem guac_socket_flush_base64_hides_errors:
  assumes "guac_socket_flush_base64 s = Some (r, s')"
  shows "r = 0 \<and> ready_buf s' = []"
  using assms guac_socket_write_result
  by (fastforce simp: guac_socket_flush_base64_def split: option.splits prod.splits if_splits)

theorem guac_socket_flush_base64_hides_errors_witness:
  "\<exists>s'. guac_socket_flush_base64 ((quiet_socket [])\<lparr>ready_buf := ''data'', write_handler := Some (\<lambda>d buf. (-1, d))\<rparr>) =
    Some (0, s') \<and> fd_sent (data s') = []"
proof -
  let ?s = "(quiet_socket [])\<lparr>ready_buf := ''data'', write_handler := Some (\<lambda>d buf. (-1, d))\<rparr>"
  have "base64_encode_buf ''data'' \<noteq> []" by code_simp
  then have "\<exists>s1. guac_socket_write (base64_encode_buf ''data'') ?s = Some (1, s1) \<and> data s1 = data (quiet_socket [])"
    by (simp add: guac_socket_write.simps [of _ ?s] guac_socket_write_once_def guac_timestamp_current_def)
  then obtain r s' where r: "guac_socket_flush_base64 ?s = Some (r, s')" "fd_sent (data s') = []"
    by (auto simp: guac_socket_flush_base64_def)
  with guac_socket_flush_base64_hides_errors [OF r(1)] show ?thesis by auto
qed

text \<open>
  C19: the keep-alive thread. While the socket is open and its last write is more than five seconds
  old, a turn of the loop on a healthy descriptor writes a \<open>nop\<close> instruction, flushes it to the
  kernel and goes on; otherwise it writes nothing, and on a closed socket the loop ends.
\<close>

theorem keep_alive_turn_sends_nop:
  assumes "fd_socket s" "fd_healthy (data s)"
  shows "\<exists>go s'. keep_alive_turn s = Some (go, s') \<and> go = (state s = GUAC_SOCKET_OPEN) \<and>
    (if state s = GUAC_SOCKET_OPEN \<and> clock s (ticks s) - last_write_timestamp s > GUAC_SOCKET_KEEP_ALIVE_INTERVAL
     then fd_out (fd (data s')) = fd_sent (data s) @ ''3.nop;''
     else data s' = data s)"
proof (cases "state s = GUAC_SOCKET_OPEN \<and> clock s (ticks s) - last_write_timestamp s > GUAC_SOCKET_KEEP_ALIVE_INTERVAL")
  case False
  then show ?thesis by (auto simp: keep_alive_turn_def guac_timestamp_current_def)
next
  case True
  let ?s = "s\<lparr>ticks := Suc (ticks s)\<rparr>"
  have a: "fd_sink.attached ?s" "fd_healthy (data ?s)"
    using assms by (simp_all add: fd_socket_def fd_sink.attached_def)
  have enc: "encode_element ''nop'' = ''3.nop''" by code_simp
  obtain r1 s1 where n: "guac_protocol_send_nop ?s = Some (r1, s1)" "fd_sink.wrote ?s (encode_instruction [''nop'']) r1 s1"
    by (rule fd_sink.emitsE [OF fd_sink.wire_format_emits a(1)]) (rule wire_format.intros)
  with a have s1: "r1 = 0" "fd_healthy (data s1)" "fd_sink.attached s1" "fd_sent (data s1) = fd_sent (data s) @ ''3.nop;''"
    by (auto simp: fd_sink.wrote_def enc)
  obtain r2 s2 where f: "guac_socket_flush s1 = Some (r2, s2)" "fd_sink.wrote s1 [] r2 s2"
    by (rule fd_sink.emitsE [OF fd_sink.emits_flush s1(3)])
  with s1 have "r2 = 0" "fd_sent (data s2) = fd_sent (data s) @ ''3.nop;''"
    by (auto simp: fd_sink.wrote_def)
  moreover from this f s1 have "fd_out (fd (data s2)) = fd_sent (data s2)" by (intro flushed_out) auto
  ultimately show ?thesis
    using True n s1 f by (auto simp: keep_alive_turn_def guac_timestamp_current_def)
qed

theorem keep_alive_turn_sends_nop_witness:
  "\<exists>go s'. keep_alive_turn ((quiet_socket [])\<lparr>clock := \<lambda>n. 6000 * int n\<rparr>) = Some (go, s') \<and>
    go \<and> fd_out (fd (data s')) = ''3.nop;''"
proof -
  let ?s = "(quiet_socket [])\<lparr>clock := \<lambda>n. 6000 * int n\<rparr>"
  have "fd_socket ?s" using quiet_socket_simps(1) [of "[]"] by (simp add: fd_socket_def)
  moreover have "clock ?s (ticks ?s) - last_write_timestamp ?s > GUAC_SOCKET_KEEP_ALIVE_INTERVAL"
    by (simp add: quiet_socket_def guac_socket_open_def guac_socket_alloc_def GUAC_SOCKET_KEEP_ALIVE_INTERVAL_def)
  ultimately show ?thesis using keep_alive_turn_sends_nop [of ?s] by auto
qed

text \<open>
  The version table. Every version but the unknown one has a name and is found again under it;
  conversely a string that is recognised is the name of the version found.
\<close>

theorem guac_protocol_version_roundtrip:
  "(\<forall>str. guac_protocol_version_to_string ver = Some str \<longleftrightarrow>
      ver \<noteq> GUAC_PROTOCOL_VERSION_UNKNOWN \<and> guac_protocol_string_to_version str = ver)"
  by (cases ver) (auto simp: guac_protocol_version_to_string_def guac_protocol_string_to_version_def
      guac_protocol_version_table_def)

end
