(* ===== verification/Parser.thy ===== *)
theory Parser
  imports SocketFd Wire
begin

text \<open>
  \<open>libguac/parser.c\<close>: the incremental parser of instructions. Pointers into a buffer are offsets
  of it; \<open>__elementv\<close> with \<open>__elementc\<close> is the list of its first \<open>__elementc\<close> entries, and
  \<open>argv\<close> (always \<open>&__elementv[1]\<close>) is its tail. A pointer moved before its buffer is outside
  the model: the operation then has no result (\<open>None\<close>).
\<close>

section \<open>State\<close>

datatype guac_parse_state = GUAC_PARSE_LENGTH | GUAC_PARSE_CONTENT | GUAC_PARSE_COMPLETE | GUAC_PARSE_ERROR

record guac_parser =
  opcode :: "nat option"
  argc :: int
  parse_state :: guac_parse_state
  element_length :: int
  elementv :: "nat list"
  unparsed_start :: nat
  unparsed_end :: nat
  instructionbuf :: bytes

definition GUAC_INSTRUCTION_MAX_LENGTH :: int where
  "GUAC_INSTRUCTION_MAX_LENGTH = 8192"

definition GUAC_INSTRUCTION_MAX_ELEMENTS :: nat where
  "GUAC_INSTRUCTION_MAX_ELEMENTS = 128"

definition INSTRUCTIONBUF_SIZE :: nat where
  "INSTRUCTIONBUF_SIZE = 32768"

text \<open>
  Why a read failed (C returns -1): the parser set \<open>guac_error\<close>, or the socket's \<open>select\<close> did.
\<close>

datatype parser_error = Parser_Status guac_status | Socket_Status

section \<open>Operations\<close>

definition guac_parser_reset :: "guac_parser \<Rightarrow> guac_parser" where
  "guac_parser_reset p = p\<lparr>opcode := None, argc := 0, parse_state := GUAC_PARSE_LENGTH,
     elementv := [], element_length := 0\<rparr>"

text \<open>\<open>guac_parser_alloc\<close> on the memory \<open>p\<close> that the allocation returned.\<close>

definition guac_parser_alloc :: "guac_parser \<Rightarrow> guac_parser" where
  "guac_parser_alloc p = guac_parser_reset (p\<lparr>unparsed_start := 0, unparsed_end := 0\<rparr>)"

text \<open>
  The loop over a length: the number of bytes read, the value and whether a period ended it;
  \<open>None\<close> at a character that is neither a digit nor a period.
\<close>

fun parse_length_loop :: "bytes \<Rightarrow> nat \<Rightarrow> int \<Rightarrow> (nat \<times> int \<times> bool) option" where
  "parse_length_loop [] bytes_parsed parsed_length = Some (bytes_parsed, parsed_length, False)"
| "parse_length_loop (c # cs) bytes_parsed parsed_length =
     (if is_digit c
      then parse_length_loop cs (Suc bytes_parsed) (wrap32 (parsed_length * 10 + uchar c - 48))
      else if c = CHR ''.'' then Some (Suc bytes_parsed, parsed_length, True)
      else None)"

text \<open>
  The loop over content, on the bytes from \<open>char_buffer\<close> to the end of the buffer: the bytes
  passed, the remaining length and the character found where the element should end, if it was
  reached.
\<close>

function parse_content_loop :: "bytes \<Rightarrow> nat \<Rightarrow> int \<Rightarrow> nat \<times> int \<times> char option" where
  "parse_content_loop cs n el =
     (case cs of
        [] \<Rightarrow> (n, el, None)
      | c # _ \<Rightarrow>
          if el \<ge> 0
          then let char_length = guac_utf8_charsize (uchar c)
               in if char_length > length cs then (n, el, None)
                  else if el = 0 then (n, el, Some c)
                  else parse_content_loop (drop char_length cs) (n + char_length) (el - 1)
          else (n, el, None))"
  by pat_completeness auto
termination
  by (relation "measure (\<lambda>(cs, n, el). length cs)") (auto split: list.splits)

declare parse_content_loop.simps [simp del]

text \<open>
  The second half of \<open>guac_parser_append\<close>: content from offset \<open>pos\<close>, where \<open>n\<close> bytes have been
  parsed already and \<open>cs\<close> are the bytes up to the end of the buffer.
\<close>

definition parser_append_content ::
    "nat \<Rightarrow> nat \<Rightarrow> bytes \<Rightarrow> bytes \<Rightarrow> guac_parser \<Rightarrow> int \<times> bytes \<times> guac_parser" where
  "parser_append_content n pos cs mem p =
     (let (k, el, end) = parse_content_loop cs 0 (element_length p); p = p\<lparr>element_length := el\<rparr>
      in case end of
           None \<Rightarrow> (int (n + k), mem, p)
         | Some c \<Rightarrow>
             (let parsed = int (n + k + guac_utf8_charsize (uchar c)); mem = mem[pos + k := NUL]
              in if c = CHR '';''
                 then (parsed, mem,
                       p\<lparr>parse_state := GUAC_PARSE_COMPLETE, opcode := Some (elementv p ! 0),
                         argc := int (length (elementv p)) - 1\<rparr>)
                 else if c = CHR '','' then (parsed, mem, p\<lparr>parse_state := GUAC_PARSE_LENGTH\<rparr>)
                 else (0, mem, p\<lparr>parse_state := GUAC_PARSE_ERROR\<rparr>)))"

text \<open>
  \<open>guac_parser_append(parser, buffer, length)\<close> for a buffer at offset \<open>start\<close> of \<open>mem\<close>: the
  return value, the memory after it and the parser.
\<close>

definition guac_parser_append ::
    "guac_parser \<Rightarrow> bytes \<Rightarrow> nat \<Rightarrow> nat \<Rightarrow> int \<times> bytes \<times> guac_parser" where
  "guac_parser_append p mem start len =
     (let buf = take len (drop start mem); fail = (\<lambda>p. (0, mem, p\<lparr>parse_state := GUAC_PARSE_ERROR\<rparr>))
      in if length (elementv p) = GUAC_INSTRUCTION_MAX_ELEMENTS \<and> parse_state p \<noteq> GUAC_PARSE_COMPLETE
         then fail p
         else if parse_state p = GUAC_PARSE_LENGTH
         then case parse_length_loop buf 0 (element_length p) of
                None \<Rightarrow> fail p
              | Some (n, parsed_length, period) \<Rightarrow>
                  (let p = (if period
                            then p\<lparr>elementv := elementv p @ [start + n], parse_state := GUAC_PARSE_CONTENT\<rparr>
                            else p)
                   in if parsed_length > GUAC_INSTRUCTION_MAX_LENGTH then fail p
                      else let p = p\<lparr>element_length := parsed_length\<rparr>
                           in if period then parser_append_content n (start + n) (drop n buf) mem p
                              else (int n, mem, p))
         else if parse_state p = GUAC_PARSE_CONTENT then parser_append_content 0 start buf mem p
         else (0, mem, p))"

text \<open>The space left for reading, after shifting the instruction to the front of a full buffer.\<close>

definition parser_make_room ::
    "nat \<Rightarrow> nat \<Rightarrow> nat \<Rightarrow> guac_parser \<Rightarrow> (parser_error + nat \<times> nat \<times> nat \<times> guac_parser) option" where
  "parser_make_room us ue instr_start p =
     (if ue = INSTRUCTIONBUF_SIZE then
        if instr_start \<noteq> 0 then
          if list_all (\<lambda>v. instr_start \<le> v) (elementv p) then
            Some (Inr (us - instr_start, ue - instr_start, 0,
              p\<lparr>instructionbuf := blit (instructionbuf p) 0
                   (take (ue - instr_start) (drop instr_start (instructionbuf p))),
                elementv := map (\<lambda>v. v - instr_start) (elementv p)\<rparr>))
          else None
        else Some (Inl (Parser_Status GUAC_STATUS_NO_MEMORY))
      else Some (Inr (us, ue, instr_start, p)))"

text \<open>Waiting for data and reading it to the end of the unparsed bytes; the new end of them.\<close>

definition parser_fill ::
    "int \<Rightarrow> nat \<Rightarrow> guac_parser \<Rightarrow> 'd guac_socket \<Rightarrow>
     ((parser_error + nat) \<times> guac_parser \<times> 'd guac_socket) option" where
  "parser_fill usec_timeout ue p s =
     (let (retval, s1) = guac_socket_select usec_timeout s
      in if retval \<le> 0 then Some (Inl Socket_Status, p, s1)
         else let count = INSTRUCTIONBUF_SIZE - ue; (retval, bs, s2) = guac_socket_read count s1
              in if retval < 0 then Some (Inl (Parser_Status GUAC_STATUS_SEE_ERRNO), p, s2)
                 else if retval = 0 then Some (Inl (Parser_Status GUAC_STATUS_CLOSED), p, s2)
                 else if retval = int (length bs) \<and> length bs \<le> count
                 then Some (Inr (ue + length bs),
                            p\<lparr>instructionbuf := blit (instructionbuf p) ue bs\<rparr>, s2)
                 else None)"

partial_function (option) parser_read_loop ::
    "int \<Rightarrow> nat \<Rightarrow> nat \<Rightarrow> nat \<Rightarrow> guac_parser \<Rightarrow> 'd guac_socket \<Rightarrow>
     ((parser_error + nat \<times> nat) \<times> guac_parser \<times> 'd guac_socket) option" where
  [code]: "parser_read_loop usec_timeout us ue instr_start p s =
     (if parse_state p = GUAC_PARSE_COMPLETE then Some (Inr (us, ue), p, s)
      else if parse_state p = GUAC_PARSE_ERROR
      then Some (Inl (Parser_Status GUAC_STATUS_PROTOCOL_ERROR), p, s)
      else case guac_parser_append p (instructionbuf p) us (ue - us) of (parsed, mem, p0) \<Rightarrow>
        let p1 = p0\<lparr>instructionbuf := mem\<rparr>
        in if parsed = 0 \<and> parse_state p1 \<noteq> GUAC_PARSE_ERROR
           then case parser_make_room us ue instr_start p1 of
                  None \<Rightarrow> None
                | Some (Inl e) \<Rightarrow> Some (Inl e, p1, s)
                | Some (Inr (us', ue', instr_start', p2)) \<Rightarrow>
                    (case parser_fill usec_timeout ue' p2 s of
                       None \<Rightarrow> None
                     | Some (Inl e, p3, s') \<Rightarrow> Some (Inl e, p3, s')
                     | Some (Inr ue'', p3, s') \<Rightarrow>
                         parser_read_loop usec_timeout us' ue'' instr_start' p3 s')
           else parser_read_loop usec_timeout (us + nat parsed) ue instr_start p1 s)"

definition guac_parser_read ::
    "guac_parser \<Rightarrow> 'd guac_socket \<Rightarrow> int \<Rightarrow>
     ((parser_error + unit) \<times> guac_parser \<times> 'd guac_socket) option" where
  "guac_parser_read p s usec_timeout =
     (let p1 = (if parse_state p = GUAC_PARSE_COMPLETE then guac_parser_reset p else p)
      in case parser_read_loop usec_timeout (unparsed_start p) (unparsed_end p) (unparsed_start p) p1 s of
           None \<Rightarrow> None
         | Some (Inl e, p', s') \<Rightarrow> Some (Inl e, p', s')
         | Some (Inr (us, ue), p', s') \<Rightarrow>
             Some (Inr (), p'\<lparr>unparsed_start := us, unparsed_end := ue\<rparr>, s'))"

text \<open>\<open>guac_parser_expect\<close>; C returns 0 exactly for \<open>Inr ()\<close>.\<close>

definition guac_parser_expect ::
    "guac_parser \<Rightarrow> 'd guac_socket \<Rightarrow> int \<Rightarrow> string \<Rightarrow>
     ((parser_error + unit) \<times> guac_parser \<times> 'd guac_socket) option" where
  "guac_parser_expect p s usec_timeout expected =
     (case guac_parser_read p s usec_timeout of
        None \<Rightarrow> None
      | Some (Inl e, p', s') \<Rightarrow> Some (Inl e, p', s')
      | Some (Inr (), p', s') \<Rightarrow>
          (case opcode p' of
             None \<Rightarrow> None
           | Some v \<Rightarrow>
               if cstr_at (instructionbuf p') v \<noteq> expected
               then Some (Inl (Parser_Status GUAC_STATUS_PROTOCOL_ERROR), p', s')
               else Some (Inr (), p', s')))"

definition guac_parser_length :: "guac_parser \<Rightarrow> nat" where
  "guac_parser_length p = unparsed_end p - unparsed_start p"

text \<open>The bytes \<open>guac_parser_shift\<close> copies, whose number it returns.\<close>

definition guac_parser_shift :: "guac_parser \<Rightarrow> nat \<Rightarrow> bytes \<times> guac_parser" where
  "guac_parser_shift p len =
     (let n = min len (unparsed_end p - unparsed_start p)
      in (take n (drop (unparsed_start p) (instructionbuf p)),
          p\<lparr>unparsed_start := unparsed_start p + n\<rparr>))"

text \<open>The elements of a complete instruction, as the strings that its pointers denote.\<close>

definition parser_elements :: "guac_parser \<Rightarrow> string list" where
  "parser_elements p = map (cstr_at (instructionbuf p)) (elementv p)"

section \<open>The loops of \<open>guac_parser_append\<close>\<close>

lemma parse_length_loop_bounds:
  "parse_length_loop cs n v = Some (m, w, period) \<Longrightarrow>
   n \<le> m \<and> m \<le> n + length cs \<and> (period \<longrightarrow> n < m) \<and> (\<not> period \<longrightarrow> m = n + length cs)"
  by (induction cs n v rule: parse_length_loop.induct) (auto split: if_splits)

lemma parse_content_loop_Cons:
  "parse_content_loop (c # cs) n el =
     (if el < 0 \<or> Suc (length cs) < guac_utf8_charsize (uchar c) then (n, el, None)
      else if el = 0 then (n, el, Some c)
      else parse_content_loop (drop (guac_utf8_charsize (uchar c)) (c # cs))
             (n + guac_utf8_charsize (uchar c)) (el - 1))"
  by (subst parse_content_loop.simps) (simp add: Let_def del: drop_Cons)

lemma parse_content_loop_Nil: "parse_content_loop [] n el = (n, el, None)"
  by (subst parse_content_loop.simps) simp

lemma parse_content_loop_end: "parse_content_loop cs n el = (k, el', Some c) \<Longrightarrow> el' = 0"
proof (induction cs n el rule: parse_content_loop.induct)
  case (1 cs n el)
  then show ?case
    by (cases cs) (auto simp: parse_content_loop_Nil parse_content_loop_Cons split: if_splits)
qed

lemma parse_content_loop_bounds:
  "parse_content_loop cs n el = (m, el', r) \<Longrightarrow>
   n \<le> m \<and> m \<le> n + length cs \<and>
   (\<forall>c. r = Some c \<longrightarrow> m - n + guac_utf8_charsize (uchar c) \<le> length cs)"
proof (induction cs n el rule: parse_content_loop.induct)
  case (1 cs n el)
  show ?case
  proof (cases cs)
    case Nil
    with "1.prems" show ?thesis by (auto simp: parse_content_loop_Nil)
  next
    case (Cons c cs')
    let ?k = "guac_utf8_charsize (uchar c)"
    show ?thesis
    proof (cases "0 < el \<and> ?k \<le> length cs")
      case True
      with "1.prems" Cons have r: "parse_content_loop (drop ?k cs) (n + ?k) (el - 1) = (m, el', r)"
        by (simp add: parse_content_loop_Cons)
      from True Cons have IH: "n + ?k \<le> m \<and> m \<le> n + ?k + length (drop ?k cs) \<and>
          (\<forall>c. r = Some c \<longrightarrow> m - (n + ?k) + guac_utf8_charsize (uchar c) \<le> length (drop ?k cs))"
        by (intro "1.IH" [OF Cons _ refl]) (use r in auto)
      then have "n \<le> m" "m \<le> n + length cs" using True by auto
      moreover have "m - n + guac_utf8_charsize (uchar d) \<le> length cs" if "r = Some d" for d
      proof -
        have "m - (n + ?k) + guac_utf8_charsize (uchar d) \<le> length (drop ?k cs)"
          using IH that by blast
        then show ?thesis using IH True by auto
      qed
      ultimately show ?thesis by blast
    next
      case False
      with "1.prems" Cons show ?thesis by (auto simp: parse_content_loop_Cons split: if_splits)
    qed
  qed
qed

section \<open>Memory safety\<close>

text \<open>
  \<open>terminated mem u v\<close>: the pointer \<open>v\<close> denotes a C string that ends before \<open>u\<close>. Between two
  calls of \<open>guac_parser_append\<close> that have consumed the bytes up to \<open>u\<close>, every finished element is
  terminated, and the element in progress starts before \<open>u\<close>.
\<close>

definition terminated :: "bytes \<Rightarrow> nat \<Rightarrow> nat \<Rightarrow> bool" where
  "terminated mem u v \<longleftrightarrow> (\<exists>k. v \<le> k \<and> k < u \<and> mem ! k = NUL)"

definition finished :: "nat \<Rightarrow> nat \<Rightarrow> bytes \<Rightarrow> nat list \<Rightarrow> bool" where
  "finished lo u mem vs \<longleftrightarrow> (\<forall>v \<in> set vs. lo \<le> v \<and> terminated mem u v)"

definition elements_ok :: "nat \<Rightarrow> nat \<Rightarrow> bytes \<Rightarrow> guac_parser \<Rightarrow> bool" where
  "elements_ok lo u mem p \<longleftrightarrow> length (elementv p) \<le> GUAC_INSTRUCTION_MAX_ELEMENTS \<and>
     (case parse_state p of
        GUAC_PARSE_LENGTH \<Rightarrow> finished lo u mem (elementv p)
      | GUAC_PARSE_CONTENT \<Rightarrow> (\<exists>vs v. elementv p = vs @ [v] \<and> finished lo u mem vs \<and> lo \<le> v \<and> v \<le> u)
      | GUAC_PARSE_COMPLETE \<Rightarrow> elementv p \<noteq> [] \<and> opcode p = Some (elementv p ! 0) \<and>
          argc p = int (length (elementv p)) - 1 \<and> finished lo u mem (elementv p)
      | GUAC_PARSE_ERROR \<Rightarrow> True)"

lemma elements_ok_buf [simp]: "elements_ok lo u mem (p\<lparr>instructionbuf := m\<rparr>) = elements_ok lo u mem p"
  by (cases "parse_state p") (simp_all add: elements_ok_def)

lemma terminated_mono: "terminated mem u v \<Longrightarrow> u \<le> u' \<Longrightarrow> terminated mem u' v"
  by (force simp: terminated_def)

lemma terminated_update: "terminated mem u v \<Longrightarrow> terminated (mem[k := NUL]) u v"
  by (metis list_update_beyond nat_neq_iff not_le nth_list_update terminated_def)

lemma terminated_here: "v \<le> k \<Longrightarrow> k < u \<Longrightarrow> k < length mem \<Longrightarrow> terminated (mem[k := NUL]) u v"
  by (auto simp: terminated_def)

lemma finished_mono: "finished lo u mem vs \<Longrightarrow> u \<le> u' \<Longrightarrow> finished lo u' mem vs"
  by (auto simp: finished_def intro: terminated_mono)

lemma finished_update: "finished lo u mem vs \<Longrightarrow> finished lo u (mem[k := NUL]) vs"
  by (auto simp: finished_def intro: terminated_update)

lemma finished_snoc: "finished lo u mem (vs @ [v]) \<longleftrightarrow> finished lo u mem vs \<and> lo \<le> v \<and> terminated mem u v"
  by (auto simp: finished_def)

lemma append_content_safe:
  assumes ok: "elements_ok lo u mem p" and st: "parse_state p = GUAC_PARSE_CONTENT"
    and len: "u + length cs \<le> length mem"
    and r: "parser_append_content n u cs mem p = (parsed, mem', p')"
  shows "0 \<le> parsed \<and> parsed \<le> int (n + length cs) \<and> length mem' = length mem \<and>
    elements_ok lo (u + nat parsed - n) mem' p'"
proof -
  from ok st obtain vs v where e: "elementv p = vs @ [v]" "finished lo u mem vs" "lo \<le> v" "v \<le> u"
    "length (elementv p) \<le> GUAC_INSTRUCTION_MAX_ELEMENTS"
    by (auto simp: elements_ok_def)
  obtain k el fin where l: "parse_content_loop cs 0 (element_length p) = (k, el, fin)"
    by (metis prod_cases3)
  note b = parse_content_loop_bounds [OF l]
  show ?thesis
  proof (cases fin)
    case None
    have "finished lo (u + k) mem vs" using e(2) by (rule finished_mono) simp
    with None r l b e st show ?thesis
      by (auto simp: parser_append_content_def elements_ok_def nat_int_add)
  next
    case (Some c)
    let ?m = "mem[u + k := NUL]" and ?u = "u + k + guac_utf8_charsize (uchar c)"
    from b Some have kc: "k + guac_utf8_charsize (uchar c) \<le> length cs" by simp
    have "u + k < ?u" by simp
    have "finished lo ?u ?m vs"
      by (intro finished_update finished_mono [OF e(2)]) linarith
    moreover have "terminated ?m ?u v"
      using kc e len \<open>u + k < ?u\<close> charsize_pos [of "uchar c"] by (intro terminated_here) linarith+
    ultimately have f: "finished lo ?u ?m (vs @ [v])" using e(3) by (simp add: finished_snoc)
    from r l Some have "p' = p\<lparr>element_length := el, parse_state := GUAC_PARSE_COMPLETE,
          opcode := Some ((vs @ [v]) ! 0), argc := int (length (vs @ [v])) - 1\<rparr> \<and>
        mem' = ?m \<and> parsed = int (n + k + guac_utf8_charsize (uchar c)) \<or>
      p' = p\<lparr>element_length := el, parse_state := GUAC_PARSE_LENGTH\<rparr> \<and>
        mem' = ?m \<and> parsed = int (n + k + guac_utf8_charsize (uchar c)) \<or>
      p' = p\<lparr>element_length := el, parse_state := GUAC_PARSE_ERROR\<rparr> \<and> mem' = ?m \<and> parsed = 0"
      by (auto simp: parser_append_content_def Let_def e(1) split: if_splits)
    moreover have "u + nat (int n + int k + int (guac_utf8_charsize (uchar c))) - n = ?u"
      by (simp add: nat_add_distrib)
    ultimately show ?thesis using f e kc by (elim disjE) (auto simp: elements_ok_def)
  qed
qed

lemma append_safe:
  assumes ok: "elements_ok lo u mem p" and "lo \<le> u" "u + len \<le> length mem"
    and r: "guac_parser_append p mem u len = (parsed, mem', p')"
  shows "0 \<le> parsed \<and> parsed \<le> int len \<and> length mem' = length mem \<and>
    elements_ok lo (u + nat parsed) mem' p'"
proof -
  let ?buf = "take len (drop u mem)"
  have buf [simp]: "length ?buf = len" using assms by simp
  have le: "length (elementv p) \<le> GUAC_INSTRUCTION_MAX_ELEMENTS" using ok by (simp add: elements_ok_def)
  consider "length (elementv p) = GUAC_INSTRUCTION_MAX_ELEMENTS" "parse_state p \<noteq> GUAC_PARSE_COMPLETE"
    | "length (elementv p) < GUAC_INSTRUCTION_MAX_ELEMENTS" "parse_state p = GUAC_PARSE_LENGTH"
    | "length (elementv p) < GUAC_INSTRUCTION_MAX_ELEMENTS" "parse_state p = GUAC_PARSE_CONTENT"
    | "parse_state p = GUAC_PARSE_COMPLETE"
    | "length (elementv p) < GUAC_INSTRUCTION_MAX_ELEMENTS" "parse_state p = GUAC_PARSE_ERROR"
    using le by (cases "parse_state p") (fastforce simp: le_less)+
  then show ?thesis
  proof cases
    case 2
    show ?thesis
    proof (cases "parse_length_loop ?buf 0 (element_length p)")
      case None
      with r ok 2 show ?thesis by (auto simp: guac_parser_append_def elements_ok_def)
    next
      case (Some res)
      obtain n w period where l: "parse_length_loop ?buf 0 (element_length p) = Some (n, w, period)"
        using Some by (cases res) auto
      note b = parse_length_loop_bounds [OF l]
      let ?p = "p\<lparr>elementv := elementv p @ [u + n], parse_state := GUAC_PARSE_CONTENT, element_length := w\<rparr>"
      have f: "finished lo (u + n) mem (elementv p)"
        using ok 2 by (auto simp: elements_ok_def intro: finished_mono)
      then have c: "elements_ok lo (u + n) mem ?p" using 2 assms by (simp add: elements_ok_def)
      show ?thesis
      proof (cases "GUAC_INSTRUCTION_MAX_LENGTH < w \<or> \<not> period")
        case True
        with r 2 l b f show ?thesis
          by (auto simp: guac_parser_append_def elements_ok_def Let_def split: if_splits)
      next
        case False
        with r 2 l have "parser_append_content n (u + n) (drop n ?buf) mem ?p = (parsed, mem', p')"
          by (simp add: guac_parser_append_def Let_def)
        then have "0 \<le> parsed \<and> parsed \<le> int (n + length (drop n ?buf)) \<and> length mem' = length mem \<and>
            elements_ok lo (u + n + nat parsed - n) mem' p'"
          using b assms by (intro append_content_safe [OF c]) simp_all
        moreover have "n + length (drop n ?buf) = len" using b assms by simp
        ultimately show ?thesis by simp
      qed
    qed
  next
    case 3
    with r have "parser_append_content 0 u ?buf mem p = (parsed, mem', p')"
      by (simp add: guac_parser_append_def)
    then have "0 \<le> parsed \<and> parsed \<le> int (0 + length ?buf) \<and> length mem' = length mem \<and>
        elements_ok lo (u + nat parsed - 0) mem' p'"
      by (intro append_content_safe [OF ok 3(2)]) (simp_all only: buf assms)
    then show ?thesis by (simp only: buf) simp
  next
    case 1
    with r have "parsed = 0" "mem' = mem" "p' = p\<lparr>parse_state := GUAC_PARSE_ERROR\<rparr>"
      by (simp_all add: guac_parser_append_def)
    with le show ?thesis by (simp add: elements_ok_def)
  next
    case 4
    with r ok show ?thesis by (auto simp: guac_parser_append_def)
  next
    case 5
    with r ok show ?thesis by (auto simp: guac_parser_append_def)
  qed
qed

text \<open>A call that consumes nothing and reports no error stays in the same phase.\<close>

lemma append_zero:
  assumes "guac_parser_append p mem u len = (0, mem', p')" "parse_state p' \<noteq> GUAC_PARSE_ERROR"
  shows "parse_state p' = parse_state p"
proof (cases "parse_state p = GUAC_PARSE_LENGTH")
  case True
  show ?thesis
  proof (cases "parse_length_loop (take len (drop u mem)) 0 (element_length p)")
    case None
    with assms True show ?thesis by (auto simp: guac_parser_append_def Let_def split: if_splits)
  next
    case (Some res)
    obtain n w period where l: "parse_length_loop (take len (drop u mem)) 0 (element_length p) =
        Some (n, w, period)"
      using Some by (cases res) auto
    from assms True l parse_length_loop_bounds [OF l] show ?thesis
      by (auto simp: guac_parser_append_def parser_append_content_def Let_def
            split: if_splits prod.splits option.splits)
  qed
next
  case False
  with assms charsize_pos [of 59] charsize_pos [of 44] show ?thesis
    by (auto simp: guac_parser_append_def parser_append_content_def Let_def simp del: charsize_pos
          split: if_splits prod.splits option.splits)
qed

subsection \<open>Making room\<close>

definition parsing :: "guac_parser \<Rightarrow> bool" where
  "parsing p \<longleftrightarrow> parse_state p = GUAC_PARSE_LENGTH \<or> parse_state p = GUAC_PARSE_CONTENT"

definition read_inv :: "nat \<Rightarrow> nat \<Rightarrow> nat \<Rightarrow> guac_parser \<Rightarrow> bool" where
  "read_inv lo us ue p \<longleftrightarrow> length (instructionbuf p) = INSTRUCTIONBUF_SIZE \<and> lo \<le> us \<and> us \<le> ue \<and>
     ue \<le> INSTRUCTIONBUF_SIZE \<and> elements_ok lo us (instructionbuf p) p"

text \<open>Moving the bytes \<open>lo, \<dots>, ue - 1\<close> to the front keeps every string that lies in them.\<close>

definition shifted :: "nat \<Rightarrow> nat \<Rightarrow> guac_parser \<Rightarrow> guac_parser" where
  "shifted lo ue p = p\<lparr>instructionbuf := blit (instructionbuf p) 0 (take (ue - lo) (drop lo (instructionbuf p))),
     elementv := map (\<lambda>v. v - lo) (elementv p)\<rparr>"

lemma shifted_simps [simp]:
  "parse_state (shifted lo ue p) = parse_state p"
  "element_length (shifted lo ue p) = element_length p"
  "elementv (shifted lo ue p) = map (\<lambda>v. v - lo) (elementv p)"
  "opcode (shifted lo ue p) = opcode p"
  "argc (shifted lo ue p) = argc p"
  by (simp_all add: shifted_def)

lemma shifted_buf:
  assumes "lo \<le> ue" "ue \<le> length (instructionbuf p)"
  shows "length (instructionbuf (shifted lo ue p)) = length (instructionbuf p)"
    and "k < ue - lo \<Longrightarrow> instructionbuf (shifted lo ue p) ! k = instructionbuf p ! (lo + k)"
  using assms by (simp_all add: shifted_def blit_def nth_append)

lemma shifted_terminated:
  assumes "lo \<le> v" "terminated (instructionbuf p) us v" "us \<le> ue" "ue \<le> length (instructionbuf p)"
  shows "terminated (instructionbuf (shifted lo ue p)) (us - lo) (v - lo)"
proof -
  from assms(2) obtain k where "v \<le> k" "k < us" "instructionbuf p ! k = NUL" by (auto simp: terminated_def)
  moreover from this assms have "v - lo \<le> k - lo" "k - lo < us - lo" "k - lo < ue - lo" by linarith+
  ultimately show ?thesis
    unfolding terminated_def using assms by (intro exI [of _ "k - lo"]) (simp add: shifted_buf)
qed

lemma shifted_finished:
  assumes "finished lo us (instructionbuf p) vs" "us \<le> ue" "ue \<le> length (instructionbuf p)"
  shows "finished 0 (us - lo) (instructionbuf (shifted lo ue p)) (map (\<lambda>v. v - lo) vs)"
  using assms by (auto simp: finished_def intro: shifted_terminated)

lemma shifted_inv:
  assumes "read_inv lo us ue p" "parsing p"
  shows "read_inv 0 (us - lo) (ue - lo) (shifted lo ue p)"
  using assms(2) unfolding parsing_def
proof
  assume "parse_state p = GUAC_PARSE_LENGTH"
  with assms(1) show ?thesis by (auto simp: read_inv_def elements_ok_def shifted_buf shifted_finished)
next
  assume c: "parse_state p = GUAC_PARSE_CONTENT"
  with assms(1) obtain vs v where e: "elementv p = vs @ [v]" "finished lo us (instructionbuf p) vs" "lo \<le> v" "v \<le> us"
    by (auto simp: read_inv_def elements_ok_def)
  with assms(1) c show ?thesis by (auto simp: read_inv_def elements_ok_def shifted_buf shifted_finished)
qed

lemma elements_above:
  assumes "elements_ok lo us mem p" "parsing p"
  shows "list_all (\<lambda>v. lo \<le> v) (elementv p)"
  using assms by (auto simp: elements_ok_def finished_def list_all_iff parsing_def)

lemma make_room_cases:
  assumes "read_inv lo us ue p" "parsing p"
  obtains (full) "lo = 0" "ue = INSTRUCTIONBUF_SIZE"
      "parser_make_room us ue lo p = Some (Inl (Parser_Status GUAC_STATUS_NO_MEMORY))"
  | (shift) "0 < lo" "ue = INSTRUCTIONBUF_SIZE"
      "parser_make_room us ue lo p = Some (Inr (us - lo, ue - lo, 0, shifted lo ue p))"
  | (room) "ue < INSTRUCTIONBUF_SIZE" "parser_make_room us ue lo p = Some (Inr (us, ue, lo, p))"
proof -
  have "list_all (\<lambda>v. lo \<le> v) (elementv p)"
    using assms elements_above by (auto simp: read_inv_def)
  moreover have "ue \<le> INSTRUCTIONBUF_SIZE" using assms by (simp add: read_inv_def)
  ultimately show thesis
    by (cases "ue = INSTRUCTIONBUF_SIZE"; cases "lo = 0")
       (auto simp: parser_make_room_def shifted_def intro: full shift room)
qed

text \<open>What follows from a buffer with no room, and from one that has room or was shifted.\<close>

lemma make_room_inv:
  assumes "read_inv lo us ue p" "parsing p"
    and "parser_make_room us ue lo p = Some (Inl (Parser_Status GUAC_STATUS_NO_MEMORY)) \<Longrightarrow> P"
    and "\<And>us' ue' lo' p2. parser_make_room us ue lo p = Some (Inr (us', ue', lo', p2)) \<Longrightarrow>
       read_inv lo' us' ue' p2 \<Longrightarrow> ue' < INSTRUCTIONBUF_SIZE \<Longrightarrow> ue' - us' = ue - us \<Longrightarrow> parsing p2 \<Longrightarrow> P"
  shows P
  using assms(1,2)
proof (cases rule: make_room_cases)
  case full
  then show ?thesis by (intro assms(3))
next
  case shift
  have "ue - lo - (us - lo) = ue - us" "ue - lo < INSTRUCTIONBUF_SIZE" "parsing (shifted lo ue p)"
    using assms shift by (auto simp: read_inv_def parsing_def)
  then show ?thesis using assms shift by (intro assms(4) [OF shift(3) shifted_inv])
next
  case room
  then show ?thesis using assms by (intro assms(4) [OF room(2)]) simp_all
qed

subsection \<open>Turns of the read loop\<close>

lemma read_loop_step:
  assumes "parsing p" "guac_parser_append p (instructionbuf p) us (ue - us) = (parsed, mem, p0)"
    and "parsed \<noteq> 0 \<or> parse_state (p0\<lparr>instructionbuf := mem\<rparr>) = GUAC_PARSE_ERROR"
  shows "parser_read_loop t us ue lo p s =
    parser_read_loop t (us + nat parsed) ue lo (p0\<lparr>instructionbuf := mem\<rparr>) s"
  using assms by (auto simp: parsing_def parser_read_loop.simps [of t us ue lo p s])

lemma read_loop_starved:
  assumes "parsing p" "guac_parser_append p (instructionbuf p) us (ue - us) = (0, mem, p0)"
    and "parse_state (p0\<lparr>instructionbuf := mem\<rparr>) \<noteq> GUAC_PARSE_ERROR"
  shows "parser_read_loop t us ue lo p s =
    (case parser_make_room us ue lo (p0\<lparr>instructionbuf := mem\<rparr>) of
       None \<Rightarrow> None
     | Some (Inl e) \<Rightarrow> Some (Inl e, p0\<lparr>instructionbuf := mem\<rparr>, s)
     | Some (Inr (us', ue', instr_start', p2)) \<Rightarrow>
         (case parser_fill t ue' p2 s of
            None \<Rightarrow> None
          | Some (Inl e, p3, s') \<Rightarrow> Some (Inl e, p3, s')
          | Some (Inr ue'', p3, s') \<Rightarrow> parser_read_loop t us' ue'' instr_start' p3 s'))"
  using assms by (auto simp: parsing_def Let_def parser_read_loop.simps [of t us ue lo p s])

section \<open>Reading from a source\<close>

context socket_source
begin

lemma fill_cases:
  assumes "source s" "ue < INSTRUCTIONBUF_SIZE"
  obtains (fail) e s' where "parser_fill t ue p s = Some (Inl e, p, s')" "source s'"
      "\<not> (calm (data s) \<and> input (data s) \<noteq> [])" "e \<noteq> Parser_Status GUAC_STATUS_PROTOCOL_ERROR"
  | (more) bs s' where "parser_fill t ue p s =
        Some (Inr (ue + length bs), p\<lparr>instructionbuf := blit (instructionbuf p) ue bs\<rparr>, s')" "source s'"
      "bs \<noteq> []" "ue + length bs \<le> INSTRUCTIONBUF_SIZE" "input (data s) = bs @ input (data s')"
      "calm (data s) \<longrightarrow> calm (data s')"
proof -
  obtain r d1 where s: "sel (data s) t = (r, d1)" by fastforce
  obtain k bs d2 where rd: "rd d1 (INSTRUCTIONBUF_SIZE - ue) = (k, bs, d2)" by (metis prod_cases3)
  note laws = select_input [OF s] select_calm [OF s] read_some [OF rd] read_calm [OF rd]
  have sl: "guac_socket_select t s = (r, s\<lparr>data := d1\<rparr>)"
    using assms s by (simp add: guac_socket_select_def source_def)
  have rs: "guac_socket_read (INSTRUCTIONBUF_SIZE - ue) (s\<lparr>data := d1\<rparr>) = (k, bs, s\<lparr>data := d2\<rparr>)"
    using assms rd by (simp add: guac_socket_read_def source_def)
  have src: "source (s\<lparr>data := d\<rparr>)" for d using assms by (simp add: source_def)
  consider "r \<le> 0" | "0 < r" "k < 0" | "0 < r" "k = 0" | "0 < r" "0 < k" by linarith
  then show thesis
  proof cases
    case 1
    with sl src laws show thesis by (intro fail [of Socket_Status]) (auto simp: parser_fill_def)
  next
    case 2
    with sl rs src laws show thesis
      by (intro fail [of "Parser_Status GUAC_STATUS_SEE_ERRNO"]) (auto simp: parser_fill_def)
  next
    case 3
    with sl rs src laws read_eof [of d1 "INSTRUCTIONBUF_SIZE - ue" bs d2] rd assms show thesis
      by (intro fail [of "Parser_Status GUAC_STATUS_CLOSED" "s\<lparr>data := d2\<rparr>"]) (auto simp: parser_fill_def)
  next
    case 4
    with sl rs src laws assms show thesis by (intro more [of bs "s\<lparr>data := d2\<rparr>"]) (auto simp: parser_fill_def)
  qed
qed

text \<open>
  The read loop returns on every source: each turn consumes bytes of the buffer or of the input. It
  keeps the invariant, and a successful read ends with a complete instruction.
\<close>

lemma append_inv:
  assumes "read_inv lo us ue p"
    and "guac_parser_append p (instructionbuf p) us (ue - us) = (parsed, mem, p0)"
  shows "0 \<le> parsed" "nat parsed \<le> ue - us" "read_inv lo (us + nat parsed) ue (p0\<lparr>instructionbuf := mem\<rparr>)"
proof -
  have "0 \<le> parsed \<and> parsed \<le> int (ue - us) \<and> length mem = length (instructionbuf p) \<and>
      elements_ok lo (us + nat parsed) mem p0"
    using assms by (intro append_safe) (simp_all add: read_inv_def)
  then show "0 \<le> parsed" "nat parsed \<le> ue - us"
    "read_inv lo (us + nat parsed) ue (p0\<lparr>instructionbuf := mem\<rparr>)"
    using assms(1) by (auto simp: read_inv_def)
qed

lemma fill_inv:
  assumes "read_inv lo us ue p" "ue + length bs \<le> INSTRUCTIONBUF_SIZE"
  shows "read_inv lo us (ue + length bs) (p\<lparr>instructionbuf := blit (instructionbuf p) ue bs\<rparr>)"
proof -
  let ?m = "blit (instructionbuf p) ue bs"
  have same: "k < us \<Longrightarrow> ?m ! k = instructionbuf p ! k" for k
    using assms by (simp add: read_inv_def blit_def nth_append)
  then have "terminated ?m us v = terminated (instructionbuf p) us v" for v
    by (auto simp: terminated_def)
  then have "elements_ok lo us ?m p = elements_ok lo us (instructionbuf p) p"
    by (cases "parse_state p") (simp_all add: elements_ok_def finished_def)
  with assms show ?thesis by (simp add: read_inv_def)
qed

definition read_post :: "(parser_error + nat \<times> nat) \<Rightarrow> guac_parser \<Rightarrow> bool" where
  "read_post res p \<longleftrightarrow>
     (case res of
        Inr (us, ue) \<Rightarrow> parse_state p = GUAC_PARSE_COMPLETE \<and> (\<exists>lo. read_inv lo us ue p)
      | Inl e \<Rightarrow> (e = Parser_Status GUAC_STATUS_PROTOCOL_ERROR \<longleftrightarrow> parse_state p = GUAC_PARSE_ERROR))"

lemma read_loop_returns:
  "read_inv lo us ue p \<Longrightarrow> source s \<Longrightarrow>
   \<exists>res p' s'. parser_read_loop t us ue lo p s = Some (res, p', s') \<and> source s' \<and> read_post res p'"
proof (induction "2 * length (input (data s)) + (ue - us)" arbitrary: lo us ue p s rule: less_induct)
  case less
  obtain parsed mem p0 where a: "guac_parser_append p (instructionbuf p) us (ue - us) = (parsed, mem, p0)"
    by (metis prod_cases3)
  define p1 where "p1 = p0\<lparr>instructionbuf := mem\<rparr>"
  note inv = append_inv [OF less.prems(1) a, folded p1_def]
  consider (stop) "parse_state p = GUAC_PARSE_COMPLETE \<or> parse_state p = GUAC_PARSE_ERROR"
    | (step) "parsing p" "parsed \<noteq> 0 \<or> parse_state p1 = GUAC_PARSE_ERROR"
    | (starved) "parsing p" "parsed = 0" "parse_state p1 \<noteq> GUAC_PARSE_ERROR"
    by (cases "parse_state p") (auto simp: parsing_def)
  then show ?case
  proof cases
    case stop
    with less.prems show ?thesis by (auto simp: parser_read_loop.simps [of t us ue lo p s] read_post_def)
  next
    case step
    note eq = read_loop_step [OF step(1) a, folded p1_def, OF step(2)]
    show ?thesis
    proof (cases "parsed = 0")
      case True
      with step(2) have "parse_state p1 = GUAC_PARSE_ERROR" by simp
      then have "parser_read_loop t us ue lo p s =
          Some (Inl (Parser_Status GUAC_STATUS_PROTOCOL_ERROR), p1, s)"
        unfolding eq by (simp add: parser_read_loop.simps [of t _ ue lo p1 s])
      with \<open>parse_state p1 = _\<close> less.prems show ?thesis by (simp add: read_post_def)
    next
      case False
      with inv have "2 * length (input (data s)) + (ue - (us + nat parsed)) <
          2 * length (input (data s)) + (ue - us)" by linarith
      from less.hyps [OF this inv(3) less.prems(2)] show ?thesis unfolding eq .
    qed
  next
    case starved
    have a0: "guac_parser_append p (instructionbuf p) us (ue - us) = (0, mem, p0)" using a starved by simp
    note eq = read_loop_starved [OF starved(1) a0, folded p1_def, OF starved(3)]
    have go: "parsing p1" using append_zero [OF a0] starved by (simp add: p1_def parsing_def)
    have inv1: "read_inv lo us ue p1" using inv(3) starved by simp
    show ?thesis
    proof (rule make_room_inv [OF inv1 go])
      assume "parser_make_room us ue lo p1 = Some (Inl (Parser_Status GUAC_STATUS_NO_MEMORY))"
      then have "parser_read_loop t us ue lo p s = Some (Inl (Parser_Status GUAC_STATUS_NO_MEMORY), p1, s)"
        unfolding eq by simp
      with go less.prems show ?thesis by (auto simp: read_post_def parsing_def)
    next
      fix us' ue' lo' p2
      assume room: "parser_make_room us ue lo p1 = Some (Inr (us', ue', lo', p2))" and i: "read_inv lo' us' ue' p2"
        "ue' < INSTRUCTIONBUF_SIZE" "ue' - us' = ue - us" and p2: "parsing p2"
      from less.prems(2) i(2) show ?thesis
      proof (cases rule: fill_cases [where t = t and p = p2])
        case (fail e s')
        then have "parser_read_loop t us ue lo p s = Some (Inl e, p2, s')" unfolding eq by (simp add: room)
        with fail p2 show ?thesis by (auto simp: read_post_def parsing_def)
      next
        case (more bs s')
        have "length (input (data s)) = length bs + length (input (data s'))" "0 < length bs" "us' \<le> ue'"
          using more i(1) by (auto simp: read_inv_def)
        then have "2 * length (input (data s')) + (ue' + length bs - us') <
            2 * length (input (data s)) + (ue - us)" using i(3) by linarith
        from less.hyps [OF this fill_inv [OF i(1) more(4)] more(2)]
        show ?thesis unfolding eq by (simp add: room more(1))
      qed
    qed
  qed
qed

end

section \<open>Reading what was encoded\<close>

text \<open>
  An element the parser accepts: complete characters, no NUL (which would end the C string early)
  and at most the maximum number of characters.
\<close>

definition good_element :: "string \<Rightarrow> bool" where
  "good_element e \<longleftrightarrow> utf8_complete e \<and> NUL \<notin> set e \<and>
     int (guac_utf8_strlen e) \<le> GUAC_INSTRUCTION_MAX_LENGTH"

lemma parse_length_loop_prefix:
  assumes "list_all is_digit ds" "digits_val v ds = m" "int m \<le> GUAC_INSTRUCTION_MAX_LENGTH"
    and "buf @ later = ds @ ''.'' @ rest"
  shows "parse_length_loop buf n (int v) =
    (if length buf \<le> length ds then Some (n + length buf, int (digits_val v buf), False)
     else Some (Suc (n + length ds), int m, True))"
  using assms
proof (induction ds arbitrary: buf n v)
  case Nil
  then show ?case by (cases buf) (auto simp: is_digit_def)
next
  case (Cons d ds)
  show ?case
  proof (cases buf)
    case (Cons c cs)
    let ?w = "v * 10 + nat (uchar d - 48)"
    have d: "is_digit d" "c = d" using Cons Cons.prems by auto
    then have n: "int ?w = int v * 10 + uchar d - 48" by (simp add: is_digit_def)
    have "?w \<le> m" using Cons.prems(2) digits_val_ge [of ?w ds] by simp
    then have "int ?w \<le> int m" by (simp only: of_nat_le_iff)
    then have "int ?w \<le> 8192" using Cons.prems(3) by (simp only: GUAC_INSTRUCTION_MAX_LENGTH_def)
    then have "wrap32 (int v * 10 + uchar d - 48) = int ?w" unfolding n [symmetric] by simp
    with Cons.IH [of ?w cs "Suc n"] Cons.prems Cons d show ?thesis by simp
  qed simp
qed

lemma parse_content_loop_prefix:
  "utf8_complete b \<Longrightarrow> cs @ later = b @ t # rest \<Longrightarrow> uchar t < 128 \<Longrightarrow>
   parse_content_loop cs n (int (guac_utf8_strlen b)) = (k, el, r) \<Longrightarrow>
   r = Some t \<and> k = n + length b \<and> length b < length cs \<or>
   r = None \<and> (\<exists>b1 b2. b = b1 @ b2 \<and> k = n + length b1 \<and> utf8_complete b2 \<and> el = int (guac_utf8_strlen b2) \<and>
     length b1 \<le> length cs \<and> (b1 = [] \<longrightarrow> length cs \<le> length b))"
proof (induction b arbitrary: cs n rule: utf8_complete.induct)
  case 1
  then show ?case by (cases cs) (auto simp: parse_content_loop_Nil parse_content_loop_Cons)
next
  case (2 c str)
  let ?k = "guac_utf8_charsize (uchar c)"
  show ?case
  proof (cases cs)
    case Nil
    with "2.prems" show ?thesis by (intro disjI2) (auto simp: parse_content_loop_Nil)
  next
    case (Cons d cs')
    with "2.prems" have d: "d = c" by simp
    show ?thesis
    proof (cases "?k \<le> length cs")
      case False
      with "2.prems" Cons d show ?thesis
        by (intro disjI2) (auto simp: parse_content_loop_Cons strlen_Cons)
    next
      case True
      let ?b = "drop (?k - 1) str"
      have b: "drop ?k (c # str) = ?b" by (simp add: drop_Cons')
      have "drop ?k cs @ later = drop ?k (cs @ later)" using True by simp
      also have "\<dots> = drop ?k (c # str) @ t # rest"
        using "2.prems"(1) by (simp only: "2.prems"(2)) (simp only: drop_append utf8_complete.simps, simp)
      finally have p: "utf8_complete ?b" "drop ?k cs @ later = ?b @ t # rest"
        using "2.prems"(1) b by simp_all
      have "parse_content_loop (drop ?k cs) (n + ?k) (int (guac_utf8_strlen ?b)) = (k, el, r)"
        using "2.prems"(4) Cons d True by (simp add: parse_content_loop_Cons strlen_Cons)
      from "2.IH" [OF p "2.prems"(3) this]
      show ?thesis
      proof
        assume "r = Some t \<and> k = n + ?k + length ?b \<and> length ?b < length (drop ?k cs)"
        moreover from this have "?k + length ?b = length (c # str)" "length (c # str) < length cs"
          using "2.prems"(1) charsize_pos [of "uchar c"]
          unfolding utf8_complete.simps length_drop list.size by linarith+
        ultimately show ?thesis by simp
      next
        assume "r = None \<and> (\<exists>b1 b2. ?b = b1 @ b2 \<and> k = n + ?k + length b1 \<and> utf8_complete b2 \<and>
          el = int (guac_utf8_strlen b2) \<and> length b1 \<le> length (drop ?k cs) \<and>
          (b1 = [] \<longrightarrow> length (drop ?k cs) \<le> length ?b))"
        then obtain b1 b2 where q: "r = None" "?b = b1 @ b2" "k = n + ?k + length b1" "utf8_complete b2"
          "el = int (guac_utf8_strlen b2)" "length b1 \<le> length (drop ?k cs)" by blast
        have "c # str = take ?k (c # str) @ b1 @ b2" using q(2) b by (metis append_take_drop_id)
        then show ?thesis
          using q True "2.prems"(1)
          by (intro disjI2 conjI exI [of _ "take ?k (c # str) @ b1"] exI [of _ b2]) auto
      qed
    qed
  qed
qed

text \<open>
  \<open>awaiting mem u ds es p r\<close>: the parser has consumed the bytes before \<open>u\<close>, the elements \<open>ds\<close> are
  stored, \<open>es\<close> are to come (the first may be in progress) and \<open>r\<close> is what remains of the encoding.
\<close>

definition stored :: "bytes \<Rightarrow> nat \<Rightarrow> nat list \<Rightarrow> string list \<Rightarrow> bool" where
  "stored mem u = list_all2 (\<lambda>v e. holds mem v (e @ [NUL]) \<and> v + length e < u)"

inductive awaiting :: "bytes \<Rightarrow> nat \<Rightarrow> string list \<Rightarrow> string list \<Rightarrow> guac_parser \<Rightarrow> bytes \<Rightarrow> bool" where
  await_length: "parse_state p = GUAC_PARSE_LENGTH \<Longrightarrow> stored mem u (elementv p) ds \<Longrightarrow>
    list_all is_digit cs \<Longrightarrow> element_length p = int v \<Longrightarrow> digits_val v cs = guac_utf8_strlen e \<Longrightarrow>
    awaiting mem u ds (e # es) p (cs @ ''.'' @ e @ encode_rest es)"
| await_content: "parse_state p = GUAC_PARSE_CONTENT \<Longrightarrow> elementv p = vs @ [v] \<Longrightarrow> stored mem u vs ds \<Longrightarrow>
    holds mem v a \<Longrightarrow> v + length a = u \<Longrightarrow> utf8_complete b \<Longrightarrow> element_length p = int (guac_utf8_strlen b) \<Longrightarrow>
    awaiting mem u ds ((a @ b) # es) p (b @ encode_rest es)"

definition all_read :: "bytes \<Rightarrow> nat \<Rightarrow> string list \<Rightarrow> guac_parser \<Rightarrow> bool" where
  "all_read mem u es p \<longleftrightarrow> parse_state p = GUAC_PARSE_COMPLETE \<and> stored mem u (elementv p) es"

lemma stored_mono: "stored mem u vs ds \<Longrightarrow> u \<le> u' \<Longrightarrow> stored mem u' vs ds"
  unfolding stored_def by (erule list_all2_mono) simp

lemma stored_update: "stored mem u vs ds \<Longrightarrow> u \<le> k \<Longrightarrow> stored (mem[k := x]) u vs ds"
  unfolding stored_def by (erule list_all2_mono) (simp add: holds_update_before)

lemma stored_snoc:
  "stored mem u (vs @ [v]) (ds @ [d]) \<longleftrightarrow> stored mem u vs ds \<and> holds mem v (d @ [NUL]) \<and> v + length d < u"
proof (cases "length vs = length ds")
  case True
  then show ?thesis by (simp add: stored_def list_all2_append)
next
  case False
  then show ?thesis unfolding stored_def using list_all2_lengthD by fastforce
qed

lemma stored_length: "stored mem u vs ds \<Longrightarrow> length vs = length ds"
  unfolding stored_def by (rule list_all2_lengthD)

lemma encode_rest_Cons:
  obtains t r where "encode_rest es = t # r" "uchar t < 128" "guac_utf8_charsize (uchar t) = 1"
    "es = [] \<and> t = CHR '';'' \<and> r = [] \<or> (\<exists>e es'. es = e # es' \<and> t = CHR '','' \<and> r = encode_element e @ encode_rest es')"
proof (cases es)
  case Nil
  then show thesis by (intro that [of "CHR '';''" "[]"]) (simp_all add: guac_utf8_charsize_def)
next
  case (Cons e es')
  then show thesis by (intro that [of "CHR '',''" "encode_element e @ encode_rest es'"])
    (simp_all add: guac_utf8_charsize_def)
qed

text \<open>
  What a call given \<open>len\<close> bytes achieves when \<open>r\<close> remains of an instruction with elements \<open>es\<close>: it
  consumes \<open>k\<close> bytes and either that ends the instruction, or less remains. It consumes nothing only
  if it was given less than what remains.
\<close>

definition advanced :: "string list \<Rightarrow> bytes \<Rightarrow> nat \<Rightarrow> nat \<Rightarrow> nat \<Rightarrow> bytes \<Rightarrow> guac_parser \<Rightarrow> bool" where
  "advanced es r len k u mem p \<longleftrightarrow>
     k = length r \<and> all_read mem u es p \<or>
     k < length r \<and> (k = 0 \<longrightarrow> len < length r) \<and>
     (\<exists>ds' es'. ds' @ es' = es \<and> awaiting mem u ds' es' p (drop k r))"

lemma advanced_done: "k = length r \<Longrightarrow> all_read mem u es p \<Longrightarrow> advanced es r len k u mem p"
  by (simp add: advanced_def)

lemma advanced_more:
  "awaiting mem u ds' es' p (drop k r) \<Longrightarrow> ds' @ es' = es \<Longrightarrow> k < length r \<Longrightarrow>
   0 < k \<or> len < length r \<Longrightarrow> advanced es r len k u mem p"
  by (auto simp: advanced_def)

text \<open>One call in the middle of an element's content.\<close>

lemma append_content_awaiting:
  assumes ev: "elementv p = vs @ [v]" and st: "stored mem u vs ds" "parse_state p = GUAC_PARSE_CONTENT"
    and a: "holds mem v a" "v + length a = u"
    and b: "utf8_complete b" "element_length p = int (guac_utf8_strlen b)"
    and cs: "holds mem u cs" "cs @ later = (b @ encode_rest es) @ rest"
  shows "\<exists>k mem' p'. parser_append_content n u cs mem p = (int (n + k), mem', p') \<and> k \<le> length cs \<and>
    drop (u + k) mem' = drop (u + k) mem \<and> length mem' = length mem \<and>
    advanced (ds @ (a @ b) # es) (b @ encode_rest es) (length cs) k (u + k) mem' p'"
proof -
  obtain t r where t: "encode_rest es = t # r" "uchar t < 128" "guac_utf8_charsize (uchar t) = 1"
    "es = [] \<and> t = CHR '';'' \<and> r = [] \<or> (\<exists>e es'. es = e # es' \<and> t = CHR '','' \<and> r = encode_element e @ encode_rest es')"
    by (rule encode_rest_Cons)
  obtain k el fin where l: "parse_content_loop cs 0 (element_length p) = (k, el, fin)"
    by (metis prod_cases3)
  have "cs @ later = b @ t # (r @ rest)" using cs(2) t(1) by simp
  from parse_content_loop_prefix [OF b(1) this t(2) l [unfolded b(2)]]
  show ?thesis
  proof
    assume fin: "fin = Some t \<and> k = 0 + length b \<and> length b < length cs"
    let ?m = "mem[u + k := NUL]"
    have "u + k < length mem" using cs(1) fin by (simp add: holds_def)
    moreover have "holds mem u b" using fin holds_prefix [OF cs(1) cs(2) [unfolded append_assoc]] by simp
    then have "holds mem v (a @ b)" using a by (simp add: holds_append)
    ultimately have h: "holds ?m v ((a @ b) @ [NUL])"
      using holds_snoc_update [of mem v "a @ b" NUL] a fin by (simp add: add.assoc [symmetric])
    have s: "stored ?m (u + k + 1) (vs @ [v]) (ds @ [a @ b])"
      unfolding stored_snoc using h st(1) a fin
      by (intro conjI) (simp_all add: stored_update stored_mono [of _ u])
    let ?p = "p\<lparr>element_length := el\<rparr>"
    have l': "parse_content_loop cs 0 (element_length p) = (length b, el, Some t)" using l fin by simp
    have el: "el = 0" using parse_content_loop_end [OF l'] .
    have d: "drop (u + (k + 1)) ?m = drop (u + (k + 1)) mem" by simp
    from t(4) show ?thesis
    proof
      assume e: "es = [] \<and> t = CHR '';'' \<and> r = []"
      let ?q = "?p\<lparr>parse_state := GUAC_PARSE_COMPLETE, opcode := Some (elementv p ! 0),
        argc := int (length (elementv p)) - 1\<rparr>"
      have "parser_append_content n u cs mem p = (int (n + (k + 1)), ?m, ?q)"
        using l' e fin t(3) by (simp add: parser_append_content_def Let_def)
      moreover have "all_read ?m (u + (k + 1)) (ds @ (a @ b) # es) ?q"
        using s ev e by (simp add: all_read_def)
      ultimately show ?thesis using d fin e
        by (intro exI [of _ "k + 1"] exI [of _ ?m] exI [of _ ?q]) (auto intro: advanced_done)
    next
      assume "\<exists>e es'. es = e # es' \<and> t = CHR '','' \<and> r = encode_element e @ encode_rest es'"
      then obtain e es' where e: "es = e # es'" "t = CHR '',''" "r = encode_element e @ encode_rest es'"
        by blast
      let ?q = "?p\<lparr>parse_state := GUAC_PARSE_LENGTH\<rparr>"
      have "parser_append_content n u cs mem p = (int (n + (k + 1)), ?m, ?q)"
        using l' e fin t(3) by (simp add: parser_append_content_def Let_def)
      moreover have "awaiting ?m (u + (k + 1)) (ds @ [a @ b]) es ?q (drop (k + 1) (b @ encode_rest es))"
        using s ev fin el await_length [of ?q ?m "u + (k + 1)" "ds @ [a @ b]" "show_nat (guac_utf8_strlen e)" 0 e es']
        by (simp add: e(1) encode_element_def show_nat_digits)
      ultimately show ?thesis using d fin e
        by (intro exI [of _ "k + 1"] exI [of _ ?m] exI [of _ ?q] conjI
            advanced_more [where ds' = "ds @ [a @ b]" and es' = es])
          (simp_all add: encode_element_def)
    qed
  next
    assume "fin = None \<and> (\<exists>b1 b2. b = b1 @ b2 \<and> k = 0 + length b1 \<and> utf8_complete b2 \<and>
      el = int (guac_utf8_strlen b2) \<and> length b1 \<le> length cs \<and> (b1 = [] \<longrightarrow> length cs \<le> length b))"
    then obtain b1 b2 where q: "fin = None" "b = b1 @ b2" "k = length b1" "utf8_complete b2"
      "el = int (guac_utf8_strlen b2)" "length b1 \<le> length cs" "b1 = [] \<longrightarrow> length cs \<le> length b"
      by (metis add_0)
    have "holds mem u b1" using q(6) holds_prefix [OF cs(1) cs(2) [unfolded append_assoc q(2)]] by simp
    then have h: "holds mem v (a @ b1)" using a by (simp add: holds_append)
    have "awaiting mem (u + k) ds (((a @ b1) @ b2) # es) (p\<lparr>element_length := el\<rparr>) (b2 @ encode_rest es)"
      using h q ev st a by (intro await_content [of _ vs v]) (auto intro: stored_mono [of _ u])
    moreover have "parser_append_content n u cs mem p = (int (n + k), mem, p\<lparr>element_length := el\<rparr>)"
      using l q(1) by (simp add: parser_append_content_def)
    ultimately show ?thesis using q t(1)
      by (intro exI [of _ k] exI [of _ mem] exI [of _ "p\<lparr>element_length := el\<rparr>"] conjI advanced_more)
        auto
  qed
qed

lemma advanced_after:
  assumes "advanced es r' len' k u mem p" "r = x @ r'" "n = length x" "0 < n"
  shows "advanced es r len (n + k) u mem p"
  using assms by (auto simp: advanced_def)

text \<open>One call of \<open>guac_parser_append\<close> on a prefix of what is awaited.\<close>

lemma append_awaiting:
  assumes "awaiting mem u ds es p r" "length (ds @ es) < GUAC_INSTRUCTION_MAX_ELEMENTS"
    and "list_all good_element es" "u + len \<le> length mem" "take len (drop u mem) @ later = r @ rest"
  shows "\<exists>k mem' p'. guac_parser_append p mem u len = (int k, mem', p') \<and> k \<le> len \<and>
    drop (u + k) mem' = drop (u + k) mem \<and> length mem' = length mem \<and>
    advanced (ds @ es) r len k (u + k) mem' p'"
proof -
  define buf where "buf = take len (drop u mem)"
  have buf: "length buf = len" "holds mem u buf" using assms(4) by (simp_all add: buf_def holds_def)
  from assms(1) show ?thesis
  proof cases
    case (await_length cs v e es1)
    let ?m = "guac_utf8_strlen e"
    have m: "int ?m \<le> GUAC_INSTRUCTION_MAX_LENGTH" "utf8_complete e"
      using assms(3) await_length by (simp_all add: good_element_def)
    have ec: "length (elementv p) < GUAC_INSTRUCTION_MAX_ELEMENTS"
      using assms(2) await_length stored_length by fastforce
    have pre: "buf @ later = cs @ ''.'' @ (e @ encode_rest es1 @ rest)"
      using assms(5) await_length by (simp add: buf_def)
    note loop = parse_length_loop_prefix [OF await_length(5,7) m(1) pre, of 0]
    show ?thesis
    proof (cases "len \<le> length cs")
      case True
      have split: "cs = buf @ drop len cs"
        using True pre buf by (metis append_eq_append_conv_if append_take_drop_id)
      let ?w = "digits_val v buf" and ?p = "p\<lparr>element_length := int (digits_val v buf)\<rparr>"
      have w: "digits_val ?w (drop len cs) = ?m" "list_all is_digit (drop len cs)"
        using await_length(5,7) split by (metis digits_val_append, metis list_all_append)
      have "int ?w \<le> GUAC_INSTRUCTION_MAX_LENGTH" using digits_val_ge [of ?w "drop len cs"] w m by linarith
      then have "guac_parser_append p mem u len = (int len, mem, ?p)"
        using True loop buf ec await_length
        by (simp add: guac_parser_append_def Let_def buf_def [symmetric])
      moreover have "awaiting mem (u + len) ds es ?p (drop len r)"
        unfolding await_length(1,2) using True await_length w stored_mono [of mem u]
        by (simp add: awaiting.await_length [simplified])
      then have "advanced (ds @ es) r len len (u + len) mem ?p"
        using True await_length by (intro advanced_more) auto
      ultimately show ?thesis by auto
    next
      case False
      let ?n = "Suc (length cs)"
      let ?p = "p\<lparr>elementv := elementv p @ [u + ?n], parse_state := GUAC_PARSE_CONTENT,
        element_length := int ?m\<rparr>"
      have "guac_parser_append p mem u len = parser_append_content ?n (u + ?n) (drop ?n buf) mem ?p"
        using False loop buf ec await_length m
        by (simp add: guac_parser_append_def Let_def buf_def [symmetric])
      moreover have "buf = take ?n buf @ drop ?n buf" by simp
      then have "holds mem (u + ?n) (drop ?n buf)" using False buf holds_append [of mem u "take ?n buf" "drop ?n buf"]
        by simp
      moreover have "drop ?n buf @ later = (e @ encode_rest es1) @ rest"
        using False buf arg_cong [OF pre, of "drop ?n"] by simp
      ultimately have "\<exists>k mem' p'. guac_parser_append p mem u len = (int (?n + k), mem', p') \<and>
          k \<le> length (drop ?n buf) \<and> drop (u + ?n + k) mem' = drop (u + ?n + k) mem \<and> length mem' = length mem \<and>
          advanced (ds @ ([] @ e) # es1) (e @ encode_rest es1) (length (drop ?n buf)) k (u + ?n + k) mem' p'"
        using await_length m buf False
        by (simp only:) (intro append_content_awaiting [where vs = "elementv p" and v = "u + ?n"];
              auto intro: stored_mono [of mem u] simp: holds_def)
      then obtain k mem' p' where r: "guac_parser_append p mem u len = (int (?n + k), mem', p')"
        "k \<le> length (drop ?n buf)" "drop (u + ?n + k) mem' = drop (u + ?n + k) mem" "length mem' = length mem"
        "advanced (ds @ ([] @ e) # es1) (e @ encode_rest es1) (length (drop ?n buf)) k (u + ?n + k) mem' p'"
        by blast
      from advanced_after [OF r(5), of r "cs @ ''.''" ?n len]
      have "advanced (ds @ es) r len (?n + k) (u + ?n + k) mem' p'" using await_length by simp
      with r buf False show ?thesis
        by (intro exI [of _ "?n + k"] exI [of _ mem'] exI [of _ p']) (simp add: add.assoc)
    qed
  next
    case (await_content vs v a b es1)
    have ec: "length (elementv p) < GUAC_INSTRUCTION_MAX_ELEMENTS"
      using assms(2) await_content stored_length [of mem u vs ds] by simp
    then have "guac_parser_append p mem u len = parser_append_content 0 u buf mem p"
      using await_content by (simp add: guac_parser_append_def buf_def)
    with append_content_awaiting [OF await_content(4,5,3,6-9) buf(2), of later es1 rest 0]
      assms(5) [folded buf_def] await_content(1,2) buf(1)
    show ?thesis by simp
  qed
qed

text \<open>Moving the memory region that holds an instruction, with its pointers.\<close>

lemma awaiting_move:
  assumes "awaiting mem u ds es p r" "list_all (\<lambda>v. lo \<le> v) (elementv p)" "d \<le> lo"
    and move: "\<And>v xs. lo \<le> v \<Longrightarrow> v + length xs \<le> u \<Longrightarrow> holds mem v xs \<Longrightarrow> holds mem' (v - d) xs"
    and p': "parse_state p' = parse_state p" "element_length p' = element_length p"
      "elementv p' = map (\<lambda>v. v - d) (elementv p)"
  shows "awaiting mem' (u - d) ds es p' r"
proof -
  have st: "stored mem' (u - d) (map (\<lambda>v. v - d) vs) ds" if "stored mem u vs ds" "list_all (\<lambda>v. lo \<le> v) vs" for vs ds
    using that
  proof (induction vs arbitrary: ds)
    case (Cons v vs)
    then obtain x xs where "ds = x # xs" by (cases ds) (auto simp: stored_def)
    with Cons assms(3) show ?case using move [of v "x @ [NUL]"] by (auto simp: stored_def)
  qed (simp add: stored_def)
  from assms(1) show ?thesis
  proof cases
    case (await_length cs v e es1)
    then show ?thesis unfolding await_length(1,2) using assms st
      by (intro awaiting.await_length) auto
  next
    case (await_content vs v a b es1)
    then have "lo \<le> v" "list_all (\<lambda>v. lo \<le> v) vs" using assms(2) by auto
    with await_content assms st move [of v a] show ?thesis unfolding await_content(1,2)
      by (intro awaiting.await_content [where vs = "map (\<lambda>v. v - d) vs" and v = "v - d" and a = a]) auto
  qed
qed

lemma shifted_holds:
  assumes "lo \<le> v" "v + length xs \<le> ue" "ue \<le> length (instructionbuf p)" "holds (instructionbuf p) v xs"
  shows "holds (instructionbuf (shifted lo ue p)) (v - lo) xs"
proof -
  let ?b = "instructionbuf p"
  have "take (length xs) (drop (v - lo) (take (ue - lo) (drop lo ?b))) = take (length xs) (drop v ?b)"
    using assms by (simp add: drop_take min_def)
  moreover have "length xs \<le> length (drop (v - lo) (take (ue - lo) (drop lo ?b)))" using assms by simp
  ultimately show ?thesis using assms by (simp add: holds_def shifted_def blit_def)
qed

lemma shifted_region:
  assumes "lo \<le> us" "us \<le> ue" "ue \<le> length (instructionbuf p)"
  shows "take (ue - us) (drop (us - lo) (instructionbuf (shifted lo ue p))) =
    take (ue - us) (drop us (instructionbuf p))"
proof -
  have "holds (instructionbuf p) us (take (ue - us) (drop us (instructionbuf p)))"
    using assms by (simp add: holds_def)
  from shifted_holds [OF assms(1) _ assms(3) this] assms show ?thesis by (simp add: holds_def)
qed

lemma awaiting_nonempty: "awaiting mem u ds es p r \<Longrightarrow> r \<noteq> [] \<and> parsing p"
  by (cases rule: awaiting.cases) (auto simp: parsing_def encode_rest_args)

lemma awaiting_room:
  assumes "read_inv lo us ue p" "awaiting (instructionbuf p) us ds es p r"
    and "parser_make_room us ue lo p = Some (Inr (us', ue', lo', p'))"
  shows "awaiting (instructionbuf p') us' ds es p' r"
    and "take (ue' - us') (drop us' (instructionbuf p')) = take (ue - us) (drop us (instructionbuf p))"
    and "us' - lo' = us - lo"
proof -
  have b: "lo \<le> us" "us \<le> ue" "ue \<le> length (instructionbuf p)" "list_all (\<lambda>v. lo \<le> v) (elementv p)"
    using assms(1) awaiting_nonempty [OF assms(2)] elements_above by (auto simp: read_inv_def)
  have s: "awaiting (instructionbuf (shifted lo ue p)) (us - lo) ds es (shifted lo ue p) r"
    using b by (intro awaiting_move [OF assms(2), where lo = lo]) (auto intro: shifted_holds)
  from assms(1) awaiting_nonempty [OF assms(2), THEN conjunct2]
  have "awaiting (instructionbuf p') us' ds es p' r \<and>
    take (ue' - us') (drop us' (instructionbuf p')) = take (ue - us) (drop us (instructionbuf p)) \<and>
    us' - lo' = us - lo"
  proof (cases rule: make_room_cases)
    case full
    with assms show ?thesis by simp
  next
    case shift
    with assms(3) s b shifted_region [of lo us ue p] show ?thesis by auto
  next
    case room
    with assms show ?thesis by simp
  qed
  then show "awaiting (instructionbuf p') us' ds es p' r"
    "take (ue' - us') (drop us' (instructionbuf p')) = take (ue - us) (drop us (instructionbuf p))"
    "us' - lo' = us - lo" by simp_all
qed

lemma awaiting_fill:
  assumes "awaiting (instructionbuf p) us ds es p r" "us \<le> ue" "ue + length bs \<le> length (instructionbuf p)"
  defines "p' \<equiv> p\<lparr>instructionbuf := blit (instructionbuf p) ue bs\<rparr>"
  shows "awaiting (instructionbuf p') us ds es p' r"
    and "take (ue + length bs - us) (drop us (instructionbuf p')) =
      take (ue - us) (drop us (instructionbuf p)) @ bs"
proof -
  have "awaiting (instructionbuf p') (us - 0) ds es p' r"
    using assms(2,3) by (intro awaiting_move [OF assms(1), where lo = 0])
      (auto simp: p'_def list_all_iff intro: holds_blit_before)
  then show "awaiting (instructionbuf p') us ds es p' r" by simp
  show "take (ue + length bs - us) (drop us (instructionbuf p')) =
      take (ue - us) (drop us (instructionbuf p)) @ bs"
    using assms(2,3) by (simp add: p'_def blit_def take_drop)
qed

lemma consumed_region:
  assumes "take (ue - us) (drop us m) @ i = r @ rest" "k \<le> ue - us" "k \<le> length r" "ue \<le> length m"
    and "drop (us + k) m' = drop (us + k) m"
  shows "take (ue - (us + k)) (drop (us + k) m') @ i = drop k r @ rest"
proof -
  have "take (ue - (us + k)) (drop (us + k) m') = drop k (take (ue - us) (drop us m))"
    unfolding assms(5) by (simp add: drop_take add.commute diff_diff_left)
  also have "\<dots> @ i = drop k (take (ue - us) (drop us m) @ i)" using assms(2,4) by simp
  also have "\<dots> = drop k r @ rest" unfolding assms(1) using assms(3) by simp
  finally show ?thesis .
qed

text \<open>Between two instructions: nothing of the next one has been parsed.\<close>

definition parser_idle :: "guac_parser \<Rightarrow> bool" where
  "parser_idle p \<longleftrightarrow> length (instructionbuf p) = INSTRUCTIONBUF_SIZE \<and> unparsed_start p \<le> unparsed_end p \<and>
     unparsed_end p \<le> INSTRUCTIONBUF_SIZE \<and>
     (parse_state p = GUAC_PARSE_COMPLETE \<or>
      parse_state p = GUAC_PARSE_LENGTH \<and> elementv p = [] \<and> element_length p = 0)"

text \<open>
  A complete instruction: it has between 1 and the maximum number of elements, \<open>opcode\<close> is the
  first, \<open>argc\<close> counts the others, and every pointer denotes a string that ends inside the part of
  the buffer that has been parsed.
\<close>

definition parser_complete :: "guac_parser \<Rightarrow> bool" where
  "parser_complete p \<longleftrightarrow> parse_state p = GUAC_PARSE_COMPLETE \<and> elementv p \<noteq> [] \<and>
     length (elementv p) \<le> GUAC_INSTRUCTION_MAX_ELEMENTS \<and> opcode p = Some (elementv p ! 0) \<and>
     argc p = int (length (elementv p)) - 1 \<and>
     list_all (\<lambda>v. v + length (cstr_at (instructionbuf p) v) < unparsed_start p) (elementv p)"

lemma idle_inv:
  "parser_idle p \<Longrightarrow> read_inv (unparsed_start p) (unparsed_start p) (unparsed_end p)
     (if parse_state p = GUAC_PARSE_COMPLETE then guac_parser_reset p else p)"
  by (auto simp: parser_idle_def read_inv_def elements_ok_def guac_parser_reset_def finished_def)

lemma terminated_cstr:
  assumes "terminated mem u v" "u \<le> length mem"
  shows "v + length (cstr_at mem v) < u"
proof -
  from assms(1) obtain k where k: "v \<le> k" "k < u" "mem ! k = NUL" by (auto simp: terminated_def)
  have "length (takeWhile (\<lambda>c. c \<noteq> NUL) (drop v mem)) \<le> k - v"
  proof (rule ccontr)
    assume "\<not> ?thesis"
    then have "k - v < length (takeWhile (\<lambda>c. c \<noteq> NUL) (drop v mem))" by simp
    then have "takeWhile (\<lambda>c. c \<noteq> NUL) (drop v mem) ! (k - v) \<noteq> NUL"
      and "takeWhile (\<lambda>c. c \<noteq> NUL) (drop v mem) ! (k - v) = drop v mem ! (k - v)"
      using nth_mem set_takeWhileD takeWhile_nth by fast+
    with k assms show False by simp
  qed
  with k show ?thesis by (simp add: cstr_at_def)
qed

lemma complete_inv:
  assumes "parse_state p = GUAC_PARSE_COMPLETE" "read_inv lo us ue p"
  shows "parser_idle (p\<lparr>unparsed_start := us, unparsed_end := ue\<rparr>)"
    and "parser_complete (p\<lparr>unparsed_start := us, unparsed_end := ue\<rparr>)"
proof -
  from assms have "us \<le> length (instructionbuf p)" and f: "finished lo us (instructionbuf p) (elementv p)"
    by (auto simp: read_inv_def elements_ok_def)
  then have "list_all (\<lambda>v. v + length (cstr_at (instructionbuf p) v) < us) (elementv p)"
    by (auto simp: finished_def list_all_iff intro: terminated_cstr)
  with assms show "parser_idle (p\<lparr>unparsed_start := us, unparsed_end := ue\<rparr>)"
    "parser_complete (p\<lparr>unparsed_start := us, unparsed_end := ue\<rparr>)"
    by (simp_all add: parser_idle_def parser_complete_def read_inv_def elements_ok_def)
qed

lemma stored_elements:
  "stored mem u vs es \<Longrightarrow> list_all good_element es \<Longrightarrow> map (cstr_at mem) vs = es"
proof (induction vs arbitrary: es)
  case (Cons v vs)
  then obtain e es' where "es = e # es'" by (cases es) (auto simp: stored_def)
  with Cons show ?case by (auto simp: stored_def good_element_def holds_cstr_at)
qed (simp add: stored_def)

context socket_source
begin

text \<open>
  A turn that has to read: there is room, since the whole instruction fits the buffer, and on a calm
  source with more data to come it brings at least one byte.
\<close>

lemma starved_turn:
  assumes go: "parsing p" and a0: "guac_parser_append p (instructionbuf p) us (ue - us) = (0, mem, p0)"
    and inv: "read_inv lo us ue (p0\<lparr>instructionbuf := mem\<rparr>)"
    and aw: "awaiting mem us ds es (p0\<lparr>instructionbuf := mem\<rparr>) r"
    and left: "take (ue - us) (drop us mem) @ input (data s) = r @ rest"
    and short: "ue - us < length r" and fits: "us - lo + length r \<le> INSTRUCTIONBUF_SIZE"
    and src: "source s" "calm (data s)"
  obtains us' ue' lo' p' s' where "parser_read_loop t us ue lo p s = parser_read_loop t us' ue' lo' p' s'"
    "read_inv lo' us' ue' p'" "source s'" "calm (data s')" "awaiting (instructionbuf p') us' ds es p' r"
    "take (ue' - us') (drop us' (instructionbuf p')) @ input (data s') = r @ rest" "us' - lo' = us - lo"
    "2 * length (input (data s')) + (ue' - us') < 2 * length (input (data s)) + (ue - us)"
proof -
  let ?p1 = "p0\<lparr>instructionbuf := mem\<rparr>"
  have p1: "parsing ?p1" using awaiting_nonempty [OF aw] by simp
  then have "parse_state ?p1 \<noteq> GUAC_PARSE_ERROR" by (auto simp: parsing_def)
  note eq = read_loop_starved [OF go a0 this, of t lo s]
  have input: "input (data s) \<noteq> []"
  proof
    assume "input (data s) = []"
    with left have "length r \<le> ue - us" by (metis append_Nil2 length_append length_take le_add1 min.bounded_iff)
    with short show False by simp
  qed
  show thesis
  proof (rule make_room_inv [OF inv p1])
    assume "parser_make_room us ue lo ?p1 = Some (Inl (Parser_Status GUAC_STATUS_NO_MEMORY))"
    then have "lo = 0" "ue = INSTRUCTIONBUF_SIZE" by (auto simp: parser_make_room_def split: if_splits)
    with short fits show thesis by linarith
  next
    fix us' ue' lo' p2
    assume room: "parser_make_room us ue lo ?p1 = Some (Inr (us', ue', lo', p2))"
      and i: "read_inv lo' us' ue' p2" "ue' < INSTRUCTIONBUF_SIZE" "ue' - us' = ue - us"
    have "awaiting (instructionbuf ?p1) us ds es ?p1 r" using aw by simp
    note moved = awaiting_room [OF inv this room]
    have b: "us' \<le> ue'" "length (instructionbuf p2) = INSTRUCTIONBUF_SIZE" using i(1) by (auto simp: read_inv_def)
    from src(1) i(2) show thesis
    proof (cases rule: fill_cases [where t = t and p = p2])
      case (fail e s')
      with input src(2) show thesis by simp
    next
      case (more bs s')
      note filled = awaiting_fill [OF moved(1) b(1), of bs]
      have "length (input (data s)) = length bs + length (input (data s'))" "0 < length bs"
        using more by auto
      then have "2 * length (input (data s')) + (ue' + length bs - us') <
          2 * length (input (data s)) + (ue - us)" using i(3) b(1) by linarith
      with more filled b moved left src(2) fill_inv [OF i(1) more(4)] show thesis
        by (intro that [of us' "ue' + length bs" lo' "p2\<lparr>instructionbuf := blit (instructionbuf p2) ue' bs\<rparr>" s'])
          (simp_all add: eq room)
    qed
  qed
qed

text \<open>
  However the source divides the data into reads, the loop ends with exactly the elements that
  were encoded, and with the bytes that follow them unread.
\<close>

lemma read_loop_awaiting:
  "read_inv lo us ue p \<Longrightarrow> source s \<Longrightarrow> calm (data s) \<Longrightarrow> awaiting (instructionbuf p) us ds es p r \<Longrightarrow>
   length (ds @ es) < GUAC_INSTRUCTION_MAX_ELEMENTS \<Longrightarrow> list_all good_element (ds @ es) \<Longrightarrow>
   take (ue - us) (drop us (instructionbuf p)) @ input (data s) = r @ rest \<Longrightarrow>
   us - lo + length r \<le> INSTRUCTIONBUF_SIZE \<Longrightarrow>
   \<exists>us' ue' p' s'. parser_read_loop t us ue lo p s = Some (Inr (us', ue'), p', s') \<and> source s' \<and>
     calm (data s') \<and> all_read (instructionbuf p') us' (ds @ es) p' \<and> (\<exists>lo'. read_inv lo' us' ue' p') \<and>
     take (ue' - us') (drop us' (instructionbuf p')) @ input (data s') = rest"
proof (induction "2 * length (input (data s)) + (ue - us)" arbitrary: lo us ue p s ds es r rule: less_induct)
  case less
  let ?goal = "\<lambda>x. \<exists>us' ue' p' s'. x = Some (Inr (us', ue'), p', s') \<and> source s' \<and>
     calm (data s') \<and> all_read (instructionbuf p') us' (ds @ es) p' \<and> (\<exists>lo'. read_inv lo' us' ue' p') \<and>
     take (ue' - us') (drop us' (instructionbuf p')) @ input (data s') = rest"
  have b: "lo \<le> us" "us \<le> ue" "ue \<le> INSTRUCTIONBUF_SIZE" "length (instructionbuf p) = INSTRUCTIONBUF_SIZE"
    using less.prems(1) by (auto simp: read_inv_def)
  have go: "parsing p" "r \<noteq> []" using awaiting_nonempty [OF less.prems(4)] by auto
  obtain k mem p0 where a: "guac_parser_append p (instructionbuf p) us (ue - us) = (int k, mem, p0)"
    "k \<le> ue - us" "drop (us + k) mem = drop (us + k) (instructionbuf p)" "length mem = length (instructionbuf p)"
    "advanced (ds @ es) r (ue - us) k (us + k) mem p0"
    using append_awaiting [OF less.prems(4,5) _ _ less.prems(7)] less.prems(6) b by auto
  define p1 where "p1 = p0\<lparr>instructionbuf := mem\<rparr>"
  have inv: "read_inv lo (us + k) ue p1" using append_inv(3) [OF less.prems(1) a(1)] by (simp add: p1_def)
  have kr: "k \<le> length r" using a(5) by (auto simp: advanced_def)
  have left: "take (ue - (us + k)) (drop (us + k) (instructionbuf p1)) @ input (data s) = drop k r @ rest"
    using consumed_region [OF less.prems(7) a(2) kr _ a(3)] b by (simp add: p1_def)
  have step: "k \<noteq> 0 \<Longrightarrow> parser_read_loop t us ue lo p s = parser_read_loop t (us + k) ue lo p1 s"
    using read_loop_step [OF go(1) a(1), folded p1_def] by simp
  from a(5) consider (finish) "k = length r" "all_read mem (us + k) (ds @ es) p0"
    | (more) ds' es' where "k < length r" "k = 0 \<longrightarrow> ue - us < length r" "ds' @ es' = ds @ es"
      "awaiting mem (us + k) ds' es' p0 (drop k r)"
    by (auto simp: advanced_def)
  then show ?case
  proof cases
    case finish
    then have "all_read (instructionbuf p1) (us + k) (ds @ es) p1" by (simp add: p1_def all_read_def)
    moreover from this have "parser_read_loop t (us + k) ue lo p1 s = Some (Inr (us + k, ue), p1, s)"
      by (simp add: all_read_def parser_read_loop.simps [of t _ ue lo p1 s])
    ultimately show ?thesis using step left finish go(2) inv less.prems by auto
  next
    case more
    note prems = less.prems(5) [folded more(3)] less.prems(6) [folded more(3)]
    have aw: "awaiting (instructionbuf p1) (us + k) ds' es' p1 (drop k r)"
      using awaiting_move [OF more(4), where lo = 0 and d = 0 and mem' = mem and p' = p1]
      by (simp add: p1_def list_all_iff)
    show ?thesis
    proof (cases "k = 0")
      case False
      then have "2 * length (input (data s)) + (ue - (us + k)) < 2 * length (input (data s)) + (ue - us)"
        using a(2) by linarith
      from less.hyps [OF this inv less.prems(2,3) aw prems left] less.prems(8) kr b more(1)
      show ?thesis unfolding step [OF False] more(3) by simp
    next
      case True
      have pre: "guac_parser_append p (instructionbuf p) us (ue - us) = (0, mem, p0)"
        "read_inv lo us ue (p0\<lparr>instructionbuf := mem\<rparr>)" "awaiting mem us ds' es' (p0\<lparr>instructionbuf := mem\<rparr>) r"
        "take (ue - us) (drop us mem) @ input (data s) = r @ rest" "ue - us < length r"
        using a inv aw left more(2) True by (simp_all add: p1_def)
      show ?thesis
      proof (rule starved_turn [OF go(1) pre less.prems(8,2,3), of t])
        fix us' ue' lo' p' s'
        assume turn: "parser_read_loop t us ue lo p s = parser_read_loop t us' ue' lo' p' s'"
          "read_inv lo' us' ue' p'" "source s'" "calm (data s')" "awaiting (instructionbuf p') us' ds' es' p' r"
          "take (ue' - us') (drop us' (instructionbuf p')) @ input (data s') = r @ rest" "us' - lo' = us - lo"
          "2 * length (input (data s')) + (ue' - us') < 2 * length (input (data s)) + (ue - us)"
        from less.hyps [OF turn(8,2,3,4,5) prems turn(6)] less.prems(8) turn(7)
        show ?thesis unfolding turn(1) more(3) by simp
      qed
    qed
  qed
qed

text \<open>The bytes that the next read starts with: those left in the buffer, then the input.\<close>

definition pending :: "guac_parser \<Rightarrow> 'd guac_socket \<Rightarrow> bytes" where
  "pending p s = take (unparsed_end p - unparsed_start p) (drop (unparsed_start p) (instructionbuf p)) @
     input (data s)"

lemma read_returns:
  assumes "parser_idle p" "source s"
  shows "\<exists>res p' s'. guac_parser_read p s t = Some (res, p', s') \<and> source s' \<and>
    (res = Inr () \<longrightarrow> parser_idle p' \<and> parser_complete p') \<and>
    (res = Inl (Parser_Status GUAC_STATUS_PROTOCOL_ERROR) \<longleftrightarrow> parse_state p' = GUAC_PARSE_ERROR)"
proof -
  let ?p = "if parse_state p = GUAC_PARSE_COMPLETE then guac_parser_reset p else p"
  have "read_inv (unparsed_start p) (unparsed_start p) (unparsed_end p) ?p"
    using assms(1) by (rule idle_inv)
  from read_loop_returns [OF this assms(2), of t] obtain res p' s'
    where r: "parser_read_loop t (unparsed_start p) (unparsed_end p) (unparsed_start p) ?p s = Some (res, p', s')"
      "source s'" "read_post res p'" by blast
  show ?thesis
  proof (cases res)
    case (Inl e)
    with r show ?thesis by (auto simp: guac_parser_read_def Let_def read_post_def)
  next
    case (Inr u)
    then obtain us ue where res: "res = Inr (us, ue)" by (cases u) simp
    with r(3) obtain lo where c: "parse_state p' = GUAC_PARSE_COMPLETE" "read_inv lo us ue p'"
      by (auto simp: read_post_def)
    let ?q = "p'\<lparr>unparsed_start := us, unparsed_end := ue\<rparr>"
    have "guac_parser_read p s t = Some (Inr (), ?q, s')"
      using r(1) res by (simp add: guac_parser_read_def Let_def)
    moreover have "parser_idle ?q" "parser_complete ?q" using complete_inv [OF c] by simp_all
    ultimately show ?thesis using r(2) c(1) by (intro exI [of _ "Inr ()"] exI [of _ ?q] exI [of _ s']) simp
  qed
qed

lemma read_encoded:
  assumes "parser_idle p" "source s" "calm (data s)" "es \<noteq> []" "list_all good_element es"
    and "length es < GUAC_INSTRUCTION_MAX_ELEMENTS" "length (encode_instruction es) \<le> INSTRUCTIONBUF_SIZE"
    and "pending p s = encode_instruction es @ rest"
  shows "\<exists>p' s'. guac_parser_read p s t = Some (Inr (), p', s') \<and> parser_elements p' = es \<and>
    parser_complete p' \<and> parser_idle p' \<and> source s' \<and> calm (data s') \<and> pending p' s' = rest"
proof -
  let ?p = "if parse_state p = GUAC_PARSE_COMPLETE then guac_parser_reset p else p"
  obtain e es' where es: "es = e # es'" using assms(4) by (cases es) auto
  have "awaiting (instructionbuf ?p) (unparsed_start p) [] es ?p (encode_instruction es)"
    unfolding es encode_instruction.simps encode_element_def append_assoc
    using assms(1) by (intro await_length [where v = 0])
      (auto simp: parser_idle_def stored_def guac_parser_reset_def show_nat_digits)
  moreover have buf: "instructionbuf ?p = instructionbuf p" by (simp add: guac_parser_reset_def)
  ultimately have aw: "awaiting (instructionbuf ?p) (unparsed_start p) [] es ?p (encode_instruction es)" by simp
  from read_loop_awaiting [OF idle_inv [OF assms(1)] assms(2,3) aw, of rest t] assms(5-8)
  obtain us ue p' s' lo where
    r: "parser_read_loop t (unparsed_start p) (unparsed_end p) (unparsed_start p) ?p s = Some (Inr (us, ue), p', s')"
      "source s'" "calm (data s')" "all_read (instructionbuf p') us es p'" "read_inv lo us ue p'"
      "take (ue - us) (drop us (instructionbuf p')) @ input (data s') = rest"
    by (auto simp: pending_def buf)
  let ?q = "p'\<lparr>unparsed_start := us, unparsed_end := ue\<rparr>"
  have "guac_parser_read p s t = Some (Inr (), ?q, s')"
    using r(1) by (simp add: guac_parser_read_def Let_def)
  moreover have "parser_idle ?q" "parser_complete ?q"
    using complete_inv [OF _ r(5)] r(4) by (simp_all add: all_read_def)
  moreover have "parser_elements ?q = es" using stored_elements [OF _ assms(5), of "instructionbuf p'" us "elementv p'"] r(4)
    by (simp add: all_read_def parser_elements_def)
  ultimately show ?thesis using r by (intro exI [of _ ?q] exI [of _ s']) (simp add: pending_def)
qed

end

section \<open>Properties of the parser on a descriptor socket\<close>

text \<open>Memory for a parser, all zero.\<close>

definition zero_parser :: guac_parser where
  "zero_parser = \<lparr>opcode = None, argc = 0, parse_state = GUAC_PARSE_LENGTH, element_length = 0, elementv = [],
     unparsed_start = 0, unparsed_end = 0, instructionbuf = replicate INSTRUCTIONBUF_SIZE NUL\<rparr>"

lemma zero_parser_idle [simp]:
  "parser_idle (guac_parser_alloc zero_parser)"
  "unparsed_start (guac_parser_alloc zero_parser) = 0"
  "unparsed_end (guac_parser_alloc zero_parser) = 0"
  by (simp_all add: zero_parser_def parser_idle_def guac_parser_alloc_def guac_parser_reset_def)

text \<open>
  C11: reading an instruction from a descriptor always returns, whatever bytes arrive and however the
  kernel splits, delays or fails the reads. A successful read leaves a complete instruction: between
  1 and 128 elements, the opcode first, each a NUL-terminated string inside the parsed part of the
  32768-byte buffer. The parser's error state is reported as a protocol error and nothing else is.
\<close>

theorem guac_parser_read_total:
  assumes "parser_idle p" "fd_socket s"
  shows "\<exists>res p' s'. guac_parser_read p s usec_timeout = Some (res, p', s') \<and>
    (res = Inr () \<longrightarrow> parser_idle p' \<and> parser_complete p') \<and>
    (res = Inl (Parser_Status GUAC_STATUS_PROTOCOL_ERROR) \<longleftrightarrow> parse_state p' = GUAC_PARSE_ERROR)"
  using fd_source.read_returns [OF assms(1) fd_socket_contracts(2) [OF assms(2)]] by blast

theorem guac_parser_read_total_witness:
  "\<exists>res p' s'. guac_parser_read (guac_parser_alloc zero_parser) (quiet_socket ''3.nop?'') 1000 = Some (res, p', s') \<and>
    (res = Inr () \<longrightarrow> parser_complete p')"
  using guac_parser_read_total [of "guac_parser_alloc zero_parser" "quiet_socket ''3.nop?''" 1000] by auto

text \<open>
  C10: the parser reads back what is encoded. If the unparsed bytes and the input of the descriptor
  start with the encoding of at most 127 acceptable elements that fits the buffer, then, however the
  data is divided into reads, the read succeeds with exactly these elements and leaves exactly the
  bytes after them for the next read.
\<close>

theorem guac_parser_read_encoded:
  assumes "parser_idle p" "fd_socket s" "fd_calm (data s)"
    and "es \<noteq> []" "list_all good_element es" "length es < GUAC_INSTRUCTION_MAX_ELEMENTS"
    and "length (encode_instruction es) \<le> INSTRUCTIONBUF_SIZE"
    and "take (guac_parser_length p) (drop (unparsed_start p) (instructionbuf p)) @ fd_in (fd (data s)) =
      encode_instruction es @ rest"
  shows "\<exists>p' s'. guac_parser_read p s usec_timeout = Some (Inr (), p', s') \<and>
    parser_elements p' = es \<and> argc p' = int (length es) - 1 \<and> parser_idle p' \<and>
    take (guac_parser_length p') (drop (unparsed_start p') (instructionbuf p')) @ fd_in (fd (data s')) = rest"
proof -
  from fd_source.read_encoded [OF assms(1) fd_socket_contracts(2) [OF assms(2)] assms(3-7), of rest usec_timeout]
    assms(8)
  obtain p' s' where r: "guac_parser_read p s usec_timeout = Some (Inr (), p', s')" "parser_elements p' = es"
    "parser_complete p'" "parser_idle p'" "fd_source.pending p' s' = rest"
    unfolding fd_source.pending_def guac_parser_length_def by blast
  moreover have "argc p' = int (length es) - 1"
    using r(3) by (simp add: parser_complete_def r(2) [symmetric] parser_elements_def)
  ultimately show ?thesis unfolding fd_source.pending_def guac_parser_length_def by blast
qed

theorem guac_parser_read_encoded_witness:
  "\<exists>p' s'. guac_parser_read (guac_parser_alloc zero_parser)
      (guac_socket_open ((quiet_fd ''4.sync,1.5;3.nop;'')\<lparr>read_plan := [Some 0, Some 6]\<rparr>) (\<lambda>_. 0)) 1000 =
      Some (Inr (), p', s') \<and> parser_elements p' = [''sync'', ''5''] \<and> argc p' = 1"
proof -
  let ?s = "guac_socket_open ((quiet_fd ''4.sync,1.5;3.nop;'')\<lparr>read_plan := [Some 0, Some 6]\<rparr>) (\<lambda>_. 0)"
  let ?p = "guac_parser_alloc zero_parser"
  have enc: "encode_instruction [''sync'', ''5''] = ''4.sync,1.5;''" by code_simp
  have good: "list_all good_element [''sync'', ''5'']" by code_simp
  have calm: "fd_calm (data ?s)"
    by (simp add: fd_calm_def quiet_fd_def guac_socket_open_def guac_socket_alloc_def)
  have len: "length (encode_instruction [''sync'', ''5'']) \<le> INSTRUCTIONBUF_SIZE"
    unfolding enc by (simp add: INSTRUCTIONBUF_SIZE_def)
  have input: "take (guac_parser_length ?p) (drop (unparsed_start ?p) (instructionbuf ?p)) @ fd_in (fd (data ?s)) =
      encode_instruction [''sync'', ''5''] @ ''3.nop;''"
    unfolding enc by (simp add: guac_parser_length_def quiet_fd_def guac_socket_open_def guac_socket_alloc_def)
  from guac_parser_read_encoded [OF zero_parser_idle(1) fd_socket_open calm _ good _ len input, of 1000]
  show ?thesis by (auto simp: GUAC_INSTRUCTION_MAX_ELEMENTS_def)
qed

lemma wrap32_cong: "x mod 2 ^ 32 = y mod 2 ^ 32 \<Longrightarrow> wrap32 x = wrap32 y"
  unfolding wrap32_def by (metis mod_add_left_eq)

lemma wrap32_mod: "wrap32 x mod 2 ^ 32 = x mod 2 ^ 32"
proof -
  have "wrap32 x mod 2 ^ 32 = ((x + 2 ^ 31) mod 2 ^ 32 - 2 ^ 31) mod 2 ^ 32" by (simp add: wrap32_def)
  also have "\<dots> = (x + 2 ^ 31 - 2 ^ 31) mod 2 ^ 32" by (rule mod_diff_left_eq)
  finally show ?thesis by simp
qed

lemma wrap32_step: "wrap32 (wrap32 x * 10 + y) = wrap32 (x * 10 + y)"
proof (rule wrap32_cong)
  have "(wrap32 x * 10 + y) mod 2 ^ 32 = ((wrap32 x mod 2 ^ 32) * 10 + y) mod 2 ^ 32" by (metis mod_add_left_eq mod_mult_left_eq)
  then show "(wrap32 x * 10 + y) mod 2 ^ 32 = (x * 10 + y) mod 2 ^ 32" unfolding wrap32_mod by (metis mod_add_left_eq mod_mult_left_eq)
qed

text \<open>The loop over a length of any number of digits: what it computes is the number modulo \<open>2 ^ 32\<close>.\<close>

lemma parse_length_loop_wraps:
  "list_all is_digit ds \<Longrightarrow> parse_length_loop (ds @ CHR ''.'' # rest) n (wrap32 (int v)) =
    Some (Suc (n + length ds), wrap32 (int (digits_val v ds)), True)"
proof (induction ds arbitrary: n v)
  case Nil
  then show ?case by (simp add: is_digit_def)
next
  case (Cons d ds)
  have "wrap32 (wrap32 (int v) * 10 + uchar d - 48) = wrap32 (int v * 10 + (uchar d - 48))"
    using wrap32_step [of "int v" "uchar d - 48"] by (simp add: algebra_simps)
  also have "\<dots> = wrap32 (int (v * 10 + nat (uchar d - 48)))" using Cons.prems by (simp add: is_digit_def)
  finally show ?case using Cons.IH [of "Suc n" "v * 10 + nat (uchar d - 48)"] Cons.prems by simp
qed

lemma parse_content_loop_full:
  "utf8_complete b \<Longrightarrow> guac_utf8_charsize (uchar t) = 1 \<Longrightarrow>
    parse_content_loop (b @ t # rest) n (int (guac_utf8_strlen b)) = (n + length b, 0, Some t)"
proof (induction b arbitrary: n rule: utf8_complete.induct)
  case 1
  then show ?case by (simp add: parse_content_loop_Cons)
next
  case (2 c str)
  let ?k = "guac_utf8_charsize (uchar c)"
  have k: "?k \<le> Suc (length str)" "utf8_complete (drop (?k - 1) str)" "0 < ?k" using "2.prems"(1) by simp_all
  have d: "drop ?k (c # str @ t # rest) = drop (?k - 1) str @ t # rest" "drop ?k (c # str) = drop (?k - 1) str"
    using k(1, 3) by (auto simp: drop_Cons')
  from "2.IH" [OF k(2) "2.prems"(2), of "n + ?k"] k show ?case
    by (simp add: parse_content_loop_Cons strlen_Cons d del: drop_Cons)
qed

text \<open>
  C21: the length of an element is read into a 32-bit integer before it is compared with the maximum. So for every
  element and every multiple of \<open>2 ^ 32\<close>, however many digits it has, an element whose length is announced as
  that much more than it is passes the check and is parsed as if the length were right.
\<close>

theorem guac_parser_length_wraps:
  assumes "parse_state p = GUAC_PARSE_LENGTH" "element_length p = 0" "length (elementv p) < GUAC_INSTRUCTION_MAX_ELEMENTS"
    and "good_element e" "start + len \<le> length mem"
    and "take len (drop start mem) = show_nat (k * 2 ^ 32 + guac_utf8_strlen e) @ ''.'' @ e @ '';''"
  shows "\<exists>mem' p'. guac_parser_append p mem start len = (int len, mem', p') \<and> parse_state p' = GUAC_PARSE_COMPLETE \<and>
    length (elementv p') = length (elementv p) + 1 \<and> cstr_at mem' (last (elementv p')) = e"
proof -
  let ?ds = "show_nat (k * 2 ^ 32 + guac_utf8_strlen e)" and ?n = "guac_utf8_strlen e"
  let ?m = "Suc (length ?ds)"
  have e: "utf8_complete e" "NUL \<notin> set e" "int ?n \<le> 8192" using assms(4) by (simp_all add: good_element_def GUAC_INSTRUCTION_MAX_LENGTH_def)
  have len: "len = ?m + length e + 1" using arg_cong [OF assms(6), of length] assms(5) by simp
  have "wrap32 (int (k * 2 ^ 32 + ?n)) = wrap32 (int ?n)" by (rule wrap32_cong) simp
  then have "parse_length_loop (take len (drop start mem)) 0 0 = Some (?m, int ?n, True)"
    using parse_length_loop_wraps [OF show_nat_digits, of "k * 2 ^ 32 + ?n" "e @ '';''" 0 0] e(3) assms(6) by simp
  note loop = this
  have semi: "guac_utf8_charsize (uchar (CHR '';'')) = 1" by (simp add: guac_utf8_charsize_def)
  have c: "parse_content_loop (e @ '';'') 0 (int ?n) = (length e, 0, Some (CHR '';''))"
    using parse_content_loop_full [OF e(1) semi, of "[]" 0] by simp
  let ?v = "start + ?m"
  have "drop ?m (take len (drop start mem)) = e @ '';''" using assms(6) by simp
  then have rest: "take (length e + 1) (drop ?v mem) = e @ '';''" using len by (simp add: drop_take ac_simps)
  then have "holds mem ?v (e @ '';'')" using assms(5) len by (simp add: holds_def)
  then have "holds (mem[?v + length e := NUL]) ?v (e @ [NUL])"
    using len assms(5) by (simp add: holds_def take_update_swap drop_update_swap list_update_append)
  then have str: "cstr_at (mem[?v + length e := NUL]) ?v = e" using holds_cstr_at e(2) by blast
  show ?thesis
    using assms(1-3, 6) loop e(3) c semi str len
    by (simp add: guac_parser_append_def parser_append_content_def GUAC_INSTRUCTION_MAX_LENGTH_def Let_def)
qed

theorem guac_parser_length_wraps_witness:
  "\<exists>mem' p'. guac_parser_append
         \<lparr>opcode = None, argc = 0, parse_state = GUAC_PARSE_LENGTH, element_length = 0, elementv = [],
          unparsed_start = 0, unparsed_end = 0, instructionbuf = []\<rparr> ''4294967297.x;'' 0 13 = (13, mem', p') \<and>
     parse_state p' = GUAC_PARSE_COMPLETE \<and> cstr_at mem' (last (elementv p')) = ''x''"
proof -
  have x: "good_element ''x''" "guac_utf8_strlen ''x'' = 1" by code_simp+
  have step: "10 \<le> n \<Longrightarrow> show_nat n = show_nat (n div 10) @ [digit_char (n mod 10)]" "n < 10 \<Longrightarrow> show_nat n = [digit_char n]" for n
    by (subst show_nat.simps, simp)+
  have digits: "digit_char 1 = CHR ''1''" "digit_char 2 = CHR ''2''" "digit_char 4 = CHR ''4''" "digit_char 6 = CHR ''6''"
    "digit_char 7 = CHR ''7''" "digit_char 9 = CHR ''9''" by code_simp+
  have "show_nat 4294967297 = ''4294967297''" by (simp add: step digits [unfolded One_nat_def] digits)
  then have "''4294967297.x;'' = show_nat (1 * 2 ^ 32 + guac_utf8_strlen ''x'') @ ''.'' @ ''x'' @ '';''" using x(2) by simp
  moreover note x(1)
  ultimately show ?thesis
    using guac_parser_length_wraps [of "\<lparr>opcode = None, argc = 0, parse_state = GUAC_PARSE_LENGTH, element_length = 0, elementv = [],
          unparsed_start = 0, unparsed_end = 0, instructionbuf = []\<rparr>" "''x''" 0 13 "''4294967297.x;''" 1]
    by (auto simp: GUAC_INSTRUCTION_MAX_ELEMENTS_def)
qed

end
