(* ===== verification/Pool.thy ===== *)
theory Pool
  imports Prelude
begin

text \<open>
  \<open>libguac/pool.c\<close>: pools of integers that are handed out and given back, and their clients: the
  streams and objects of a user (\<open>libguac/user.c\<close>), and the streams, layers and buffers of a client
  (\<open>libguac/client.c\<close>). Each call runs under the pool's mutex and is one step here. The allocation of
  the small nodes that hold freed integers is assumed to succeed.
\<close>

section \<open>Pools\<close>

text \<open>\<open>free_ints\<close> is the linked list from \<open>__head\<close> to \<open>__tail\<close>.\<close>

record guac_pool =
  min_size :: int
  active :: int
  next_value :: int
  free_ints :: "int list"

definition guac_pool_alloc :: "int \<Rightarrow> guac_pool" where
  "guac_pool_alloc n = \<lparr>min_size = n, active = 0, next_value = 0, free_ints = []\<rparr>"

text \<open>\<open>__guac_pool_next_int\<close>.\<close>

definition pool_next_int :: "guac_pool \<Rightarrow> (int \<times> guac_pool) outcome" where
  "pool_next_int p =
     guac_assert (next_value p < INT_MAX) (guac_assert (active p < INT_MAX)
       (let p = p\<lparr>active := active p + 1\<rparr>;
            (val, p) =
              (case free_ints p of
                 v # vs \<Rightarrow>
                   if next_value p < min_size p
                   then (next_value p, p\<lparr>next_value := next_value p + 1\<rparr>)
                   else (v, p\<lparr>free_ints := vs\<rparr>)
               | [] \<Rightarrow> (next_value p, p\<lparr>next_value := next_value p + 1\<rparr>))
        in guac_assert (val \<ge> 0) (Inr (val, p))))"

definition guac_pool_next_int :: "guac_pool \<Rightarrow> (int \<times> guac_pool) outcome" where
  "guac_pool_next_int p = pool_next_int p"

definition guac_pool_next_int_below :: "guac_pool \<Rightarrow> int \<Rightarrow> (int \<times> guac_pool) outcome" where
  "guac_pool_next_int_below p limit =
     (if active p \<ge> limit \<or> next_value p \<ge> limit \<and> free_ints p = [] then Inr (-1, p)
      else case pool_next_int p of
             Inl e \<Rightarrow> Inl e
           | Inr (val, p') \<Rightarrow> guac_assert (val < limit) (Inr (val, p')))"

definition guac_pool_next_int_below_or_die :: "guac_pool \<Rightarrow> int \<Rightarrow> (int \<times> guac_pool) outcome" where
  "guac_pool_next_int_below_or_die p limit =
     (case guac_pool_next_int_below p limit of
        Inl e \<Rightarrow> Inl e
      | Inr (val, p') \<Rightarrow> guac_assert (val \<ge> 0) (Inr (val, p')))"

definition guac_pool_free_int :: "guac_pool \<Rightarrow> int \<Rightarrow> guac_pool outcome" where
  "guac_pool_free_int p val =
     guac_assert (active p > 0) (Inr (p\<lparr>active := active p - 1, free_ints := free_ints p @ [val]\<rparr>))"

section \<open>The contract of a pool\<close>

text \<open>
  \<open>pool_ok p U\<close>: the integers handed out and not given back are \<open>U\<close>. Those and the freed ones are
  exactly the integers below \<open>next_value\<close>.
\<close>

definition pool_ok :: "guac_pool \<Rightarrow> int set \<Rightarrow> bool" where
  "pool_ok p U \<longleftrightarrow> finite U \<and> active p = int (card U) \<and> distinct (free_ints p) \<and>
     U \<inter> set (free_ints p) = {} \<and> U \<union> set (free_ints p) = {0..<next_value p} \<and> 0 \<le> next_value p"

lemma pool_ok_alloc: "pool_ok (guac_pool_alloc n) {}"
  by (simp add: pool_ok_def guac_pool_alloc_def)

lemma pool_ok_active_le: "pool_ok p U \<Longrightarrow> active p \<le> next_value p"
proof -
  assume "pool_ok p U"
  then have "U \<subseteq> {0..<next_value p}" "0 \<le> next_value p" "active p = int (card U)" by (auto simp: pool_ok_def)
  then show ?thesis using card_mono [of "{0..<next_value p}" U] by simp
qed

lemma pool_next_int_ok:
  assumes "pool_ok p U" "next_value p < INT_MAX"
  obtains v p' where "pool_next_int p = Inr (v, p')" "0 \<le> v" "v \<notin> U" "pool_ok p' (insert v U)"
    "v < next_value p'" "min_size p' = min_size p" "next_value p' \<le> next_value p + 1"
    "next_value p' = next_value p \<longrightarrow> v < next_value p"
    "next_value p' \<noteq> next_value p \<longrightarrow> free_ints p = [] \<or> next_value p < min_size p"
proof -
  have a: "active p < INT_MAX" using assms pool_ok_active_le by fastforce
  have n: "next_value p \<notin> U" "next_value p \<notin> set (free_ints p)" "0 \<le> next_value p" "finite U"
    using assms by (auto simp: pool_ok_def)
  show thesis
  proof (cases "free_ints p = [] \<or> next_value p < min_size p")
    case True
    let ?p = "p\<lparr>active := active p + 1, next_value := next_value p + 1\<rparr>"
    have "pool_next_int p = Inr (next_value p, ?p)"
      using True a assms n by (auto simp: pool_next_int_def Let_def split: list.splits)
    moreover have "pool_ok ?p (insert (next_value p) U)"
      using assms n by (auto simp: pool_ok_def)
    ultimately show thesis using n True by (intro that [of "next_value p" ?p]) simp_all
  next
    case False
    then obtain v vs where f: "free_ints p = v # vs" "\<not> next_value p < min_size p"
      by (cases "free_ints p") auto
    let ?p = "p\<lparr>active := active p + 1, free_ints := vs\<rparr>"
    have "v \<in> {0..<next_value p}" using assms(1) f unfolding pool_ok_def by (metis UnCI list.set_intros(1))
    then have v: "0 \<le> v" "v < next_value p" "v \<notin> U" using assms f by (auto simp: pool_ok_def)
    have "pool_next_int p = Inr (v, ?p)"
      using f a assms v by (auto simp: pool_next_int_def Let_def)
    moreover have "pool_ok ?p (insert v U)" using assms f v by (auto simp: pool_ok_def)
    ultimately show thesis using v by (intro that [of v ?p]) simp_all
  qed
qed

text \<open>
  A pool from which integers are only taken below one limit never holds an integer at or above it,
  so the assertions hold and -1 is returned exactly when the limit is reached.
\<close>

lemma pool_below_ok:
  assumes "pool_ok p U" "next_value p \<le> limit" "min_size p \<le> limit" "limit < INT_MAX"
  shows "if int (card U) = limit then guac_pool_next_int_below p limit = Inr (-1, p)
     else \<exists>v p'. guac_pool_next_int_below p limit = Inr (v, p') \<and> 0 \<le> v \<and> v < limit \<and> v \<notin> U \<and>
       pool_ok p' (insert v U) \<and> next_value p' \<le> limit \<and> min_size p' = min_size p"
proof (cases "active p \<ge> limit")
  case True
  then have "int (card U) = limit" using assms pool_ok_active_le [OF assms(1)] by (simp add: pool_ok_def)
  with True show ?thesis by (simp add: guac_pool_next_int_below_def)
next
  case False
  have "\<not> (next_value p \<ge> limit \<and> free_ints p = [])"
  proof
    assume e: "next_value p \<ge> limit \<and> free_ints p = []"
    with assms have "U = {0..<limit}" by (auto simp: pool_ok_def)
    with assms False show False by (simp add: pool_ok_def)
  qed
  then have go: "guac_pool_next_int_below p limit =
      (case pool_next_int p of Inl e \<Rightarrow> Inl e | Inr (val, p') \<Rightarrow> guac_assert (val < limit) (Inr (val, p')))"
    using False by (auto simp: guac_pool_next_int_below_def)
  have "next_value p < INT_MAX" using assms by linarith
  with assms(1) obtain v p' where r: "pool_next_int p = Inr (v, p')" "0 \<le> v" "v \<notin> U" "pool_ok p' (insert v U)"
    "v < next_value p'" "min_size p' = min_size p" "next_value p' \<le> next_value p + 1"
    "next_value p' \<noteq> next_value p \<longrightarrow> free_ints p = [] \<or> next_value p < min_size p"
    by (rule pool_next_int_ok) blast
  have "next_value p' \<le> limit"
    using r assms \<open>\<not> (next_value p \<ge> limit \<and> free_ints p = [])\<close> by fastforce
  moreover have "int (card U) \<noteq> limit" using False assms(1) by (simp add: pool_ok_def)
  ultimately show ?thesis using r go by auto
qed

lemma pool_free_ok:
  assumes "pool_ok p U" "v \<in> U"
  obtains p' where "guac_pool_free_int p v = Inr p'" "pool_ok p' (U - {v})"
    "next_value p' = next_value p" "min_size p' = min_size p"
proof -
  let ?p = "p\<lparr>active := active p - 1, free_ints := free_ints p @ [v]\<rparr>"
  have "0 < card U" using assms by (auto simp: pool_ok_def card_gt_0_iff)
  then have "guac_pool_free_int p v = Inr ?p" using assms by (simp add: guac_pool_free_int_def pool_ok_def)
  moreover have "pool_ok ?p (U - {v})"
    using assms \<open>0 < card U\<close> by (auto simp: pool_ok_def card_Diff_singleton_if of_nat_diff)
  ultimately show thesis by (intro that [of ?p]) simp_all
qed

section \<open>The pool's clients\<close>

text \<open>
  The streams and objects of a user, and the streams of a client, live in an array; a pool hands out
  the slots, and the \<open>index\<close> of a slot that is not in use is -1. Only the indices are kept of the
  array's structures: the other members are reset to \<open>NULL\<close> when a slot is allocated.
\<close>

definition GUAC_USER_MAX_STREAMS :: nat where "GUAC_USER_MAX_STREAMS = 512"

definition GUAC_USER_MAX_OBJECTS :: nat where "GUAC_USER_MAX_OBJECTS = 64"

definition GUAC_CLIENT_MAX_STREAMS :: nat where "GUAC_CLIENT_MAX_STREAMS = 512"

definition GUAC_BUFFER_POOL_INITIAL_SIZE :: int where "GUAC_BUFFER_POOL_INITIAL_SIZE = 1024"

record guac_user =
  user_stream_pool :: guac_pool
  user_output_streams :: "int list"
  user_object_pool :: guac_pool
  user_objects :: "int list"

record guac_client =
  client_buffer_pool :: guac_pool
  client_layer_pool :: guac_pool
  client_stream_pool :: guac_pool
  client_output_streams :: "int list"

definition guac_user_alloc :: guac_user where
  "guac_user_alloc =
     \<lparr>user_stream_pool = guac_pool_alloc 0, user_output_streams = replicate GUAC_USER_MAX_STREAMS (-1),
      user_object_pool = guac_pool_alloc 0, user_objects = replicate GUAC_USER_MAX_OBJECTS (-1)\<rparr>"

definition guac_user_alloc_stream :: "guac_user \<Rightarrow> (nat option \<times> guac_user) outcome" where
  "guac_user_alloc_stream u =
     (case guac_pool_next_int_below (user_stream_pool u) (int GUAC_USER_MAX_STREAMS) of
        Inl e \<Rightarrow> Inl e
      | Inr (stream_index, p) \<Rightarrow>
          (let u = u\<lparr>user_stream_pool := p\<rparr>
           in if stream_index < 0 then Inr (None, u)
              else Inr (Some (nat stream_index),
                u\<lparr>user_output_streams := (user_output_streams u)[nat stream_index := stream_index * 2]\<rparr>)))"

text \<open>Division by 2 as C does it, towards zero.\<close>

definition quot2 :: "int \<Rightarrow> int" where
  "quot2 i = (if i < 0 then - ((- i) div 2) else i div 2)"

definition guac_user_free_stream :: "guac_user \<Rightarrow> nat \<Rightarrow> guac_user outcome" where
  "guac_user_free_stream u stream =
     (let freed_index = user_output_streams u ! stream;
          u = u\<lparr>user_output_streams := (user_output_streams u)[stream := -1]\<rparr>
      in case guac_pool_free_int (user_stream_pool u) (quot2 freed_index) of
           Inl e \<Rightarrow> Inl e
         | Inr p \<Rightarrow> Inr (u\<lparr>user_stream_pool := p\<rparr>))"

definition guac_user_alloc_object :: "guac_user \<Rightarrow> (nat option \<times> guac_user) outcome" where
  "guac_user_alloc_object u =
     (case guac_pool_next_int_below (user_object_pool u) (int GUAC_USER_MAX_OBJECTS) of
        Inl e \<Rightarrow> Inl e
      | Inr (object_index, p) \<Rightarrow>
          (let u = u\<lparr>user_object_pool := p\<rparr>
           in if object_index < 0 then Inr (None, u)
              else Inr (Some (nat object_index),
                u\<lparr>user_objects := (user_objects u)[nat object_index := object_index]\<rparr>)))"

definition guac_user_free_object :: "guac_user \<Rightarrow> nat \<Rightarrow> guac_user outcome" where
  "guac_user_free_object u object =
     (let freed_index = user_objects u ! object;
          u = u\<lparr>user_objects := (user_objects u)[object := -1]\<rparr>
      in case guac_pool_free_int (user_object_pool u) freed_index of
           Inl e \<Rightarrow> Inl e
         | Inr p \<Rightarrow> Inr (u\<lparr>user_object_pool := p\<rparr>))"

text \<open>The pools and streams of \<open>guac_client_alloc\<close>.\<close>

definition guac_client_alloc :: guac_client where
  "guac_client_alloc =
     \<lparr>client_buffer_pool = guac_pool_alloc GUAC_BUFFER_POOL_INITIAL_SIZE,
      client_layer_pool = guac_pool_alloc GUAC_BUFFER_POOL_INITIAL_SIZE,
      client_stream_pool = guac_pool_alloc 0,
      client_output_streams = replicate GUAC_CLIENT_MAX_STREAMS (-1)\<rparr>"

definition guac_client_alloc_stream :: "guac_client \<Rightarrow> (nat option \<times> guac_client) outcome" where
  "guac_client_alloc_stream c =
     (case guac_pool_next_int_below (client_stream_pool c) (int GUAC_CLIENT_MAX_STREAMS) of
        Inl e \<Rightarrow> Inl e
      | Inr (stream_index, p) \<Rightarrow>
          (let c = c\<lparr>client_stream_pool := p\<rparr>
           in if stream_index < 0 then Inr (None, c)
              else Inr (Some (nat stream_index),
                c\<lparr>client_output_streams := (client_output_streams c)[nat stream_index := stream_index * 2 + 1]\<rparr>)))"

definition guac_client_free_stream :: "guac_client \<Rightarrow> nat \<Rightarrow> guac_client outcome" where
  "guac_client_free_stream c stream =
     (let freed_index = client_output_streams c ! stream;
          c = c\<lparr>client_output_streams := (client_output_streams c)[stream := -1]\<rparr>
      in case guac_pool_free_int (client_stream_pool c) (quot2 (freed_index - 1)) of
           Inl e \<Rightarrow> Inl e
         | Inr p \<Rightarrow> Inr (c\<lparr>client_stream_pool := p\<rparr>))"

text \<open>Layers and buffers are their indices.\<close>

definition guac_client_alloc_layer :: "guac_client \<Rightarrow> (int \<times> guac_client) outcome" where
  "guac_client_alloc_layer c =
     (case guac_pool_next_int (client_layer_pool c) of
        Inl e \<Rightarrow> Inl e
      | Inr (v, p) \<Rightarrow> Inr (v + 1, c\<lparr>client_layer_pool := p\<rparr>))"

definition guac_client_free_layer :: "guac_client \<Rightarrow> int \<Rightarrow> guac_client outcome" where
  "guac_client_free_layer c layer =
     (case guac_pool_free_int (client_layer_pool c) layer of
        Inl e \<Rightarrow> Inl e
      | Inr p \<Rightarrow> Inr (c\<lparr>client_layer_pool := p\<rparr>))"

definition guac_client_alloc_buffer :: "guac_client \<Rightarrow> (int \<times> guac_client) outcome" where
  "guac_client_alloc_buffer c =
     (case guac_pool_next_int (client_buffer_pool c) of
        Inl e \<Rightarrow> Inl e
      | Inr (v, p) \<Rightarrow> Inr (- v - 1, c\<lparr>client_buffer_pool := p\<rparr>))"

definition guac_client_free_buffer :: "guac_client \<Rightarrow> int \<Rightarrow> guac_client outcome" where
  "guac_client_free_buffer c layer =
     (case guac_pool_free_int (client_buffer_pool c) (- layer - 1) of
        Inl e \<Rightarrow> Inl e
      | Inr p \<Rightarrow> Inr (c\<lparr>client_buffer_pool := p\<rparr>))"

section \<open>Slots handed out by a pool\<close>

text \<open>
  What the three arrays share: \<open>enc\<close> is the index stored in a slot in use and \<open>dec\<close> the integer
  given back for it.
\<close>

locale pooled_slots =
  fixes cap :: nat
    and enc dec :: "int \<Rightarrow> int"
    and pool :: "'s \<Rightarrow> guac_pool"
    and slots :: "'s \<Rightarrow> int list"
    and alloc :: "'s \<Rightarrow> (nat option \<times> 's) outcome"
    and free :: "'s \<Rightarrow> nat \<Rightarrow> 's outcome"
  assumes dec_enc: "0 \<le> i \<Longrightarrow> dec (enc i) = i"
    and enc_nonneg: "0 \<le> i \<Longrightarrow> 0 \<le> enc i"
    and cap_small: "int cap < INT_MAX"
    and alloc_full: "guac_pool_next_int_below (pool s) (int cap) = Inr (-1, p) \<Longrightarrow>
        \<exists>s'. alloc s = Inr (None, s') \<and> pool s' = p \<and> slots s' = slots s"
    and alloc_slot: "guac_pool_next_int_below (pool s) (int cap) = Inr (i, p) \<Longrightarrow> 0 \<le> i \<Longrightarrow>
        \<exists>s'. alloc s = Inr (Some (nat i), s') \<and> pool s' = p \<and> slots s' = (slots s)[nat i := enc i]"
    and free_slot: "guac_pool_free_int (pool s) (dec (slots s ! n)) = Inr p \<Longrightarrow>
        \<exists>s'. free s n = Inr s' \<and> pool s' = p \<and> slots s' = (slots s)[n := -1]"
begin

definition live :: "'s \<Rightarrow> nat set" where
  "live s = {n. n < cap \<and> slots s ! n \<noteq> -1}"

definition slots_ok :: "'s \<Rightarrow> bool" where
  "slots_ok s \<longleftrightarrow> length (slots s) = cap \<and> pool_ok (pool s) (int ` live s) \<and>
     next_value (pool s) \<le> int cap \<and> min_size (pool s) \<le> int cap \<and>
     (\<forall>n \<in> live s. slots s ! n = enc (int n))"

lemma live_finite [simp]: "finite (live s)"
  by (simp add: live_def)

lemma card_live [simp]: "card (int ` live s) = card (live s)"
  by (rule card_image) simp

lemma slots_ok_init:
  "slots s = replicate cap (-1) \<Longrightarrow> pool s = guac_pool_alloc 0 \<Longrightarrow> slots_ok s \<and> live s = {}"
proof -
  assume s: "slots s = replicate cap (-1)" "pool s = guac_pool_alloc 0"
  then have "live s = {}" by (auto simp: live_def)
  with s show ?thesis using pool_ok_alloc [of 0] by (simp add: slots_ok_def guac_pool_alloc_def)
qed

text \<open>
  Allocation never aborts; it fails exactly when all slots are in use, and otherwise opens a slot
  that was not in use and leaves the others alone.
\<close>

lemma alloc_spec:
  assumes "slots_ok s"
  shows "if card (live s) = cap then \<exists>s'. alloc s = Inr (None, s') \<and> slots_ok s' \<and> live s' = live s
     else \<exists>n s'. alloc s = Inr (Some n, s') \<and> n < cap \<and> n \<notin> live s \<and> slots_ok s' \<and>
       live s' = insert n (live s) \<and> slots s' = (slots s)[n := enc (int n)]"
proof -
  note below = pool_below_ok [of "pool s" "int ` live s" "int cap"]
  show ?thesis
  proof (cases "card (live s) = cap")
    case True
    with assms below cap_small have "guac_pool_next_int_below (pool s) (int cap) = Inr (-1, pool s)"
      by (simp add: slots_ok_def)
    from alloc_full [OF this] True assms show ?thesis by (auto simp: slots_ok_def live_def)
  next
    case False
    with assms below cap_small obtain v p where v: "guac_pool_next_int_below (pool s) (int cap) = Inr (v, p)"
      "0 \<le> v" "v < int cap" "v \<notin> int ` live s" "pool_ok p (insert v (int ` live s))"
      "next_value p \<le> int cap" "min_size p = min_size (pool s)"
      by (auto simp: slots_ok_def)
    then obtain n where n: "v = int n" "n < cap" "n \<notin> live s" by (metis imageI of_nat_less_iff nonneg_int_cases)
    from alloc_slot [OF v(1,2)] n obtain s' where s': "alloc s = Inr (Some n, s')" "pool s' = p"
      "slots s' = (slots s)[n := enc (int n)]" by auto
    have "enc (int n) \<noteq> -1" using enc_nonneg [of "int n"] by auto
    then have l: "live s' = insert n (live s)"
      using s'(3) n assms by (auto simp: live_def slots_ok_def nth_list_update)
    moreover have "slots_ok s'"
      using assms v n s' l by (auto simp: slots_ok_def nth_list_update)
    ultimately show ?thesis using False s' n by auto
  qed
qed

text \<open>Closing a slot in use never aborts and makes it available again.\<close>

lemma free_spec:
  assumes "slots_ok s" "n \<in> live s"
  shows "\<exists>s'. free s n = Inr s' \<and> slots_ok s' \<and> live s' = live s - {n} \<and> slots s' = (slots s)[n := -1]"
proof -
  have n: "dec (slots s ! n) = int n" "n < length (slots s)"
    using assms dec_enc [of "int n"] by (auto simp: slots_ok_def live_def)
  obtain p where p: "guac_pool_free_int (pool s) (int n) = Inr p" "pool_ok p (int ` live s - {int n})"
    "next_value p = next_value (pool s)" "min_size p = min_size (pool s)"
    using assms by (auto simp: slots_ok_def intro: pool_free_ok [of "pool s" "int ` live s" "int n"])
  from free_slot [of s n p] p n obtain s' where s': "free s n = Inr s'" "pool s' = p" "slots s' = (slots s)[n := -1]"
    by auto
  have l: "live s' = live s - {n}" using s' n by (auto simp: live_def nth_list_update)
  moreover have "int ` (live s - {n}) = int ` live s - {int n}" by (auto simp: image_set_diff)
  ultimately have "slots_ok s'" using assms p s' by (auto simp: slots_ok_def nth_list_update)
  with s' l show ?thesis by auto
qed

end

interpretation user_streams: pooled_slots GUAC_USER_MAX_STREAMS "\<lambda>i. i * 2" quot2
  user_stream_pool user_output_streams guac_user_alloc_stream guac_user_free_stream
  by unfold_locales (auto simp: quot2_def GUAC_USER_MAX_STREAMS_def INT_MAX_def guac_user_alloc_stream_def
      guac_user_free_stream_def)

interpretation user_objects: pooled_slots GUAC_USER_MAX_OBJECTS "\<lambda>i. i" "\<lambda>i. i"
  user_object_pool user_objects guac_user_alloc_object guac_user_free_object
  by unfold_locales (auto simp: GUAC_USER_MAX_OBJECTS_def INT_MAX_def guac_user_alloc_object_def
      guac_user_free_object_def)

interpretation client_streams: pooled_slots GUAC_CLIENT_MAX_STREAMS "\<lambda>i. i * 2 + 1" "\<lambda>i. quot2 (i - 1)"
  client_stream_pool client_output_streams guac_client_alloc_stream guac_client_free_stream
  by unfold_locales (auto simp: quot2_def GUAC_CLIENT_MAX_STREAMS_def INT_MAX_def guac_client_alloc_stream_def
      guac_client_free_stream_def)

text \<open>Operations on streams leave the objects alone, and conversely.\<close>

lemma user_frame:
  "guac_user_alloc_stream u = Inr (x, u') \<Longrightarrow> user_object_pool u' = user_object_pool u \<and> user_objects u' = user_objects u"
  "guac_user_free_stream u n = Inr u' \<Longrightarrow> user_object_pool u' = user_object_pool u \<and> user_objects u' = user_objects u"
  "guac_user_alloc_object u = Inr (x, u') \<Longrightarrow>
     user_stream_pool u' = user_stream_pool u \<and> user_output_streams u' = user_output_streams u"
  "guac_user_free_object u n = Inr u' \<Longrightarrow>
     user_stream_pool u' = user_stream_pool u \<and> user_output_streams u' = user_output_streams u"
  by (auto simp: guac_user_alloc_stream_def guac_user_free_stream_def guac_user_alloc_object_def
      guac_user_free_object_def Let_def split: sum.splits if_splits)

section \<open>Properties\<close>

text \<open>
  The states a user can be in: streams and objects are opened, and those in use are closed, in any
  order.
\<close>

inductive user_reachable :: "guac_user \<Rightarrow> bool" where
  start: "user_reachable guac_user_alloc"
| open_stream: "user_reachable u \<Longrightarrow> guac_user_alloc_stream u = Inr (x, u') \<Longrightarrow> user_reachable u'"
| close_stream: "user_reachable u \<Longrightarrow> n < GUAC_USER_MAX_STREAMS \<Longrightarrow> user_output_streams u ! n \<noteq> -1 \<Longrightarrow>
    guac_user_free_stream u n = Inr u' \<Longrightarrow> user_reachable u'"
| open_object: "user_reachable u \<Longrightarrow> guac_user_alloc_object u = Inr (x, u') \<Longrightarrow> user_reachable u'"
| close_object: "user_reachable u \<Longrightarrow> n < GUAC_USER_MAX_OBJECTS \<Longrightarrow> user_objects u ! n \<noteq> -1 \<Longrightarrow>
    guac_user_free_object u n = Inr u' \<Longrightarrow> user_reachable u'"

lemma user_reachable_ok: "user_reachable u \<Longrightarrow> user_streams.slots_ok u \<and> user_objects.slots_ok u"
proof (induction rule: user_reachable.induct)
  case start
  then show ?case
    using user_streams.slots_ok_init [of guac_user_alloc] user_objects.slots_ok_init [of guac_user_alloc]
    by (simp add: guac_user_alloc_def)
next
  case (open_stream u x u')
  then show ?case using user_frame(1) [OF open_stream(2)] user_streams.alloc_spec [of u]
    by (auto simp: user_objects.slots_ok_def user_objects.live_def split: if_splits)
next
  case (close_stream u n u')
  then show ?case using user_frame(2) [OF close_stream(4)] user_streams.free_spec [of u n]
    by (auto simp: user_objects.slots_ok_def user_objects.live_def user_streams.live_def)
next
  case (open_object u x u')
  then show ?case using user_frame(3) [OF open_object(2)] user_objects.alloc_spec [of u]
    by (auto simp: user_streams.slots_ok_def user_streams.live_def split: if_splits)
next
  case (close_object u n u')
  then show ?case using user_frame(4) [OF close_object(4)] user_objects.free_spec [of u n]
    by (auto simp: user_streams.slots_ok_def user_streams.live_def user_objects.live_def)
qed

text \<open>
  C30: streams of a user. In every state reachable by opening and closing streams and objects,
  allocating a stream does not abort. It fails exactly when all 512 slots are in use; otherwise it
  returns a slot that was not in use, whose index becomes twice its number, and changes no other.
\<close>

theorem guac_user_alloc_stream_fresh:
  assumes "user_reachable u"
  shows "\<exists>x u'. guac_user_alloc_stream u = Inr (x, u') \<and>
    (case x of
       None \<Rightarrow> (\<forall>n < GUAC_USER_MAX_STREAMS. user_output_streams u ! n \<noteq> -1) \<and>
         user_output_streams u' = user_output_streams u
     | Some n \<Rightarrow> n < GUAC_USER_MAX_STREAMS \<and> user_output_streams u ! n = -1 \<and>
         user_output_streams u' = (user_output_streams u)[n := 2 * int n])"
proof -
  have ok: "user_streams.slots_ok u" using user_reachable_ok [OF assms] by simp
  show ?thesis
  proof (cases "card (user_streams.live u) = GUAC_USER_MAX_STREAMS")
    case True
    then have "user_streams.live u = {..<GUAC_USER_MAX_STREAMS}"
      by (intro card_subset_eq) (auto simp: user_streams.live_def)
    then have "\<forall>n < GUAC_USER_MAX_STREAMS. user_output_streams u ! n \<noteq> -1"
      by (auto simp: user_streams.live_def)
    moreover from True user_streams.alloc_full [of u] pool_below_ok [of "user_stream_pool u" "int ` user_streams.live u"
        "int GUAC_USER_MAX_STREAMS"] ok user_streams.cap_small
    have "\<exists>u'. guac_user_alloc_stream u = Inr (None, u') \<and> user_output_streams u' = user_output_streams u"
      by (auto simp: user_streams.slots_ok_def)
    ultimately show ?thesis by auto
  next
    case False
    with user_streams.alloc_spec [OF ok] show ?thesis
      by (auto simp: user_streams.live_def mult.commute)
  qed
qed

theorem guac_user_alloc_stream_fresh_witness:
  "\<exists>x u'. guac_user_alloc_stream guac_user_alloc = Inr (x, u') \<and> x \<noteq> None"
proof -
  have "user_output_streams guac_user_alloc ! 0 = -1"
    by (simp add: guac_user_alloc_def GUAC_USER_MAX_STREAMS_def)
  moreover have "0 < GUAC_USER_MAX_STREAMS" by (simp add: GUAC_USER_MAX_STREAMS_def)
  ultimately show ?thesis
    using guac_user_alloc_stream_fresh [OF user_reachable.start] by (fastforce split: option.splits)
qed

inductive client_reachable :: "guac_client \<Rightarrow> bool" where
  start: "client_reachable guac_client_alloc"
| open_stream: "client_reachable c \<Longrightarrow> guac_client_alloc_stream c = Inr (x, c') \<Longrightarrow> client_reachable c'"
| close_stream: "client_reachable c \<Longrightarrow> n < GUAC_CLIENT_MAX_STREAMS \<Longrightarrow> client_output_streams c ! n \<noteq> -1 \<Longrightarrow>
    guac_client_free_stream c n = Inr c' \<Longrightarrow> client_reachable c'"

lemma client_reachable_ok: "client_reachable c \<Longrightarrow> client_streams.slots_ok c"
proof (induction rule: client_reachable.induct)
  case start
  then show ?case using client_streams.slots_ok_init [of guac_client_alloc] by (simp add: guac_client_alloc_def)
next
  case (open_stream c x c')
  then show ?case using client_streams.alloc_spec [of c] by (auto split: if_splits)
next
  case (close_stream c n c')
  then show ?case using client_streams.free_spec [of c n] by (auto simp: client_streams.live_def)
qed

text \<open>
  Stream numbers on the wire. In every reachable state the index of a stream slot of a user is -1
  or twice its number, so the indices in use are distinct and even; the streams that a client opens
  in the same way have odd indices, so the two kinds never collide.
\<close>

theorem guac_stream_indices_disjoint:
  assumes "user_reachable u" "client_reachable c"
    and "i < GUAC_USER_MAX_STREAMS" "user_output_streams u ! i \<noteq> -1"
    and "j < GUAC_CLIENT_MAX_STREAMS" "client_output_streams c ! j \<noteq> -1"
  shows "user_output_streams u ! i = 2 * int i \<and> client_output_streams c ! j = 2 * int j + 1 \<and>
    user_output_streams u ! i \<noteq> client_output_streams c ! j"
proof -
  have "user_output_streams u ! i = 2 * int i"
    using user_reachable_ok [OF assms(1)] assms by (auto simp: user_streams.slots_ok_def user_streams.live_def)
  moreover have "client_output_streams c ! j = 2 * int j + 1"
    using client_reachable_ok [OF assms(2)] assms by (auto simp: client_streams.slots_ok_def client_streams.live_def)
  ultimately show ?thesis by presburger
qed

lemma first_streams:
  "\<exists>u. guac_user_alloc_stream guac_user_alloc = Inr (Some 0, u) \<and> user_output_streams u ! 0 = 0"
  "\<exists>c. guac_client_alloc_stream guac_client_alloc = Inr (Some 0, c) \<and> client_output_streams c ! 0 = 1"
  by (simp_all add: guac_user_alloc_stream_def guac_user_alloc_def guac_client_alloc_stream_def guac_client_alloc_def
      guac_pool_alloc_def guac_pool_next_int_below_def pool_next_int_def INT_MAX_def GUAC_USER_MAX_STREAMS_def
      GUAC_CLIENT_MAX_STREAMS_def)

theorem guac_stream_indices_disjoint_witness:
  "\<exists>(u :: guac_user) (c :: guac_client). user_output_streams u ! 0 = 0 \<and> client_output_streams c ! 0 = 1 \<and>
     user_output_streams u ! 0 \<noteq> client_output_streams c ! 0"
proof -
  from first_streams obtain u c where u: "guac_user_alloc_stream guac_user_alloc = Inr (Some 0, u)"
      "user_output_streams u ! 0 = 0"
    and c: "guac_client_alloc_stream guac_client_alloc = Inr (Some 0, c)" "client_output_streams c ! 0 = 1"
    by blast
  have "user_reachable u" "client_reachable c"
    using u c by (auto intro: user_reachable.intros client_reachable.intros)
  from guac_stream_indices_disjoint [OF this, of 0 0] u c
  have "user_output_streams u ! 0 \<noteq> client_output_streams c ! 0"
    by (simp add: GUAC_USER_MAX_STREAMS_def GUAC_CLIENT_MAX_STREAMS_def)
  with u c show ?thesis by blast
qed

text \<open>A number of layers allocated one after the other.\<close>

fun alloc_layers :: "nat \<Rightarrow> guac_client \<Rightarrow> (int list \<times> guac_client) outcome" where
  "alloc_layers 0 c = Inr ([], c)"
| "alloc_layers (Suc n) c =
     (case guac_client_alloc_layer c of
        Inl e \<Rightarrow> Inl e
      | Inr (l, c') \<Rightarrow>
          (case alloc_layers n c' of Inl e \<Rightarrow> Inl e | Inr (ls, c'') \<Rightarrow> Inr (l # ls, c'')))"

lemma alloc_layers_fresh:
  "client_layer_pool c = \<lparr>min_size = m, active = a, next_value = k, free_ints = fs\<rparr> \<Longrightarrow>
   0 \<le> k \<Longrightarrow> k + int n \<le> m \<Longrightarrow> m < INT_MAX \<Longrightarrow> a \<le> k \<Longrightarrow>
   \<exists>c'. alloc_layers n c = Inr (map (\<lambda>i. k + int i + 1) [0..<n], c') \<and>
     client_layer_pool c' = \<lparr>min_size = m, active = a + int n, next_value = k + int n, free_ints = fs\<rparr>"
proof (induction n arbitrary: c k a)
  case (Suc n)
  let ?c = "c\<lparr>client_layer_pool := \<lparr>min_size = m, active = a + 1, next_value = k + 1, free_ints = fs\<rparr>\<rparr>"
  have l: "guac_client_alloc_layer c = Inr (k + 1, ?c)"
    using Suc.prems
    by (cases fs) (simp_all add: guac_client_alloc_layer_def guac_pool_next_int_def pool_next_int_def)
  from Suc.IH [of ?c "a + 1" "k + 1"] Suc.prems obtain c' where
    "alloc_layers n ?c = Inr (map (\<lambda>i. k + 1 + int i + 1) [0..<n], c')"
    "client_layer_pool c' = \<lparr>min_size = m, active = a + 1 + int n, next_value = k + 1 + int n, free_ints = fs\<rparr>"
    by auto
  moreover have "map (\<lambda>i. k + int i + 1) [0..<Suc n] = (k + 1) # map (\<lambda>i. k + 1 + int i + 1) [0..<n]"
    by (simp add: upt_conv_Cons map_Suc_upt [symmetric] add_ac del: upt_Suc)
  ultimately show ?case using l by (simp add: add_ac del: upt_Suc)
qed simp

text \<open>
  C37: layers are given back under the wrong number. A layer's index is one more than the integer taken
  from the pool, and \<open>guac_client_free_layer\<close> returns the index itself. After a first layer has been
  allocated and freed and 1023 more are in use, the next allocation returns the index 2, which
  already belongs to one of them.
\<close>

theorem guac_client_layer_collision:
  "\<exists>c1 c2 ls c3 c4. guac_client_alloc_layer guac_client_alloc = Inr (1, c1) \<and>
     guac_client_free_layer c1 1 = Inr c2 \<and> alloc_layers 1023 c2 = Inr (ls, c3) \<and>
     2 \<in> set ls \<and> guac_client_alloc_layer c3 = Inr (2, c4)"
proof -
  let ?p = "\<lambda>a k fs. \<lparr>min_size = 1024, active = a, next_value = k, free_ints = fs\<rparr> :: guac_pool"
  let ?c1 = "guac_client_alloc\<lparr>client_layer_pool := ?p 1 1 []\<rparr>"
  let ?c2 = "guac_client_alloc\<lparr>client_layer_pool := ?p 0 1 [1]\<rparr>"
  note defs = guac_client_alloc_layer_def guac_client_free_layer_def guac_pool_next_int_def pool_next_int_def
    guac_pool_free_int_def guac_client_alloc_def guac_pool_alloc_def GUAC_BUFFER_POOL_INITIAL_SIZE_def INT_MAX_def
  have a: "guac_client_alloc_layer guac_client_alloc = Inr (1, ?c1)" by (simp add: defs)
  have f: "guac_client_free_layer ?c1 1 = Inr ?c2" by (simp add: defs)
  obtain c3 where c3: "alloc_layers 1023 ?c2 = Inr (map (\<lambda>i. 1 + int i + 1) [0..<1023], c3)"
    "client_layer_pool c3 = ?p 1023 1024 [1]"
    using alloc_layers_fresh [of ?c2 1024 0 1 "[1]" 1023] by (auto simp: INT_MAX_def)
  have "2 \<in> set (map (\<lambda>i. 1 + int i + 1) [0..<1023])" by (simp add: image_iff)
  moreover have "guac_client_alloc_layer c3 = Inr (2, c3\<lparr>client_layer_pool := ?p 1024 1024 []\<rparr>)"
    using c3(2) by (simp add: defs)
  ultimately show ?thesis using a f c3(1) by blast
qed

end
