(* ===== verification/Rect.thy ===== *)
theory Rect
  imports Prelude "HOL-Library.Signed_Division"
begin

text \<open>
  The two rectangle types of the server: \<open>guac_rect\<close> of \<open>libguac/rect.c\<close>, given by its edges, and
  \<open>guac_common_rect\<close> of \<open>common/rect.c\<close>, given by a corner and dimensions. Both denote sets of pixels,
  and the operations are stated as operations on these sets. Coordinates are C \<open>int\<close>s: every sum,
  difference and product of the source is reduced by \<open>wrap32\<close>, and the theorems about operations
  that compute say within which range of coordinates they hold.
\<close>

section \<open>Sets of pixels\<close>

definition box :: "int \<Rightarrow> int \<Rightarrow> int \<Rightarrow> int \<Rightarrow> (int \<times> int) set" where
  "box l t r b = {l..<r} \<times> {t..<b}"

lemma mem_box [simp]: "(x, y) \<in> box l t r b \<longleftrightarrow> l \<le> x \<and> x < r \<and> t \<le> y \<and> y < b"
  by (auto simp: box_def)

lemma box_empty_iff: "box l t r b = {} \<longleftrightarrow> r \<le> l \<or> b \<le> t"
  by (auto simp: box_def)

lemma box_Int: "box l t r b \<inter> box l' t' r' b' = box (max l l') (max t t') (min r r') (min b b')"
  by (auto simp: box_def)

lemma box_subset_iff:
  assumes "l < r" "t < b"
  shows "box l t r b \<subseteq> box l' t' r' b' \<longleftrightarrow> l' \<le> l \<and> t' \<le> t \<and> r \<le> r' \<and> b \<le> b'"
proof
  assume s: "box l t r b \<subseteq> box l' t' r' b'"
  have "(l, t) \<in> box l t r b" "(r - 1, b - 1) \<in> box l t r b" using assms by simp_all
  with s have "(l, t) \<in> box l' t' r' b'" "(r - 1, b - 1) \<in> box l' t' r' b'" by blast+
  then show "l' \<le> l \<and> t' \<le> t \<and> r \<le> r' \<and> b \<le> b'" by simp
qed (auto simp: box_def)

section \<open>Regions\<close>

text \<open>
  What the drawing code relies on when it tracks a dirty region in a single rectangle: extending
  covers both arguments and is the least rectangle that does, and constraining is intersection.
\<close>

locale region =
  fixes ok :: "'r \<Rightarrow> bool" and area :: "'r \<Rightarrow> (int \<times> int) set"
    and extend :: "'r \<Rightarrow> 'r \<Rightarrow> 'r" and constrain :: "'r \<Rightarrow> 'r \<Rightarrow> 'r"
  assumes extend_ok: "ok r \<Longrightarrow> ok m \<Longrightarrow> ok (extend r m)"
    and constrain_ok: "ok r \<Longrightarrow> ok m \<Longrightarrow> ok (constrain r m)"
    and extend_covers: "ok r \<Longrightarrow> ok m \<Longrightarrow> area r \<union> area m \<subseteq> area (extend r m)"
    and extend_least: "ok r \<Longrightarrow> ok m \<Longrightarrow> ok s \<Longrightarrow> area r \<noteq> {} \<Longrightarrow> area m \<noteq> {} \<Longrightarrow>
      area r \<union> area m \<subseteq> area s \<Longrightarrow> area (extend r m) \<subseteq> area s"
    and constrain_area: "ok r \<Longrightarrow> ok m \<Longrightarrow> area (constrain r m) = area r \<inter> area m"
begin

lemma extend_all_ok: "ok r \<Longrightarrow> list_all ok ms \<Longrightarrow> ok (fold (\<lambda>m r. extend r m) ms r)"
  by (induction ms arbitrary: r) (simp_all add: extend_ok)

lemma extend_all_covers:
  "ok r \<Longrightarrow> list_all ok ms \<Longrightarrow> area r \<union> (\<Union>m \<in> set ms. area m) \<subseteq> area (fold (\<lambda>m r. extend r m) ms r)"
proof (induction ms arbitrary: r)
  case (Cons m ms)
  then have "area (extend r m) \<union> (\<Union>m \<in> set ms. area m) \<subseteq> area (fold (\<lambda>m r. extend r m) (m # ms) r)"
    by (simp add: extend_ok)
  moreover have "area r \<union> area m \<subseteq> area (extend r m)" using Cons.prems by (intro extend_covers) simp_all
  ultimately show ?case by (simp add: subset_iff)
qed simp

lemma extend_all_least:
  "ok r \<Longrightarrow> list_all ok ms \<Longrightarrow> ok s \<Longrightarrow> area r \<noteq> {} \<Longrightarrow> \<forall>m \<in> set ms. area m \<noteq> {} \<Longrightarrow>
    area r \<subseteq> area s \<Longrightarrow> \<forall>m \<in> set ms. area m \<subseteq> area s \<Longrightarrow>
    area (fold (\<lambda>m r. extend r m) ms r) \<subseteq> area s"
proof (induction ms arbitrary: r)
  case (Cons m ms)
  then have c: "area r \<union> area m \<subseteq> area (extend r m)" by (intro extend_covers) simp_all
  have e: "area (extend r m) \<subseteq> area s" using Cons.prems by (intro extend_least) simp_all
  have "area (extend r m) \<noteq> {}" using c Cons.prems(4) by blast
  then have "area (fold (\<lambda>m r. extend r m) ms (extend r m)) \<subseteq> area s"
    using Cons.prems e by (intro Cons.IH) (simp_all add: extend_ok)
  then show ?case by simp
qed simp

text \<open>Clipping the accumulated region to the bounds of a surface loses no dirty pixel of the surface.\<close>

lemma bounded_dirty:
  assumes "ok r" "list_all ok ms" "ok bounds"
  shows "(area r \<union> (\<Union>m \<in> set ms. area m)) \<inter> area bounds \<subseteq>
    area (constrain (fold (\<lambda>m r. extend r m) ms r) bounds)"
  using extend_all_covers [OF assms(1, 2)] assms
  by (auto simp: constrain_area extend_all_ok)

end

section \<open>Rectangles given by edges (libguac)\<close>

record guac_rect =
  rect_left :: int
  rect_top :: int
  rect_right :: int
  rect_bottom :: int

definition guac_rect_init :: "int \<Rightarrow> int \<Rightarrow> int \<Rightarrow> int \<Rightarrow> guac_rect" where
  "guac_rect_init x y w h = \<lparr>rect_left = x, rect_top = y,
     rect_right = (if w > 0 then wrap32 (x + w) else x),
     rect_bottom = (if h > 0 then wrap32 (y + h) else y)\<rparr>"

definition guac_rect_is_empty :: "guac_rect \<Rightarrow> bool" where
  "guac_rect_is_empty r \<longleftrightarrow> rect_right r \<le> rect_left r \<or> rect_bottom r \<le> rect_top r"

definition guac_rect_width :: "guac_rect \<Rightarrow> int" where
  "guac_rect_width r = (let w = wrap32 (rect_right r - rect_left r) in if w > 0 then w else 0)"

definition guac_rect_height :: "guac_rect \<Rightarrow> int" where
  "guac_rect_height r = (let h = wrap32 (rect_bottom r - rect_top r) in if h > 0 then h else 0)"

definition guac_rect_extend :: "guac_rect \<Rightarrow> guac_rect \<Rightarrow> guac_rect" where
  "guac_rect_extend r m = (if guac_rect_is_empty r then m else
    let r = (if rect_left m < rect_left r then r\<lparr>rect_left := rect_left m\<rparr> else r);
        r = (if rect_top m < rect_top r then r\<lparr>rect_top := rect_top m\<rparr> else r);
        r = (if rect_right m > rect_right r then r\<lparr>rect_right := rect_right m\<rparr> else r)
    in if rect_bottom m > rect_bottom r then r\<lparr>rect_bottom := rect_bottom m\<rparr> else r)"

definition guac_rect_constrain :: "guac_rect \<Rightarrow> guac_rect \<Rightarrow> guac_rect" where
  "guac_rect_constrain r m = (
    let r = (if rect_left m > rect_left r then r\<lparr>rect_left := rect_left m\<rparr> else r);
        r = (if rect_top m > rect_top r then r\<lparr>rect_top := rect_top m\<rparr> else r);
        r = (if rect_right m < rect_right r then r\<lparr>rect_right := rect_right m\<rparr> else r)
    in if rect_bottom m < rect_bottom r then r\<lparr>rect_bottom := rect_bottom m\<rparr> else r)"

definition guac_rect_intersects :: "guac_rect \<Rightarrow> guac_rect \<Rightarrow> bool" where
  "guac_rect_intersects a b \<longleftrightarrow> \<not> (rect_right b \<le> rect_left a \<or> rect_right a \<le> rect_left b \<or>
     rect_bottom b \<le> rect_top a \<or> rect_bottom a \<le> rect_top b)"

text \<open>\<open>sdiv\<close> is the division of C, which rounds toward zero.\<close>

definition guac_rect_shrink :: "guac_rect \<Rightarrow> int \<Rightarrow> int \<Rightarrow> guac_rect outcome" where
  "guac_rect_shrink r max_width max_height = (
    let original_width = guac_rect_width r;
        original_height = guac_rect_height r;
        max_width = (if original_width < max_width then original_width else max_width);
        max_height = (if original_height < max_height then original_height else max_height);
        (scale_numerator, scale_denominator) =
          (if wrap32 (max_width * original_height) < wrap32 (max_height * original_width)
           then (max_width, original_width) else (max_height, original_height))
    in if scale_denominator = 0 then Inl Undefined
       else Inr (r\<lparr>rect_right := wrap32 (rect_left r + wrap32 (original_width * scale_numerator) sdiv scale_denominator),
         rect_bottom := wrap32 (rect_top r + wrap32 (original_height * scale_numerator) sdiv scale_denominator)\<rparr>))"

definition GUAC_RECT_ROUND_NEG :: "int \<Rightarrow> int \<Rightarrow> int" where
  "GUAC_RECT_ROUND_NEG v m = v AND NOT m"

definition GUAC_RECT_ROUND_POS :: "int \<Rightarrow> int \<Rightarrow> int" where
  "GUAC_RECT_ROUND_POS v m = wrap32 (v + m) AND NOT m"

definition guac_rect_align :: "guac_rect \<Rightarrow> nat \<Rightarrow> guac_rect" where
  "guac_rect_align r bits = (if bits = 0 then r else
    let factor = wrap32 (push_bit bits 1);
        m = wrap32 (factor - 1)
    in \<lparr>rect_left = GUAC_RECT_ROUND_NEG (rect_left r) m,
        rect_top = GUAC_RECT_ROUND_NEG (rect_top r) m,
        rect_right = GUAC_RECT_ROUND_POS (rect_right r) m,
        rect_bottom = GUAC_RECT_ROUND_POS (rect_bottom r) m\<rparr>)"

section \<open>Rectangles given by dimensions (common)\<close>

record guac_common_rect =
  common_x :: int
  common_y :: int
  common_width :: int
  common_height :: int

definition guac_common_rect_init :: "int \<Rightarrow> int \<Rightarrow> int \<Rightarrow> int \<Rightarrow> guac_common_rect" where
  "guac_common_rect_init x y w h =
     \<lparr>common_x = x, common_y = y, common_width = w, common_height = h\<rparr>"

text \<open>The right and the bottom edge, which the source computes in place.\<close>

definition common_right :: "guac_common_rect \<Rightarrow> int" where
  "common_right r = wrap32 (common_x r + common_width r)"

definition common_bottom :: "guac_common_rect \<Rightarrow> int" where
  "common_bottom r = wrap32 (common_y r + common_height r)"

text \<open>The step all operations end with: \<open>init(rect, left, top, right - left, bottom - top)\<close>.\<close>

definition common_commit :: "int \<Rightarrow> int \<Rightarrow> int \<Rightarrow> int \<Rightarrow> guac_common_rect" where
  "common_commit left top_y right bottom =
     guac_common_rect_init left top_y (wrap32 (right - left)) (wrap32 (bottom - top_y))"

definition guac_common_rect_extend :: "guac_common_rect \<Rightarrow> guac_common_rect \<Rightarrow> guac_common_rect" where
  "guac_common_rect_extend rect m = (
    let left = common_x rect; top_y = common_y rect;
        right = common_right rect; bottom = common_bottom rect;
        min_left = common_x m; min_top = common_y m;
        min_right = common_right m; min_bottom = common_bottom m;
        left = (if min_left < left then min_left else left);
        top_y = (if min_top < top_y then min_top else top_y);
        right = (if min_right > right then min_right else right);
        bottom = (if min_bottom > bottom then min_bottom else bottom)
    in common_commit left top_y right bottom)"

definition guac_common_rect_constrain :: "guac_common_rect \<Rightarrow> guac_common_rect \<Rightarrow> guac_common_rect" where
  "guac_common_rect_constrain rect m = (
    let left = common_x rect; top_y = common_y rect;
        right = common_right rect; bottom = common_bottom rect;
        max_left = common_x m; max_top = common_y m;
        max_right = common_right m; max_bottom = common_bottom m;
        left = (if max_left > left then max_left else left);
        top_y = (if max_top > top_y then max_top else top_y);
        right = (if max_right < right then max_right else right);
        bottom = (if max_bottom < bottom then max_bottom else bottom)
    in common_commit left top_y right bottom)"

text \<open>
  Shifting one pair of edges back into the bounds, as \<open>guac_common_rect_expand_to_grid\<close> does for
  left and right and again for top and bottom.
\<close>

definition grid_adjust :: "int \<Rightarrow> int \<Rightarrow> int \<Rightarrow> int \<Rightarrow> int \<times> int" where
  "grid_adjust left right max_left max_right = (
    if right > max_right then
      let dw = wrap32 (right - max_right);
          right = wrap32 (right - dw);
          left = wrap32 (left - dw)
      in (if left < max_left then max_left else left, right)
    else if left < max_left then
      let dw = wrap32 (max_left - left);
          left = wrap32 (left + dw);
          right = wrap32 (right + dw)
      in (left, if right > max_right then max_right else right)
    else (left, right))"

text \<open>The return value 0 or -1, and the rectangle.\<close>

definition guac_common_rect_expand_to_grid ::
    "int \<Rightarrow> guac_common_rect \<Rightarrow> guac_common_rect \<Rightarrow> int \<times> guac_common_rect" where
  "guac_common_rect_expand_to_grid cell_size rect max_rect = (
    if cell_size \<le> 0 then (- 1, rect)
    else if cell_size = 1 then (0, rect)
    else
      let dw = wrap32 (cell_size - common_width rect smod cell_size);
          dh = wrap32 (cell_size - common_height rect smod cell_size);
          dx = dw sdiv 2;
          dy = dh sdiv 2;
          top_y = wrap32 (common_y rect - dy);
          left = wrap32 (common_x rect - dx);
          bottom = wrap32 (top_y + common_height rect + dh);
          right = wrap32 (left + common_width rect + dw);
          (left, right) = grid_adjust left right (common_x max_rect) (common_right max_rect);
          (top_y, bottom) = grid_adjust top_y bottom (common_y max_rect) (common_bottom max_rect)
      in (0, common_commit left top_y right bottom))"

definition guac_common_rect_intersects :: "guac_common_rect \<Rightarrow> guac_common_rect \<Rightarrow> int" where
  "guac_common_rect_intersects rect other = (
    if common_right other < common_x rect \<or> common_right rect < common_x other \<or>
       common_bottom other < common_y rect \<or> common_bottom rect < common_y other then 0
    else if common_x other \<le> common_x rect \<and> common_right other \<ge> common_right rect \<and>
       common_y other \<le> common_y rect \<and> common_bottom other \<ge> common_bottom rect then 2
    else 1)"

text \<open>\<open>None\<close> is the return value 0; \<open>Some (rect, split_rect)\<close> is 1 with both rectangles written.\<close>

definition guac_common_rect_clip_and_split ::
    "guac_common_rect \<Rightarrow> guac_common_rect \<Rightarrow> (guac_common_rect \<times> guac_common_rect) option" where
  "guac_common_rect_clip_and_split rect hole = (
    if guac_common_rect_intersects rect hole = 0 then None
    else if common_y rect < common_y hole then
      Some (common_commit (common_x rect) (common_y hole) (common_right rect) (common_bottom rect),
            common_commit (common_x rect) (common_y rect) (common_right rect) (common_y hole))
    else if common_x rect < common_x hole then
      Some (common_commit (common_x hole) (common_y rect) (common_right rect) (common_bottom rect),
            common_commit (common_x rect) (common_y rect) (common_x hole) (common_bottom rect))
    else if common_bottom rect > common_bottom hole then
      Some (common_commit (common_x rect) (common_y rect) (common_right rect) (common_bottom hole),
            common_commit (common_x rect) (common_bottom hole) (common_right rect) (common_bottom rect))
    else if common_right rect > common_right hole then
      Some (common_commit (common_x rect) (common_y rect) (common_right hole) (common_bottom rect),
            common_commit (common_right hole) (common_y rect) (common_right rect) (common_bottom rect))
    else None)"

section \<open>The areas of rectangles\<close>

definition rect_area :: "guac_rect \<Rightarrow> (int \<times> int) set" where
  "rect_area r = box (rect_left r) (rect_top r) (rect_right r) (rect_bottom r)"

definition common_area :: "guac_common_rect \<Rightarrow> (int \<times> int) set" where
  "common_area r = box (common_x r) (common_y r) (common_x r + common_width r) (common_y r + common_height r)"

text \<open>
  The coordinates for which nothing overflows: all edges between \<open>- 2 ^ 29\<close> and \<open>2 ^ 29\<close>.
\<close>

definition coord :: "int \<Rightarrow> bool" where
  "coord v \<longleftrightarrow> - (2 ^ 29) \<le> v \<and> v \<le> 2 ^ 29"

definition common_ok :: "guac_common_rect \<Rightarrow> bool" where
  "common_ok r \<longleftrightarrow> coord (common_x r) \<and> coord (common_y r) \<and>
     coord (common_x r + common_width r) \<and> coord (common_y r + common_height r)"

definition rect_ok :: "guac_rect \<Rightarrow> bool" where
  "rect_ok r \<longleftrightarrow> coord (rect_left r) \<and> coord (rect_top r) \<and> coord (rect_right r) \<and> coord (rect_bottom r)"

lemma wrap32_coord [simp]: "coord v \<Longrightarrow> wrap32 v = v"
  by (simp add: coord_def)

lemma wrap32_coord_diff [simp]: "coord a \<Longrightarrow> coord b \<Longrightarrow> wrap32 (a - b) = a - b"
  by (simp add: coord_def)

lemma common_edges [simp]:
  assumes "common_ok r"
  shows "common_right r = common_x r + common_width r" "common_bottom r = common_y r + common_height r"
  using assms by (simp_all add: common_ok_def common_right_def common_bottom_def)

lemma common_commit_ok:
  assumes "coord l" "coord t" "coord r" "coord b"
  shows "common_ok (common_commit l t r b)" "common_area (common_commit l t r b) = box l t r b"
  using assms by (simp_all add: common_commit_def guac_common_rect_init_def common_ok_def common_area_def)

text \<open>Both operations in terms of the edges.\<close>

lemma guac_rect_extend_max:
  "guac_rect_extend r m = (if guac_rect_is_empty r then m else
     \<lparr>rect_left = min (rect_left r) (rect_left m), rect_top = min (rect_top r) (rect_top m),
      rect_right = max (rect_right r) (rect_right m), rect_bottom = max (rect_bottom r) (rect_bottom m)\<rparr>)"
  by (cases r; cases m) (simp add: guac_rect_extend_def Let_def min_def max_def)

lemma guac_rect_constrain_min:
  "guac_rect_constrain r m =
     \<lparr>rect_left = max (rect_left r) (rect_left m), rect_top = max (rect_top r) (rect_top m),
      rect_right = min (rect_right r) (rect_right m), rect_bottom = min (rect_bottom r) (rect_bottom m)\<rparr>"
  by (cases r; cases m) (simp add: guac_rect_constrain_def Let_def min_def max_def)

lemma guac_common_rect_extend_max:
  assumes "common_ok r" "common_ok m"
  shows "guac_common_rect_extend r m = common_commit (min (common_x r) (common_x m)) (min (common_y r) (common_y m))
    (max (common_right r) (common_right m)) (max (common_bottom r) (common_bottom m))"
  by (simp add: guac_common_rect_extend_def Let_def min_def max_def)

lemma guac_common_rect_constrain_min:
  assumes "common_ok r" "common_ok m"
  shows "guac_common_rect_constrain r m = common_commit (max (common_x r) (common_x m)) (max (common_y r) (common_y m))
    (min (common_right r) (common_right m)) (min (common_bottom r) (common_bottom m))"
  by (simp add: guac_common_rect_constrain_def Let_def min_def max_def)

lemma coord_min_max [simp]: "coord a \<Longrightarrow> coord b \<Longrightarrow> coord (min a b)" "coord a \<Longrightarrow> coord b \<Longrightarrow> coord (max a b)"
  by (simp_all add: min_def max_def)

lemma rect_empty_area: "guac_rect_is_empty r \<longleftrightarrow> rect_area r = {}"
  by (simp add: guac_rect_is_empty_def rect_area_def box_empty_iff)

lemma box_hull_covers: "box l t r b \<union> box l' t' r' b' \<subseteq> box (min l l') (min t t') (max r r') (max b b')"
  by (auto simp: box_def)

lemma box_hull_least:
  assumes "box l t r b \<noteq> {}" "box l' t' r' b' \<noteq> {}" "box l t r b \<union> box l' t' r' b' \<subseteq> box x y x' y'"
  shows "box (min l l') (min t t') (max r r') (max b b') \<subseteq> box x y x' y'"
  using assms by (auto simp: box_empty_iff box_subset_iff not_le)

interpretation rects: region "\<lambda>_. True" rect_area guac_rect_extend guac_rect_constrain
proof
  show "rect_area r \<union> rect_area m \<subseteq> rect_area (guac_rect_extend r m)" for r m
    using box_hull_covers by (simp add: guac_rect_extend_max rect_empty_area) (simp add: rect_area_def)
  show "rect_area (guac_rect_extend r m) \<subseteq> rect_area s"
    if "rect_area r \<noteq> {}" "rect_area m \<noteq> {}" "rect_area r \<union> rect_area m \<subseteq> rect_area s" for r m s
    using that box_hull_least by (simp add: guac_rect_extend_max rect_empty_area) (simp add: rect_area_def)
  show "rect_area (guac_rect_constrain r m) = rect_area r \<inter> rect_area m" for r m
    by (simp add: rect_area_def guac_rect_constrain_min box_Int)
qed simp_all

interpretation commons: region common_ok common_area guac_common_rect_extend guac_common_rect_constrain
proof
  fix r m s
  assume ok: "common_ok r" "common_ok m"
  then have c: "coord (common_x r)" "coord (common_y r)" "coord (common_x r + common_width r)"
    "coord (common_y r + common_height r)" "coord (common_x m)" "coord (common_y m)"
    "coord (common_x m + common_width m)" "coord (common_y m + common_height m)"
    by (simp_all add: common_ok_def)
  note e = guac_common_rect_extend_max [OF ok] and k = guac_common_rect_constrain_min [OF ok]
  show "common_ok (guac_common_rect_extend r m)" "common_ok (guac_common_rect_constrain r m)"
    using ok c by (simp_all add: e k common_commit_ok)
  show "common_area r \<union> common_area m \<subseteq> common_area (guac_common_rect_extend r m)"
    using ok c box_hull_covers by (simp add: e common_commit_ok) (simp add: common_area_def)
  show "common_area (guac_common_rect_constrain r m) = common_area r \<inter> common_area m"
    using ok c by (simp add: k common_commit_ok) (simp add: common_area_def box_Int)
  show "common_area (guac_common_rect_extend r m) \<subseteq> common_area s"
    if "common_area r \<noteq> {}" "common_area m \<noteq> {}" "common_area r \<union> common_area m \<subseteq> common_area s"
    using ok c that box_hull_least by (simp add: e common_commit_ok) (simp add: common_area_def)
qed

section \<open>Edges on a grid\<close>

lemma wrap32_eq: "- 2147483648 \<le> x \<Longrightarrow> x < 2147483648 \<Longrightarrow> wrap32 x = x"
  by simp

lemma coord_bounds: "coord v \<Longrightarrow> - 536870912 \<le> v \<and> v \<le> 536870912"
  by (simp add: coord_def)

lemma and_not_low_bits: "v AND NOT (2 ^ n - 1) = v - v mod 2 ^ n" for v :: int
proof -
  have "v AND NOT (mask n) = push_bit n (drop_bit n v)"
    by (rule bit_eqI) (auto simp: bit_simps)
  also have "\<dots> = v - v mod 2 ^ n" by (simp add: push_bit_eq_mult drop_bit_eq_div minus_mod_eq_div_mult)
  finally show ?thesis by (simp add: mask_eq_exp_minus_1)
qed

lemma align_mask:
  assumes "n \<le> 28"
  shows "wrap32 (wrap32 (2 ^ n) - 1) = 2 ^ n - 1" "(2 :: int) ^ n \<le> 2 ^ 28"
proof -
  show p: "(2 :: int) ^ n \<le> 2 ^ 28" using assms by (intro power_increasing) simp_all
  then have "(1 :: int) \<le> 2 ^ n" "(2 :: int) ^ n \<le> 268435456" by simp_all
  then have "wrap32 (2 ^ n) = 2 ^ n" "wrap32 (2 ^ n - 1) = 2 ^ n - 1"
    by (rule_tac wrap32_eq; linarith)+
  then show "wrap32 (wrap32 (2 ^ n) - 1) = 2 ^ n - 1" by simp
qed

lemma round_neg: "GUAC_RECT_ROUND_NEG v (2 ^ n - 1) = v - v mod 2 ^ n"
  by (simp add: GUAC_RECT_ROUND_NEG_def and_not_low_bits)

lemma round_pos:
  assumes "coord v" "n \<le> 28"
  shows "GUAC_RECT_ROUND_POS v (2 ^ n - 1) = (v + (2 ^ n - 1)) - (v + (2 ^ n - 1)) mod 2 ^ n"
proof -
  have "(1 :: int) \<le> 2 ^ n" "(2 :: int) ^ n \<le> 268435456" using align_mask(2) [OF assms(2)] by simp_all
  then have "wrap32 (v + (2 ^ n - 1)) = v + (2 ^ n - 1)"
    using coord_bounds [OF assms(1)] by (intro wrap32_eq; linarith)
  then show ?thesis by (simp add: GUAC_RECT_ROUND_POS_def and_not_low_bits)
qed

lemma dvd_round: "(m :: int) dvd v - v mod m"
  by (simp add: minus_mod_eq_mult_div)

lemma round_down_bounds: "0 < m \<Longrightarrow> v - v mod m \<le> v \<and> v - m < v - v mod m" for v m :: int
  using pos_mod_bound [of m v] pos_mod_sign [of m v] by linarith

lemma round_up_bounds:
  "0 < m \<Longrightarrow> v \<le> v + (m - 1) - (v + (m - 1)) mod m \<and> v + (m - 1) - (v + (m - 1)) mod m < v + m" for v m :: int
  using pos_mod_bound [of m "v + (m - 1)"] pos_mod_sign [of m "v + (m - 1)"] by linarith

lemma sdiv_pos: "0 \<le> a \<Longrightarrow> 0 < b \<Longrightarrow> a sdiv b = a div b" for a b :: int
  by (cases "a = 0") (simp_all add: signed_divide_int_def)

lemma box_mono: "l' \<le> l \<Longrightarrow> t' \<le> t \<Longrightarrow> r \<le> r' \<Longrightarrow> b \<le> b' \<Longrightarrow> box l t r b \<subseteq> box l' t' r' b'"
  by (auto simp: box_def)

text \<open>One pair of edges in \<open>guac_common_rect_expand_to_grid\<close>.\<close>

lemma grid_adjust_spec:
  assumes g: "grid_adjust l r a b = (l', r')"
    and e: "l = x - d" "r = l + w + e" "0 \<le> d" "d \<le> e" "e \<le> 2 ^ 28" "0 \<le> w"
    and within: "a \<le> x" "x + w \<le> b" "coord a" "coord b"
  shows "a \<le> l' \<and> l' \<le> x \<and> x + w \<le> r' \<and> r' \<le> b \<and> (r' - l' = w + e \<or> l' = a \<and> r' = b)"
proof -
  note c = coord_bounds [OF within(3)] coord_bounds [OF within(4)]
  have e28: "e \<le> 268435456" using e(5) by simp
  have "wrap32 (r - b) = r - b" by (rule wrap32_eq) (use c e within e28 in linarith)+
  moreover have "wrap32 (r - (r - b)) = r - (r - b)" by (rule wrap32_eq) (use c in linarith)+
  moreover have "wrap32 (l - (r - b)) = l - (r - b)" by (rule wrap32_eq) (use c e within e28 in linarith)+
  moreover have "wrap32 (a - l) = a - l" by (rule wrap32_eq) (use c e within e28 in linarith)+
  moreover have "wrap32 (l + (a - l)) = l + (a - l)" by (rule wrap32_eq) (use c in linarith)+
  moreover have "wrap32 (r + (a - l)) = r + (a - l)" by (rule wrap32_eq) (use c e within e28 in linarith)+
  ultimately have g': "grid_adjust l r a b =
      (if r > b then (if l - (r - b) < a then a else l - (r - b), b)
       else if l < a then (a, if r + (a - l) > b then b else r + (a - l)) else (l, r))"
    by (simp add: grid_adjust_def Let_def)
  consider "r > b" | "\<not> r > b" "l < a" | "\<not> r > b" "\<not> l < a" by blast
  then show ?thesis
    by cases (use g g' e within in \<open>auto split: if_splits\<close>)
qed

text \<open>
  One dimension of \<open>guac_common_rect_expand_to_grid\<close>, with the arithmetic of the source.
\<close>

lemma grid_dimension:
  assumes cell: "1 < cell" "cell \<le> 2 ^ 28" and "0 \<le> w" "a \<le> x" "x + w \<le> b" "coord a" "coord b"
  obtains l r where
    "grid_adjust (wrap32 (x - wrap32 (cell - w smod cell) sdiv 2))
      (wrap32 (wrap32 (x - wrap32 (cell - w smod cell) sdiv 2) + w + wrap32 (cell - w smod cell))) a b = (l, r)"
    "a \<le> l" "l \<le> x" "x + w \<le> r" "r \<le> b" "cell dvd r - l \<or> l = a \<and> r = b"
proof -
  let ?d = "cell - w mod cell"
  have "0 \<le> w mod cell" "w mod cell < cell" using cell by simp_all
  moreover have "cell \<le> 268435456" using cell by simp
  ultimately have d: "0 < ?d" "?d \<le> 268435456" by linarith+
  have half: "?d sdiv 2 = ?d div 2" "0 \<le> ?d div 2" "?d div 2 \<le> ?d"
    using d by (simp_all add: sdiv_pos)
  have smod: "w smod cell = w mod cell"
    using cell assms(3) by (cases "w = 0") (simp_all add: signed_modulo_int_def)
  note b = coord_bounds [OF assms(6)] coord_bounds [OF assms(7)]
  have "wrap32 ?d = ?d" "wrap32 (x - ?d div 2) = x - ?d div 2"
    "wrap32 (x - ?d div 2 + w + ?d) = x - ?d div 2 + w + ?d"
    using d b half(2, 3) assms(3-5) by (rule_tac wrap32_eq; linarith)+
  then have e: "grid_adjust (wrap32 (x - wrap32 (cell - w smod cell) sdiv 2))
      (wrap32 (wrap32 (x - wrap32 (cell - w smod cell) sdiv 2) + w + wrap32 (cell - w smod cell))) a b =
      grid_adjust (x - ?d div 2) (x - ?d div 2 + w + ?d) a b"
    by (simp add: smod half(1))
  obtain l r where lr: "grid_adjust (x - ?d div 2) (x - ?d div 2 + w + ?d) a b = (l, r)" by fastforce
  have "a \<le> l \<and> l \<le> x \<and> x + w \<le> r \<and> r \<le> b \<and> (r - l = w + ?d \<or> l = a \<and> r = b)"
    by (rule grid_adjust_spec [OF lr]) (use d half assms in simp_all)
  moreover have "cell dvd w + ?d"
    using dvd_add [OF dvd_refl [of cell] dvd_round [of cell w]] by (simp add: algebra_simps)
  ultimately show thesis using e lr by (intro that [of l r]) auto
qed

text \<open>Scaling a dimension by a factor \<open>n / d\<close> rounded down.\<close>

lemma scaled_dimension:
  fixes H n d limit :: int
  assumes "0 < d" "0 \<le> H" "0 \<le> n" "H * n \<le> limit * d"
  shows "H * n div d \<le> limit" "H * n div d * d \<le> H * n" "H * n < H * n div d * d + d" "0 \<le> H * n div d"
proof -
  have m: "H * n div d * d + H * n mod d = H * n" by (rule div_mult_mod_eq)
  moreover have "0 \<le> H * n mod d" "H * n mod d < d" using assms(1) by simp_all
  ultimately show "H * n div d * d \<le> H * n" "H * n < H * n div d * d + d" by linarith+
  then have "H * n div d * d \<le> limit * d" using assms(4) by linarith
  then show "H * n div d \<le> limit" using assms(1) by simp
  show "0 \<le> H * n div d" using assms by (simp add: pos_imp_zdiv_nonneg_iff)
qed

lemma rect_align_edges:
  assumes "rect_ok r" "bits \<le> 28"
  shows "\<exists>r'. guac_rect_align r bits = r' \<and> rect_area r \<subseteq> rect_area r' \<and>
    (\<forall>e \<in> {rect_left r', rect_top r', rect_right r', rect_bottom r'}. 2 ^ bits dvd e) \<and>
    rect_left r - 2 ^ bits < rect_left r' \<and> rect_left r' \<le> rect_left r \<and>
    rect_top r - 2 ^ bits < rect_top r' \<and> rect_top r' \<le> rect_top r \<and>
    rect_right r \<le> rect_right r' \<and> rect_right r' < rect_right r + 2 ^ bits \<and>
    rect_bottom r \<le> rect_bottom r' \<and> rect_bottom r' < rect_bottom r + 2 ^ bits"
proof (cases "bits = 0")
  case True
  then show ?thesis by (simp add: guac_rect_align_def)
next
  case False
  let ?m = "2 ^ bits :: int"
  define v where "v = (rect_right r + (?m - 1), rect_bottom r + (?m - 1))"
  have c: "coord (rect_right r)" "coord (rect_bottom r)" using assms(1) by (simp_all add: rect_ok_def)
  have m: "0 < ?m" by simp
  have r': "guac_rect_align r bits = \<lparr>rect_left = rect_left r - rect_left r mod ?m,
      rect_top = rect_top r - rect_top r mod ?m,
      rect_right = fst v - fst v mod ?m, rect_bottom = snd v - snd v mod ?m\<rparr>"
    using False assms(2)
    by (simp add: guac_rect_align_def align_mask round_neg round_pos c v_def Let_def)
  have b: "rect_left r - rect_left r mod ?m \<le> rect_left r \<and> rect_left r - ?m < rect_left r - rect_left r mod ?m"
    "rect_top r - rect_top r mod ?m \<le> rect_top r \<and> rect_top r - ?m < rect_top r - rect_top r mod ?m"
    "rect_right r \<le> fst v - fst v mod ?m \<and> fst v - fst v mod ?m < rect_right r + ?m"
    "rect_bottom r \<le> snd v - snd v mod ?m \<and> snd v - snd v mod ?m < rect_bottom r + ?m"
    unfolding v_def fst_conv snd_conv by (rule round_down_bounds [OF m] round_up_bounds [OF m])+
  then have "rect_area r \<subseteq> rect_area (guac_rect_align r bits)"
    unfolding rect_area_def r' by (intro box_mono) simp_all
  with b show ?thesis by (auto simp: r' dvd_round)
qed

text \<open>How many sides of a rectangle stick out of a hole.\<close>

definition protruding :: "guac_common_rect \<Rightarrow> guac_common_rect \<Rightarrow> nat" where
  "protruding r h = of_bool (common_y r < common_y h) + of_bool (common_x r < common_x h) +
     of_bool (common_bottom r > common_bottom h) + of_bool (common_right r > common_right h)"

section \<open>Properties\<close>

text \<open>
  The dirty region of a sequence of updates. Extending a rectangle by each update in turn gives
  the intersection of all rectangles that contain every update, that is the least such rectangle;
  constraining it to the bounds of a surface gives a region inside the bounds that keeps every
  updated pixel within them.
\<close>

theorem guac_rect_dirty_hull:
  assumes "\<forall>m \<in> set (r # ms). \<not> guac_rect_is_empty m"
  shows "rect_area (fold (\<lambda>m r. guac_rect_extend r m) ms r) =
      \<Inter> {rect_area s | s. \<forall>m \<in> set (r # ms). rect_area m \<subseteq> rect_area s} \<and>
    rect_area (guac_rect_constrain (fold (\<lambda>m r. guac_rect_extend r m) ms r) bounds) \<subseteq> rect_area bounds \<and>
    (\<Union>m \<in> set (r # ms). rect_area m \<inter> rect_area bounds) \<subseteq>
      rect_area (guac_rect_constrain (fold (\<lambda>m r. guac_rect_extend r m) ms r) bounds)"
proof (intro conjI)
  let ?d = "fold (\<lambda>m r. guac_rect_extend r m) ms r"
  have covers: "\<forall>m \<in> set (r # ms). rect_area m \<subseteq> rect_area ?d"
    using rects.extend_all_covers [where r = r and ms = ms] by (auto simp: list_all_iff)
  have "rect_area ?d \<subseteq> rect_area s" if "\<forall>m \<in> set (r # ms). rect_area m \<subseteq> rect_area s" for s
    using that assms by (intro rects.extend_all_least) (simp_all add: rect_empty_area list_all_iff)
  with covers show "rect_area ?d = \<Inter> {rect_area s | s. \<forall>m \<in> set (r # ms). rect_area m \<subseteq> rect_area s}"
    by blast
  show "rect_area (guac_rect_constrain ?d bounds) \<subseteq> rect_area bounds"
    by (simp add: rects.constrain_area)
  show "(\<Union>m \<in> set (r # ms). rect_area m \<inter> rect_area bounds) \<subseteq> rect_area (guac_rect_constrain ?d bounds)"
    using rects.bounded_dirty [where r = r and ms = ms and bounds = bounds] by (auto simp: list_all_iff)
qed

theorem guac_rect_dirty_hull_witness:
  "rect_area (fold (\<lambda>m r. guac_rect_extend r m) [guac_rect_init 5 5 1 1] (guac_rect_init 0 0 2 2)) =
     \<Inter> {rect_area s | s. \<forall>m \<in> set [guac_rect_init 0 0 2 2, guac_rect_init 5 5 1 1]. rect_area m \<subseteq> rect_area s} \<and>
   guac_rect_extend (guac_rect_init 0 0 2 2) (guac_rect_init 5 5 1 1) = guac_rect_init 0 0 6 6"
  using guac_rect_dirty_hull [of "guac_rect_init 0 0 2 2" "[guac_rect_init 5 5 1 1]"]
  by (simp add: guac_rect_init_def guac_rect_is_empty_def guac_rect_extend_max)

text \<open>
  C31: one step of splitting a rectangle around a hole. The parts partition the rectangle, the part
  split off is outside the hole, and one side less of the rest sticks out of the hole, so that at
  most four steps are possible; no step is done exactly when the rectangles are apart or the
  rectangle lies within the hole.
\<close>

theorem guac_common_rect_clip_and_split_partition:
  assumes "common_ok rect" "common_ok hole" "0 \<le> common_width hole" "0 \<le> common_height hole"
  shows "case guac_common_rect_clip_and_split rect hole of
      None \<Rightarrow> common_area rect \<inter> common_area hole = {} \<or> common_area rect \<subseteq> common_area hole
    | Some (rest, split_rect) \<Rightarrow>
        common_area rest \<union> common_area split_rect = common_area rect \<and>
        common_area rest \<inter> common_area split_rect = {} \<and>
        common_area split_rect \<inter> common_area hole = {} \<and>
        common_ok rest \<and> common_ok split_rect \<and>
        protruding rest hole < protruding rect hole"
proof -
  have c: "coord (common_x rect)" "coord (common_y rect)" "coord (common_right rect)" "coord (common_bottom rect)"
    "coord (common_x hole)" "coord (common_y hole)" "coord (common_right hole)" "coord (common_bottom hole)"
    using assms by (simp_all add: common_ok_def)
  have a: "common_area r = box (common_x r) (common_y r) (common_right r) (common_bottom r)" if "common_ok r" for r
    using that by (simp add: common_area_def)
  have e: "common_x (common_commit l t r b) = l" "common_y (common_commit l t r b) = t"
    "common_right (common_commit l t r b) = r" "common_bottom (common_commit l t r b) = b"
    if "coord l" "coord t" "coord r" "coord b" for l t r b
    using that by (simp_all add: common_commit_def guac_common_rect_init_def common_right_def common_bottom_def)
  have i: "common_right rect \<ge> common_x hole" "common_x rect \<le> common_right hole"
    "common_bottom rect \<ge> common_y hole" "common_y rect \<le> common_bottom hole"
    if "guac_common_rect_intersects rect hole \<noteq> 0"
    using that by (auto simp: guac_common_rect_intersects_def split: if_splits)
  consider "guac_common_rect_intersects rect hole = 0"
    | "guac_common_rect_intersects rect hole \<noteq> 0" "common_y rect < common_y hole"
    | "guac_common_rect_intersects rect hole \<noteq> 0" "\<not> common_y rect < common_y hole" "common_x rect < common_x hole"
    | "guac_common_rect_intersects rect hole \<noteq> 0" "\<not> common_y rect < common_y hole" "\<not> common_x rect < common_x hole"
      "common_bottom rect > common_bottom hole"
    | "guac_common_rect_intersects rect hole \<noteq> 0" "\<not> common_y rect < common_y hole" "\<not> common_x rect < common_x hole"
      "\<not> common_bottom rect > common_bottom hole" "common_right rect > common_right hole"
    | "guac_common_rect_intersects rect hole \<noteq> 0" "\<not> common_y rect < common_y hole" "\<not> common_x rect < common_x hole"
      "\<not> common_bottom rect > common_bottom hole" "\<not> common_right rect > common_right hole"
    by blast
  then show ?thesis
  proof cases
    case 1
    then have "common_area rect \<inter> common_area hole = {}"
      using a [OF assms(1)] a [OF assms(2)]
      by (auto simp: guac_common_rect_intersects_def box_Int box_empty_iff split: if_splits)
    with 1 show ?thesis by (simp add: guac_common_rect_clip_and_split_def)
  next
    case 6
    then show ?thesis using a [OF assms(1)] a [OF assms(2)]
      by (auto simp: guac_common_rect_clip_and_split_def box_def)
  qed (use i c a [OF assms(1)] a [OF assms(2)] assms(3, 4) in
      \<open>auto simp: guac_common_rect_clip_and_split_def common_commit_ok e protruding_def box_def simp del: common_edges\<close>)
qed

theorem guac_common_rect_clip_and_split_partition_witness:
  "\<exists>rest split_rect. guac_common_rect_clip_and_split (guac_common_rect_init 0 0 10 10) (guac_common_rect_init 2 2 3 3)
       = Some (rest, split_rect) \<and>
     common_area rest \<union> common_area split_rect = common_area (guac_common_rect_init 0 0 10 10) \<and>
     common_area split_rect \<inter> common_area (guac_common_rect_init 2 2 3 3) = {}"
  using guac_common_rect_clip_and_split_partition [of "guac_common_rect_init 0 0 10 10" "guac_common_rect_init 2 2 3 3"]
  by (simp add: guac_common_rect_init_def common_ok_def coord_def guac_common_rect_clip_and_split_def
      guac_common_rect_intersects_def common_right_def common_bottom_def)

text \<open>
  Expanding an update to a grid of encoder blocks. A rectangle inside its bounds is expanded to one
  that still contains it and still lies inside the bounds, and each dimension is a multiple of the
  cell size unless it is the full dimension of the bounds; a cell size that is not positive is refused.
\<close>

theorem guac_common_rect_expand_to_grid_spec:
  assumes "common_ok rect" "common_ok bounds" "0 \<le> common_width rect" "0 \<le> common_height rect"
    and x: "common_x bounds \<le> common_x rect" "common_right rect \<le> common_right bounds"
    and y: "common_y bounds \<le> common_y rect" "common_bottom rect \<le> common_bottom bounds"
    and cell: "cell \<le> 2 ^ 28"
  shows "case guac_common_rect_expand_to_grid cell rect bounds of (status, r) \<Rightarrow>
    (status = 0 \<longleftrightarrow> 0 < cell) \<and>
    common_area rect \<subseteq> common_area r \<and>
    common_x bounds \<le> common_x r \<and> common_x r + common_width r \<le> common_right bounds \<and>
    common_y bounds \<le> common_y r \<and> common_y r + common_height r \<le> common_bottom bounds \<and>
    (0 < cell \<longrightarrow> cell dvd common_width r \<or> common_width r = common_width bounds) \<and>
    (0 < cell \<longrightarrow> cell dvd common_height r \<or> common_height r = common_height bounds)"
proof (cases "1 < cell")
  case False
  then consider "cell \<le> 0" | "cell = 1" by linarith
  then show ?thesis by cases (use assms in \<open>simp_all add: guac_common_rect_expand_to_grid_def\<close>)
next
  case True
  have c: "coord (common_x rect)" "coord (common_y rect)" "coord (common_x rect + common_width rect)"
    "coord (common_y rect + common_height rect)" "coord (common_x bounds)" "coord (common_y bounds)"
    "coord (common_right bounds)" "coord (common_bottom bounds)"
    using assms(1, 2) by (simp_all add: common_ok_def)
  have x': "common_x rect + common_width rect \<le> common_right bounds"
    and y': "common_y rect + common_height rect \<le> common_bottom bounds"
    using x y assms(1) by simp_all
  obtain l r where L: "grid_adjust (wrap32 (common_x rect - wrap32 (cell - common_width rect smod cell) sdiv 2))
      (wrap32 (wrap32 (common_x rect - wrap32 (cell - common_width rect smod cell) sdiv 2) + common_width rect +
        wrap32 (cell - common_width rect smod cell))) (common_x bounds) (common_right bounds) = (l, r)"
    "common_x bounds \<le> l" "l \<le> common_x rect" "common_x rect + common_width rect \<le> r" "r \<le> common_right bounds"
    "cell dvd r - l \<or> l = common_x bounds \<and> r = common_right bounds"
    by (rule grid_dimension [OF True cell assms(3) x(1) x' c(5, 7)])
  obtain t u where T: "grid_adjust (wrap32 (common_y rect - wrap32 (cell - common_height rect smod cell) sdiv 2))
      (wrap32 (wrap32 (common_y rect - wrap32 (cell - common_height rect smod cell) sdiv 2) + common_height rect +
        wrap32 (cell - common_height rect smod cell))) (common_y bounds) (common_bottom bounds) = (t, u)"
    "common_y bounds \<le> t" "t \<le> common_y rect" "common_y rect + common_height rect \<le> u" "u \<le> common_bottom bounds"
    "cell dvd u - t \<or> t = common_y bounds \<and> u = common_bottom bounds"
    by (rule grid_dimension [OF True cell assms(4) y(1) y' c(6, 8)])
  have lrtu: "coord l" "coord t" "coord r" "coord u" using L T c by (auto simp: coord_def)
  have r: "guac_common_rect_expand_to_grid cell rect bounds = (0, common_commit l t r u)"
    using True L(1) T(1) by (simp add: guac_common_rect_expand_to_grid_def)
  have d: "common_x (common_commit l t r u) = l" "common_width (common_commit l t r u) = r - l"
    "common_y (common_commit l t r u) = t" "common_height (common_commit l t r u) = u - t"
    using lrtu by (simp_all add: common_commit_def guac_common_rect_init_def)
  have "common_area rect \<subseteq> common_area (common_commit l t r u)"
    using L(2-5) T(2-5) by (auto simp: common_area_def d box_def)
  then show ?thesis using L T True assms(2) r d by auto
qed

theorem guac_common_rect_expand_to_grid_witness:
  "\<exists>r. guac_common_rect_expand_to_grid 16 (guac_common_rect_init 1 1 3 20) (guac_common_rect_init 0 0 100 30) = (0, r) \<and>
     common_area (guac_common_rect_init 1 1 3 20) \<subseteq> common_area r \<and>
     (16 dvd common_width r \<or> common_width r = 100) \<and> (16 dvd common_height r \<or> common_height r = 30)"
  using guac_common_rect_expand_to_grid_spec
    [of "guac_common_rect_init 1 1 3 20" "guac_common_rect_init 0 0 100 30" 16]
  by (auto simp: guac_common_rect_init_def common_ok_def coord_def common_right_def common_bottom_def
      split: prod.splits)

text \<open>
  Alignment to the cells of a display. Each edge becomes a multiple of the cell size and moves
  outward by less than one cell, so that the aligned rectangle contains the given one.
\<close>

theorem guac_rect_align_spec:
  assumes "rect_ok r" "bits \<le> 28"
  shows "\<exists>r'. guac_rect_align r bits = r' \<and> rect_area r \<subseteq> rect_area r' \<and>
    (\<forall>e \<in> {rect_left r', rect_top r', rect_right r', rect_bottom r'}. 2 ^ bits dvd e) \<and>
    rect_left r - 2 ^ bits < rect_left r' \<and> rect_left r' \<le> rect_left r \<and>
    rect_top r - 2 ^ bits < rect_top r' \<and> rect_top r' \<le> rect_top r \<and>
    rect_right r \<le> rect_right r' \<and> rect_right r' < rect_right r + 2 ^ bits \<and>
    rect_bottom r \<le> rect_bottom r' \<and> rect_bottom r' < rect_bottom r + 2 ^ bits"
  by (rule rect_align_edges [OF assms])

theorem guac_rect_align_witness:
  "rect_area (guac_rect_init (- 3) 60 10 10) \<subseteq> rect_area (guac_rect_align (guac_rect_init (- 3) 60 10 10) 6)"
  using guac_rect_align_spec [of "guac_rect_init (- 3) 60 10 10" 6]
  by (simp add: guac_rect_init_def rect_ok_def coord_def)

text \<open>
  Fitting a display size. A rectangle that is not empty keeps its corner, gets within both
  limits and reaches one of them or keeps its size, never grows, and keeps its aspect ratio up to
  the rounding of one dimension.
\<close>

theorem guac_rect_shrink_spec:
  assumes "rect_ok r" "\<not> guac_rect_is_empty r" "guac_rect_width r \<le> 46340" "guac_rect_height r \<le> 46340"
    and "0 \<le> max_width" "0 \<le> max_height"
  shows "\<exists>r'. guac_rect_shrink r max_width max_height = Inr r' \<and>
    rect_left r' = rect_left r \<and> rect_top r' = rect_top r \<and>
    guac_rect_width r' \<le> min (guac_rect_width r) max_width \<and>
    guac_rect_height r' \<le> min (guac_rect_height r) max_height \<and>
    (guac_rect_width r' = min (guac_rect_width r) max_width \<or>
     guac_rect_height r' = min (guac_rect_height r) max_height) \<and>
    guac_rect_width r' * guac_rect_height r - guac_rect_height r' * guac_rect_width r < guac_rect_width r \<and>
    guac_rect_height r' * guac_rect_width r - guac_rect_width r' * guac_rect_height r < guac_rect_height r"
proof -
  let ?W = "guac_rect_width r" and ?H = "guac_rect_height r"
  let ?w = "min ?W max_width" and ?h = "min ?H max_height"
  have c: "coord (rect_left r)" "coord (rect_top r)" "coord (rect_right r)" "coord (rect_bottom r)"
    using assms(1) by (simp_all add: rect_ok_def)
  have pos: "0 < ?W" "0 < ?H"
    using assms(2) c by (simp_all add: guac_rect_is_empty_def guac_rect_width_def guac_rect_height_def)
  have mul: "wrap32 (a * b) = a * b" if "0 \<le> a" "a \<le> 46340" "0 \<le> b" "b \<le> 46340" for a b
    using mult_mono [of a 46340 b 46340] that by (intro wrap32_eq) (simp_all add: order_trans [of _ 0])
  have sz: "guac_rect_width (r\<lparr>rect_right := wrap32 (rect_left r + w), rect_bottom := wrap32 (rect_top r + h)\<rparr>) = w \<and>
      guac_rect_height (r\<lparr>rect_right := wrap32 (rect_left r + w), rect_bottom := wrap32 (rect_top r + h)\<rparr>) = h"
    if "0 \<le> w" "w \<le> ?W" "0 \<le> h" "h \<le> ?H" for w h
  proof -
    have "wrap32 (rect_left r + w) = rect_left r + w" "wrap32 (rect_top r + h) = rect_top r + h" 
      "wrap32 w = w" "wrap32 h = h"
      using that assms(3, 4) c [THEN coord_bounds] by (rule_tac wrap32_eq; linarith)+
    then show ?thesis using that by (simp add: guac_rect_width_def guac_rect_height_def)
  qed
  have e: "guac_rect_shrink r max_width max_height =
      (let (n, d) = (if ?w * ?H < ?h * ?W then (?w, ?W) else (?h, ?H))
       in Inr (r\<lparr>rect_right := wrap32 (rect_left r + ?W * n div d), rect_bottom := wrap32 (rect_top r + ?H * n div d)\<rparr>))"
  proof -
    have m: "(if ?W < max_width then ?W else max_width) = ?w" "(if ?H < max_height then ?H else max_height) = ?h"
      by (simp_all add: min_def)
    have w: "0 \<le> ?w" "?w \<le> 46340" "0 \<le> ?h" "?h \<le> 46340" using assms(3-6) pos by simp_all
    note p = mul [OF w(1, 2) _ assms(4)] mul [OF w(3, 4) _ assms(3)] mul [OF _ assms(3) w(1, 2)]
      mul [OF _ assms(4) w(1, 2)] mul [OF _ assms(3) w(3, 4)] mul [OF _ assms(4) w(3, 4)]
    have q: "a * b sdiv d = a * b div d" if "0 \<le> a" "0 \<le> b" "0 < d" for a b d :: int
      using that by (simp add: sdiv_pos)
    show ?thesis
      unfolding guac_rect_shrink_def Let_def m using pos w by (simp add: p q)
  qed
  show ?thesis
  proof (cases "?w * ?H < ?h * ?W")
    case True
    then have "?H * ?w \<le> ?h * ?W" by (simp add: mult.commute)
    from scaled_dimension [OF pos(1) _ _ this] pos assms(5)
    have s: "?H * ?w div ?W \<le> ?h" "?H * ?w div ?W * ?W \<le> ?H * ?w" "?H * ?w < ?H * ?w div ?W * ?W + ?W"
      "0 \<le> ?H * ?w div ?W" by simp_all
    show ?thesis using True s pos sz [of ?w "?H * ?w div ?W"] assms(5, 6) by (simp add: e mult.commute)
  next
    case False
    then have "?W * ?h \<le> ?w * ?H" by (simp add: mult.commute)
    from scaled_dimension [OF pos(2) _ _ this] pos assms(6)
    have s: "?W * ?h div ?H \<le> ?w" "?W * ?h div ?H * ?H \<le> ?W * ?h" "?W * ?h < ?W * ?h div ?H * ?H + ?H"
      "0 \<le> ?W * ?h div ?H" by simp_all
    show ?thesis using False s pos sz [of "?W * ?h div ?H" ?h] assms(5, 6) by (simp add: e mult.commute)
  qed
qed

theorem guac_rect_shrink_witness:
  "\<exists>r'. guac_rect_shrink (guac_rect_init 0 0 10000 3000) 8192 8192 = Inr r' \<and>
     guac_rect_width r' \<le> 8192 \<and> guac_rect_height r' \<le> 3000"
  using guac_rect_shrink_spec [of "guac_rect_init 0 0 10000 3000" 8192 8192]
  by (auto simp: guac_rect_init_def rect_ok_def coord_def guac_rect_is_empty_def guac_rect_width_def
      guac_rect_height_def)

text \<open>
  C38: a rectangle without height makes \<open>guac_rect_shrink\<close> divide by zero. The size a user asks for
  reaches this function unchecked.
\<close>

theorem guac_rect_shrink_flat:
  assumes "guac_rect_height r = 0" "0 \<le> max_height"
  shows "guac_rect_shrink r max_width max_height = Inl Undefined"
  using assms by (simp add: guac_rect_shrink_def Let_def)

theorem guac_rect_shrink_flat_witness:
  "guac_rect_shrink \<lparr>rect_left = 0, rect_top = 0, rect_right = 800, rect_bottom = 0\<rparr> 8192 8192 = Inl Undefined"
  by (rule guac_rect_shrink_flat) (simp_all add: guac_rect_height_def)

end
