(* ===== verification/DisplayPlan.thy ===== *)
theory DisplayPlan
  imports Rect
begin

text \<open>
  The plan of drawing operations for a frame (\<open>libguac/display-plan.h\<close>) and the passes that combine
  operations of neighbouring cells (\<open>libguac/display-plan-combine.c\<close>). A pointer to an operation of
  the plan is its index in the array of operations, a layer is named by a number, and the list of
  layers that a display links together is a list. The theorems show that combining never changes
  the image a plan draws.
\<close>

section \<open>Data\<close>

datatype guac_display_plan_operation_type =
    GUAC_DISPLAY_PLAN_OPERATION_NOP
  | GUAC_DISPLAY_PLAN_OPERATION_COPY
  | GUAC_DISPLAY_PLAN_OPERATION_RECT
  | GUAC_DISPLAY_PLAN_OPERATION_IMG

text \<open>
  The members of the union \<open>src\<close> are separate fields; each is read only for the type of operation
  that has set it.
\<close>

record guac_display_plan_operation =
  op_layer :: nat
  op_type :: guac_display_plan_operation_type
  op_dest :: guac_rect
  op_dirty_size :: size_t
  op_last_frame :: int
  op_current_frame :: int
  op_src_color :: "32 word"
  op_src_rect :: guac_rect
  op_src_layer :: nat

record guac_display_layer_cell =
  cell_last_frame :: int
  cell_dirty :: guac_rect
  cell_dirty_size :: size_t
  cell_related_op :: "nat option"

definition GUAC_DISPLAY_NEGLIGIBLE_WIDTH :: int where "GUAC_DISPLAY_NEGLIGIBLE_WIDTH = 64"
definition GUAC_DISPLAY_NEGLIGIBLE_HEIGHT :: int where "GUAC_DISPLAY_NEGLIGIBLE_HEIGHT = 64"
definition GUAC_DISPLAY_DATA_FACTOR :: int where "GUAC_DISPLAY_DATA_FACTOR = 128"
definition GUAC_DISPLAY_MAX_COMBINED_SIZE :: nat where "GUAC_DISPLAY_MAX_COMBINED_SIZE = 9"
definition GUAC_DISPLAY_BASE_COST :: int where "GUAC_DISPLAY_BASE_COST = 4096"
definition GUAC_DISPLAY_NEGLIGIBLE_INCREASE :: int where "GUAC_DISPLAY_NEGLIGIBLE_INCREASE = 4"

lemmas plan_constants = GUAC_DISPLAY_NEGLIGIBLE_WIDTH_def GUAC_DISPLAY_NEGLIGIBLE_HEIGHT_def
  GUAC_DISPLAY_DATA_FACTOR_def GUAC_DISPLAY_MAX_COMBINED_SIZE_def GUAC_DISPLAY_BASE_COST_def
  GUAC_DISPLAY_NEGLIGIBLE_INCREASE_def

section \<open>When operations are combined\<close>

definition guac_display_plan_rect_crosses_boundary :: "guac_rect \<Rightarrow> bool" where
  "guac_display_plan_rect_crosses_boundary rect = (
    let rect_copy = guac_rect_align rect GUAC_DISPLAY_MAX_COMBINED_SIZE;
        max_size_pixels = wrap32 (push_bit GUAC_DISPLAY_MAX_COMBINED_SIZE 1)
    in guac_rect_width rect_copy > max_size_pixels \<or> guac_rect_height rect_copy > max_size_pixels)"

definition guac_display_plan_has_common_edge ::
    "guac_display_plan_operation \<Rightarrow> guac_display_plan_operation \<Rightarrow> bool" where
  "guac_display_plan_has_common_edge op_a op_b = (
    let a = op_dest op_a; b = op_dest op_b in
    if rect_top a = rect_top b \<and> rect_bottom a = rect_bottom b then
      rect_right a = rect_left b \<or> rect_left a = rect_right b
    else if rect_left a = rect_left b \<and> rect_right a = rect_right b then
      rect_top a = rect_bottom b \<or> rect_bottom a = rect_top b
    else False)"

text \<open>
  The part of \<open>guac_display_plan_should_combine\<close> after the switch. The costs are \<open>int\<close>s: the sum of
  the base cost and a \<open>size_t\<close> is computed as \<open>size_t\<close> and converted.
\<close>

definition combine_by_cost ::
    "guac_display_plan_operation \<Rightarrow> guac_display_plan_operation \<Rightarrow> guac_rect \<Rightarrow> bool" where
  "combine_by_cost op_a op_b combined = (
    let combined_width = guac_rect_width combined;
        combined_height = guac_rect_height combined
    in if combined_width \<le> GUAC_DISPLAY_NEGLIGIBLE_WIDTH \<and> combined_height \<le> GUAC_DISPLAY_NEGLIGIBLE_HEIGHT
    then True
    else
      let cost_ab = wrap32 (GUAC_DISPLAY_BASE_COST + wrap32 (combined_width * combined_height));
          cost_a = wrap32 (uint (of_int GUAC_DISPLAY_BASE_COST + op_dirty_size op_a));
          cost_b = wrap32 (uint (of_int GUAC_DISPLAY_BASE_COST + op_dirty_size op_b));
          cost_a = (if op_type op_a \<noteq> GUAC_DISPLAY_PLAN_OPERATION_IMG then cost_a sdiv GUAC_DISPLAY_DATA_FACTOR else cost_a);
          cost_b = (if op_type op_b \<noteq> GUAC_DISPLAY_PLAN_OPERATION_IMG then cost_b sdiv GUAC_DISPLAY_DATA_FACTOR else cost_b)
      in cost_ab \<le> wrap32 (cost_b + cost_a) \<or>
         wrap32 (cost_ab - cost_a) \<le> cost_a sdiv GUAC_DISPLAY_NEGLIGIBLE_INCREASE \<or>
         wrap32 (cost_ab - cost_b) \<le> cost_b sdiv GUAC_DISPLAY_NEGLIGIBLE_INCREASE)"

definition guac_display_plan_should_combine ::
    "guac_display_plan_operation \<Rightarrow> guac_display_plan_operation \<Rightarrow> bool" where
  "guac_display_plan_should_combine op_a op_b = (
    if op_layer op_a \<noteq> op_layer op_b then False
    else
      let combined = guac_rect_extend (op_dest op_a) (op_dest op_b)
      in if op_type op_a = op_type op_b then
        (case op_type op_a of
          GUAC_DISPLAY_PLAN_OPERATION_COPY \<Rightarrow>
            if op_src_layer op_a = op_src_layer op_b \<and> guac_display_plan_has_common_edge op_a op_b then
              let delta_xa = wrap32 (rect_left (op_dest op_a) - rect_left (op_src_rect op_a));
                  delta_ya = wrap32 (rect_top (op_dest op_a) - rect_top (op_src_rect op_a));
                  delta_xb = wrap32 (rect_left (op_dest op_b) - rect_left (op_src_rect op_b));
                  delta_yb = wrap32 (rect_top (op_dest op_b) - rect_top (op_src_rect op_b))
              in delta_xa = delta_xb \<and> delta_ya = delta_yb \<and>
                 \<not> guac_display_plan_rect_crosses_boundary combined
            else combine_by_cost op_a op_b combined
        | GUAC_DISPLAY_PLAN_OPERATION_RECT \<Rightarrow>
            op_src_color op_a = op_src_color op_b \<and> guac_display_plan_has_common_edge op_a op_b \<and>
            \<not> guac_display_plan_rect_crosses_boundary combined
        | GUAC_DISPLAY_PLAN_OPERATION_IMG \<Rightarrow> \<not> guac_display_plan_rect_crosses_boundary combined
        | GUAC_DISPLAY_PLAN_OPERATION_NOP \<Rightarrow> combine_by_cost op_a op_b combined)
      else combine_by_cost op_a op_b combined)"

text \<open>What the first operation becomes when the second is merged into it.\<close>

definition combine_ops ::
    "guac_display_plan_operation \<Rightarrow> guac_display_plan_operation \<Rightarrow> guac_display_plan_operation" where
  "combine_ops op_a op_b = (
    let op_a = op_a\<lparr>op_dest := guac_rect_extend (op_dest op_a) (op_dest op_b)\<rparr>;
        op_a = (if op_type op_a \<noteq> op_type op_b then op_a\<lparr>op_type := GUAC_DISPLAY_PLAN_OPERATION_IMG\<rparr>
          else if op_type op_a = GUAC_DISPLAY_PLAN_OPERATION_COPY
            then op_a\<lparr>op_src_rect := guac_rect_extend (op_src_rect op_a) (op_src_rect op_b)\<rparr>
          else op_a);
        op_a = op_a\<lparr>op_dirty_size := op_dirty_size op_a + op_dirty_size op_b\<rparr>
    in if op_last_frame op_b > op_last_frame op_a then op_a\<lparr>op_last_frame := op_last_frame op_b\<rparr> else op_a)"

definition guac_display_plan_combine_if_improved ::
    "guac_display_plan_operation list \<Rightarrow> nat \<Rightarrow> nat \<Rightarrow> bool \<times> guac_display_plan_operation list" where
  "guac_display_plan_combine_if_improved ops a b = (
    if a = b then (False, ops)
    else if guac_display_plan_should_combine (ops ! a) (ops ! b) then
      (True, ops[a := combine_ops (ops ! a) (ops ! b),
                 b := (ops ! b)\<lparr>op_type := GUAC_DISPLAY_PLAN_OPERATION_NOP\<rparr>])
    else (False, ops))"

section \<open>The passes over the cells\<close>

text \<open>The parts of \<open>guac_display_layer\<close> that the passes use, with the cells in row-major order.\<close>

record plan_layer =
  layer_dirty :: guac_rect
  layer_cells :: "guac_display_layer_cell list"
  layer_cells_width :: nat
  layer_cells_height :: nat

type_synonym plan_state = "guac_display_plan_operation list \<times> guac_display_layer_cell list"

text \<open>
  The body of the inner loops: the operations of two cells are combined and the second cell is made
  to refer to the combined operation. The vertical pass asks for a common edge as well.
\<close>

definition combine_cells :: "bool \<Rightarrow> nat \<Rightarrow> nat \<Rightarrow> plan_state \<Rightarrow> plan_state" where
  "combine_cells edge previous cell st = (case st of (ops, cells) \<Rightarrow>
    (case (cell_related_op (cells ! previous), cell_related_op (cells ! cell)) of
      (Some a, Some b) \<Rightarrow>
        if edge \<and> \<not> guac_display_plan_has_common_edge (ops ! a) (ops ! b) then (ops, cells)
        else (case guac_display_plan_combine_if_improved ops a b of (combined, ops) \<Rightarrow>
          (ops, if combined then cells[cell := (cells ! cell)\<lparr>cell_related_op := Some a\<rparr>] else cells))
    | _ \<Rightarrow> (ops, cells)))"

definition combine_layer_horizontally :: "nat \<Rightarrow> nat \<Rightarrow> plan_state \<Rightarrow> plan_state" where
  "combine_layer_horizontally w h st =
    foldl (\<lambda>st y. foldl (\<lambda>st x. combine_cells False (y * w + x - 1) (y * w + x) st) st [1..<w]) st [0..<h]"

definition combine_layer_vertically :: "nat \<Rightarrow> nat \<Rightarrow> plan_state \<Rightarrow> plan_state" where
  "combine_layer_vertically w h st =
    foldl (\<lambda>st x. foldl (\<lambda>st y. combine_cells True ((y - 1) * w + x) (y * w + x) st) st [1..<h]) st [0..<w]"

fun combine_layers :: "(nat \<Rightarrow> nat \<Rightarrow> plan_state \<Rightarrow> plan_state) \<Rightarrow>
    guac_display_plan_operation list \<Rightarrow> 'a plan_layer_scheme list \<Rightarrow> guac_display_plan_operation list \<times> 'a plan_layer_scheme list" where
  "combine_layers pass ops [] = (ops, [])"
| "combine_layers pass ops (l # ls) =
    (let (ops, l) = (if \<not> guac_rect_is_empty (layer_dirty l) then
           (case pass (layer_cells_width l) (layer_cells_height l) (ops, layer_cells l) of
             (ops, cells) \<Rightarrow> (ops, l\<lparr>layer_cells := cells\<rparr>))
         else (ops, l));
         (ops, ls) = combine_layers pass ops ls
     in (ops, l # ls))"

definition PFW_guac_display_plan_combine_horizontally ::
    "guac_display_plan_operation list \<Rightarrow> 'a plan_layer_scheme list \<Rightarrow> guac_display_plan_operation list \<times> 'a plan_layer_scheme list" where
  "PFW_guac_display_plan_combine_horizontally = combine_layers combine_layer_horizontally"

definition PFW_guac_display_plan_combine_vertically ::
    "guac_display_plan_operation list \<Rightarrow> 'a plan_layer_scheme list \<Rightarrow> guac_display_plan_operation list \<times> 'a plan_layer_scheme list" where
  "PFW_guac_display_plan_combine_vertically = combine_layers combine_layer_vertically"

section \<open>What a plan draws\<close>

text \<open>
  A frame maps layers and pixels to colours. An operation is correct when what it draws is the
  pending frame: an image is taken from the pending frame itself, a rectangle must have the one
  colour, and a copy must find the pixels in the frame \<open>L\<close> it copies from.
\<close>

type_synonym frame = "nat \<Rightarrow> int \<times> int \<Rightarrow> 32 word"

definition op_correct :: "frame \<Rightarrow> frame \<Rightarrow> guac_display_plan_operation \<Rightarrow> bool" where
  "op_correct P L oper = (case op_type oper of
      GUAC_DISPLAY_PLAN_OPERATION_NOP \<Rightarrow> True
    | GUAC_DISPLAY_PLAN_OPERATION_IMG \<Rightarrow> True
    | GUAC_DISPLAY_PLAN_OPERATION_RECT \<Rightarrow>
        \<forall>p \<in> rect_area (op_dest oper). P (op_layer oper) p = op_src_color oper
    | GUAC_DISPLAY_PLAN_OPERATION_COPY \<Rightarrow>
        \<forall>(x, y) \<in> rect_area (op_dest oper). P (op_layer oper) (x, y) = L (op_src_layer oper)
          (x - (rect_left (op_dest oper) - rect_left (op_src_rect oper)),
           y - (rect_top (op_dest oper) - rect_top (op_src_rect oper))))"

definition on_screen :: "guac_rect \<Rightarrow> bool" where
  "on_screen r \<longleftrightarrow> 0 \<le> rect_left r \<and> rect_left r < rect_right r \<and> rect_right r \<le> 8192 \<and>
     0 \<le> rect_top r \<and> rect_top r < rect_bottom r \<and> rect_bottom r \<le> 8192"

text \<open>
  Every operation is within the largest layer; copies are at least one cell large, have a source of
  the same size, and changed no more pixels than they have.
\<close>

definition op_wf :: "guac_display_plan_operation \<Rightarrow> bool" where
  "op_wf oper \<longleftrightarrow> on_screen (op_dest oper) \<and>
    (op_type oper = GUAC_DISPLAY_PLAN_OPERATION_COPY \<longrightarrow>
      on_screen (op_src_rect oper) \<and>
      rect_right (op_src_rect oper) - rect_left (op_src_rect oper) = rect_right (op_dest oper) - rect_left (op_dest oper) \<and>
      rect_bottom (op_src_rect oper) - rect_top (op_src_rect oper) = rect_bottom (op_dest oper) - rect_top (op_dest oper) \<and>
      64 \<le> rect_right (op_dest oper) - rect_left (op_dest oper) \<and>
      64 \<le> rect_bottom (op_dest oper) - rect_top (op_dest oper) \<and>
      uint (op_dirty_size oper) \<le> (rect_right (op_dest oper) - rect_left (op_dest oper)) *
        (rect_bottom (op_dest oper) - rect_top (op_dest oper)))"

definition copies_apart :: "guac_display_plan_operation list \<Rightarrow> bool" where
  "copies_apart ops \<longleftrightarrow> (\<forall>i < length ops. \<forall>j < length ops. i \<noteq> j \<longrightarrow>
     op_type (ops ! i) = GUAC_DISPLAY_PLAN_OPERATION_COPY \<longrightarrow>
     op_type (ops ! j) = GUAC_DISPLAY_PLAN_OPERATION_COPY \<longrightarrow>
     op_layer (ops ! i) = op_layer (ops ! j) \<longrightarrow>
     rect_area (op_dest (ops ! i)) \<inter> rect_area (op_dest (ops ! j)) = {})"

definition plan_sound :: "frame \<Rightarrow> frame \<Rightarrow> guac_display_plan_operation list \<Rightarrow> bool" where
  "plan_sound P L ops \<longleftrightarrow> list_all op_wf ops \<and> list_all (op_correct P L) ops \<and> copies_apart ops"

text \<open>The pixels of a layer that a plan draws, and its operations that are not dropped.\<close>

definition live :: "guac_display_plan_operation list \<Rightarrow> nat set" where
  "live ops = {i. i < length ops \<and> op_type (ops ! i) \<noteq> GUAC_DISPLAY_PLAN_OPERATION_NOP}"

definition drawn :: "guac_display_plan_operation list \<Rightarrow> nat \<Rightarrow> (int \<times> int) set" where
  "drawn ops l = (\<Union>i \<in> {i \<in> live ops. op_layer (ops ! i) = l}. rect_area (op_dest (ops ! i)))"

definition improves :: "guac_display_plan_operation list \<Rightarrow> guac_display_plan_operation list \<Rightarrow> bool" where
  "improves ops ops' \<longleftrightarrow> length ops' = length ops \<and> (\<forall>l. drawn ops l \<subseteq> drawn ops' l) \<and>
     card (live ops') \<le> card (live ops)"

lemma improves_refl [simp]: "improves ops ops"
  by (simp add: improves_def)

lemma improves_trans: "improves a b \<Longrightarrow> improves b c \<Longrightarrow> improves a c"
  by (simp add: improves_def) (use subset_trans in blast)

lemma finite_live [simp]: "finite (live ops)"
  by (simp add: live_def)

section \<open>Rectangles with a common edge\<close>

lemma on_screen_ok: "on_screen r \<Longrightarrow> rect_ok r"
  by (simp add: on_screen_def rect_ok_def coord_def)

lemma on_screen_size:
  assumes "on_screen r"
  shows "guac_rect_width r = rect_right r - rect_left r" "guac_rect_height r = rect_bottom r - rect_top r"
    "\<not> guac_rect_is_empty r"
  using assms by (simp_all add: on_screen_def guac_rect_width_def guac_rect_height_def guac_rect_is_empty_def)

lemma on_screen_extend:
  assumes "on_screen a" "on_screen b"
  shows "on_screen (guac_rect_extend a b)"
    "guac_rect_extend a b =
     \<lparr>rect_left = min (rect_left a) (rect_left b), rect_top = min (rect_top a) (rect_top b),
      rect_right = max (rect_right a) (rect_right b), rect_bottom = max (rect_bottom a) (rect_bottom b)\<rparr>"
proof -
  show e: "guac_rect_extend a b =
     \<lparr>rect_left = min (rect_left a) (rect_left b), rect_top = min (rect_top a) (rect_top b),
      rect_right = max (rect_right a) (rect_right b), rect_bottom = max (rect_bottom a) (rect_bottom b)\<rparr>"
    using on_screen_size(3) [OF assms(1)] by (simp add: guac_rect_extend_max)
  show "on_screen (guac_rect_extend a b)"
    using assms by (simp add: e on_screen_def min_def max_def)
qed

text \<open>Sharing an edge, the hull of two rectangles is their union, and the areas add up.\<close>

lemma common_edge_cases:
  assumes "guac_display_plan_has_common_edge p q"
  obtains "rect_top (op_dest p) = rect_top (op_dest q)" "rect_bottom (op_dest p) = rect_bottom (op_dest q)"
      "rect_right (op_dest p) = rect_left (op_dest q)"
  | "rect_top (op_dest p) = rect_top (op_dest q)" "rect_bottom (op_dest p) = rect_bottom (op_dest q)"
      "rect_left (op_dest p) = rect_right (op_dest q)"
  | "rect_left (op_dest p) = rect_left (op_dest q)" "rect_right (op_dest p) = rect_right (op_dest q)"
      "rect_top (op_dest p) = rect_bottom (op_dest q)"
  | "rect_left (op_dest p) = rect_left (op_dest q)" "rect_right (op_dest p) = rect_right (op_dest q)"
      "rect_bottom (op_dest p) = rect_top (op_dest q)"
  using assms by (auto simp: guac_display_plan_has_common_edge_def Let_def split: if_splits)

lemma common_edge_union:
  assumes "on_screen (op_dest p)" "on_screen (op_dest q)" "guac_display_plan_has_common_edge p q"
  shows "rect_area (guac_rect_extend (op_dest p) (op_dest q)) = rect_area (op_dest p) \<union> rect_area (op_dest q)"
  using assms(3)
  by (rule common_edge_cases)
    (use assms(1, 2) in \<open>auto simp: on_screen_extend rect_area_def box_def on_screen_def\<close>)

lemma common_edge_size:
  assumes "on_screen (op_dest p)" "on_screen (op_dest q)" "guac_display_plan_has_common_edge p q"
  defines "h \<equiv> guac_rect_extend (op_dest p) (op_dest q)"
  shows "(rect_right h - rect_left h) * (rect_bottom h - rect_top h) =
    (rect_right (op_dest p) - rect_left (op_dest p)) * (rect_bottom (op_dest p) - rect_top (op_dest p)) +
    (rect_right (op_dest q) - rect_left (op_dest q)) * (rect_bottom (op_dest q) - rect_top (op_dest q))"
  using assms(3)
  by (rule common_edge_cases)
    (use assms(1, 2) in \<open>auto simp: h_def on_screen_extend on_screen_def algebra_simps min_def max_def\<close>)

section \<open>Combining two operations\<close>

lemma rect_size_le:
  assumes "on_screen a" "on_screen b"
  defines "h \<equiv> guac_rect_extend a b"
  shows "(rect_right a - rect_left a) * (rect_bottom a - rect_top a) \<le> (rect_right h - rect_left h) * (rect_bottom h - rect_top h)"
    "(rect_right b - rect_left b) * (rect_bottom b - rect_top b) \<le> (rect_right h - rect_left h) * (rect_bottom h - rect_top h)"
    "(rect_right h - rect_left h) * (rect_bottom h - rect_top h) \<le> 67108864"
    "0 < (rect_right h - rect_left h) * (rect_bottom h - rect_top h)"
proof -
  have h: "on_screen h" unfolding h_def by (rule on_screen_extend(1) [OF assms(1, 2)])
  show "(rect_right a - rect_left a) * (rect_bottom a - rect_top a) \<le> (rect_right h - rect_left h) * (rect_bottom h - rect_top h)"
    "(rect_right b - rect_left b) * (rect_bottom b - rect_top b) \<le> (rect_right h - rect_left h) * (rect_bottom h - rect_top h)"
    using assms(1, 2) by (intro mult_mono; simp add: h_def on_screen_extend on_screen_def min_def max_def)+
  have "(rect_right h - rect_left h) * (rect_bottom h - rect_top h) \<le> 8192 * 8192"
    using h by (intro mult_mono) (simp_all add: on_screen_def)
  then show "(rect_right h - rect_left h) * (rect_bottom h - rect_top h) \<le> 67108864" by simp
  show "0 < (rect_right h - rect_left h) * (rect_bottom h - rect_top h)"
    using h by (simp add: on_screen_def)
qed

text \<open>
  The cost estimate never merges two copies: drawing their hull as image data would be far more
  expensive, and disjoint cells have no hull of negligible size.
\<close>

lemma size_t_cost:
  "uint (op_dirty_size p) \<le> 67108864 \<Longrightarrow>
    wrap32 (uint (of_int GUAC_DISPLAY_BASE_COST + op_dirty_size p)) = 4096 + uint (op_dirty_size p)"
proof -
  assume d: "uint (op_dirty_size p) \<le> 67108864"
  have "uint (4096 + op_dirty_size p) = 4096 + uint (op_dirty_size p)"
    using d by (subst uint_add_lem [THEN iffD1]) simp_all
  then show ?thesis using d by (simp add: plan_constants wrap32_eq)
qed

lemma copies_not_combined_by_cost:
  assumes wf: "op_wf p" "op_wf q"
    and copies: "op_type p = GUAC_DISPLAY_PLAN_OPERATION_COPY" "op_type q = GUAC_DISPLAY_PLAN_OPERATION_COPY"
    and apart: "rect_area (op_dest p) \<inter> rect_area (op_dest q) = {}"
  shows "\<not> combine_by_cost p q (guac_rect_extend (op_dest p) (op_dest q))"
proof -
  let ?a = "op_dest p" and ?b = "op_dest q"
  let ?h = "guac_rect_extend ?a ?b"
  let ?w = "rect_right ?h - rect_left ?h" and ?v = "rect_bottom ?h - rect_top ?h"
  have s: "on_screen ?a" "on_screen ?b" using wf by (simp_all add: op_wf_def)
  have h: "on_screen ?h" by (rule on_screen_extend(1) [OF s])
  note size = rect_size_le [OF s]
  have d: "uint (op_dirty_size p) \<le> ?w * ?v" "uint (op_dirty_size q) \<le> ?w * ?v"
    using wf copies size(1, 2) by (auto simp: op_wf_def)
  then have c: "wrap32 (uint (of_int GUAC_DISPLAY_BASE_COST + op_dirty_size p)) = 4096 + uint (op_dirty_size p)"
    "wrap32 (uint (of_int GUAC_DISPLAY_BASE_COST + op_dirty_size q)) = 4096 + uint (op_dirty_size q)"
    using size(3) by (intro size_t_cost; linarith)+
  define x y z where "x = (4096 + uint (op_dirty_size p)) div 128" and "y = (4096 + uint (op_dirty_size q)) div 128"
    and "z = 4096 + ?w * ?v"
  have "128 * x \<le> 4096 + uint (op_dirty_size p)" "128 * y \<le> 4096 + uint (op_dirty_size q)"
    unfolding x_def y_def by simp_all
  then have xyz: "128 * x \<le> z" "128 * y \<le> z" "0 < z" "z \<le> 67112960" "0 \<le> x" "0 \<le> y"
    using d size(3, 4) by (simp_all add: z_def x_def y_def pos_imp_zdiv_nonneg_iff)
  have "\<not> z \<le> wrap32 (y + x)" "\<not> wrap32 (z - x) \<le> x sdiv 4" "\<not> wrap32 (z - y) \<le> y sdiv 4"
  proof -
    have "4 * (x div 4) \<le> x" "4 * (y div 4) \<le> y" by simp_all
    moreover have "wrap32 (y + x) = y + x" "wrap32 (z - x) = z - x" "wrap32 (z - y) = z - y"
      using xyz by (rule_tac wrap32_eq; linarith)+
    ultimately show "\<not> z \<le> wrap32 (y + x)" "\<not> wrap32 (z - x) \<le> x sdiv 4" "\<not> wrap32 (z - y) \<le> y sdiv 4"
      using xyz by (simp_all add: sdiv_pos)
  qed
  moreover have "\<not> (guac_rect_width ?h \<le> 64 \<and> guac_rect_height ?h \<le> 64)"
  proof
    assume "guac_rect_width ?h \<le> 64 \<and> guac_rect_height ?h \<le> 64"
    then have "rect_left ?a = rect_left ?b" "rect_top ?a = rect_top ?b"
      using wf copies by (simp_all add: on_screen_size [OF h]) (simp_all add: op_wf_def on_screen_extend min_def max_def split: if_splits)
    then have "(rect_left ?a, rect_top ?a) \<in> rect_area ?a \<inter> rect_area ?b"
      using s by (simp add: rect_area_def on_screen_def)
    with apart show False by blast
  qed
  moreover have "wrap32 (uint (of_int GUAC_DISPLAY_BASE_COST + op_dirty_size p)) sdiv GUAC_DISPLAY_DATA_FACTOR = x"
    "wrap32 (uint (of_int GUAC_DISPLAY_BASE_COST + op_dirty_size q)) sdiv GUAC_DISPLAY_DATA_FACTOR = y"
    unfolding c by (simp_all add: sdiv_pos x_def y_def GUAC_DISPLAY_DATA_FACTOR_def)
  moreover have "wrap32 (GUAC_DISPLAY_BASE_COST + wrap32 (guac_rect_width ?h * guac_rect_height ?h)) = z"
    using size(3, 4) by (simp add: on_screen_size [OF h] z_def wrap32_eq GUAC_DISPLAY_BASE_COST_def)
  ultimately show ?thesis
    using copies unfolding combine_by_cost_def Let_def
    by (simp only: GUAC_DISPLAY_NEGLIGIBLE_WIDTH_def GUAC_DISPLAY_NEGLIGIBLE_HEIGHT_def
        GUAC_DISPLAY_NEGLIGIBLE_INCREASE_def) simp
qed

lemma combine_ops_fields [simp]:
  "op_layer (combine_ops p q) = op_layer p"
  "op_dest (combine_ops p q) = guac_rect_extend (op_dest p) (op_dest q)"
  "op_type (combine_ops p q) = (if op_type p \<noteq> op_type q then GUAC_DISPLAY_PLAN_OPERATION_IMG else op_type p)"
  "op_dirty_size (combine_ops p q) = op_dirty_size p + op_dirty_size q"
  "op_src_color (combine_ops p q) = op_src_color p"
  "op_src_layer (combine_ops p q) = op_src_layer p"
  "op_src_rect (combine_ops p q) = (if op_type p = op_type q \<and> op_type p = GUAC_DISPLAY_PLAN_OPERATION_COPY
     then guac_rect_extend (op_src_rect p) (op_src_rect q) else op_src_rect p)"
  by (simp_all add: combine_ops_def Let_def)

text \<open>Copies are merged only along an edge, from the same layer and by the same distance.\<close>

lemma copies_combined:
  assumes wf: "op_wf p" "op_wf q"
    and copies: "op_type p = GUAC_DISPLAY_PLAN_OPERATION_COPY" "op_type q = GUAC_DISPLAY_PLAN_OPERATION_COPY"
    and apart: "rect_area (op_dest p) \<inter> rect_area (op_dest q) = {}"
    and combine: "guac_display_plan_should_combine p q"
  shows "op_src_layer p = op_src_layer q \<and> guac_display_plan_has_common_edge p q \<and>
    rect_left (op_dest p) - rect_left (op_src_rect p) = rect_left (op_dest q) - rect_left (op_src_rect q) \<and>
    rect_top (op_dest p) - rect_top (op_src_rect p) = rect_top (op_dest q) - rect_top (op_src_rect q)"
proof -
  have "rect_ok (op_dest p)" "rect_ok (op_dest q)" "rect_ok (op_src_rect p)" "rect_ok (op_src_rect q)"
    using wf copies by (simp_all add: op_wf_def on_screen_ok)
  then show ?thesis
    using combine copies copies_not_combined_by_cost [OF wf copies apart]
    by (simp add: guac_display_plan_should_combine_def Let_def rect_ok_def split: if_splits)
qed

lemma combine_ops_wf:
  assumes wf: "op_wf p" "op_wf q" and combine: "guac_display_plan_should_combine p q"
    and apart: "op_type p = GUAC_DISPLAY_PLAN_OPERATION_COPY \<Longrightarrow> op_type q = GUAC_DISPLAY_PLAN_OPERATION_COPY \<Longrightarrow>
      rect_area (op_dest p) \<inter> rect_area (op_dest q) = {}"
  shows "op_wf (combine_ops p q)"
proof -
  have s: "on_screen (op_dest p)" "on_screen (op_dest q)" using wf by (simp_all add: op_wf_def)
  show ?thesis
  proof (cases "op_type p = GUAC_DISPLAY_PLAN_OPERATION_COPY \<and> op_type q = GUAC_DISPLAY_PLAN_OPERATION_COPY")
    case True
    then have copies: "op_type p = GUAC_DISPLAY_PLAN_OPERATION_COPY" "op_type q = GUAC_DISPLAY_PLAN_OPERATION_COPY" by simp_all
    note c = copies_combined [OF wf copies apart [OF copies] combine]
    have src: "on_screen (op_src_rect p)" "on_screen (op_src_rect q)" using wf copies by (simp_all add: op_wf_def)
    have "uint (op_dirty_size p + op_dirty_size q) \<le> uint (op_dirty_size p) + uint (op_dirty_size q)"
      by (rule uint_add_le)
    moreover have "uint (op_dirty_size p) + uint (op_dirty_size q) \<le>
        (rect_right (guac_rect_extend (op_dest p) (op_dest q)) - rect_left (guac_rect_extend (op_dest p) (op_dest q))) *
        (rect_bottom (guac_rect_extend (op_dest p) (op_dest q)) - rect_top (guac_rect_extend (op_dest p) (op_dest q)))"
      using wf copies c by (simp add: common_edge_size [OF s] op_wf_def)
    moreover have "on_screen (guac_rect_extend (op_src_rect p) (op_src_rect q))"
      "on_screen (guac_rect_extend (op_dest p) (op_dest q))"
      by (rule on_screen_extend(1) [OF src] on_screen_extend(1) [OF s])+
    ultimately show ?thesis
      using wf copies c unfolding op_wf_def
      by (simp add: on_screen_extend(2) [OF src] on_screen_extend(2) [OF s] min_def max_def)
  next
    case False
    then show ?thesis using on_screen_extend(1) [OF s] by (auto simp: op_wf_def)
  qed
qed

lemma combine_ops_correct:
  assumes wf: "op_wf p" "op_wf q" and combine: "guac_display_plan_should_combine p q"
    and apart: "op_type p = GUAC_DISPLAY_PLAN_OPERATION_COPY \<Longrightarrow> op_type q = GUAC_DISPLAY_PLAN_OPERATION_COPY \<Longrightarrow>
      rect_area (op_dest p) \<inter> rect_area (op_dest q) = {}"
    and ok: "op_correct P L p" "op_correct P L q"
  shows "op_correct P L (combine_ops p q)"
proof -
  have s: "on_screen (op_dest p)" "on_screen (op_dest q)" using wf by (simp_all add: op_wf_def)
  have layer: "op_layer p = op_layer q" using combine by (simp add: guac_display_plan_should_combine_def split: if_splits)
  consider (copy) "op_type p = GUAC_DISPLAY_PLAN_OPERATION_COPY" "op_type q = GUAC_DISPLAY_PLAN_OPERATION_COPY"
    | (rect) "op_type p = GUAC_DISPLAY_PLAN_OPERATION_RECT" "op_type q = GUAC_DISPLAY_PLAN_OPERATION_RECT"
    | (other) "op_type p \<noteq> op_type q \<or> op_type p = GUAC_DISPLAY_PLAN_OPERATION_IMG \<or> op_type p = GUAC_DISPLAY_PLAN_OPERATION_NOP"
    by (metis guac_display_plan_operation_type.exhaust)
  then show ?thesis
  proof cases
    case copy
    note c = copies_combined [OF wf copy apart [OF copy] combine]
    have src: "on_screen (op_src_rect p)" "on_screen (op_src_rect q)" using wf copy by (simp_all add: op_wf_def)
    have "rect_left (op_dest (combine_ops p q)) - rect_left (op_src_rect (combine_ops p q)) = rect_left (op_dest p) - rect_left (op_src_rect p)"
      "rect_top (op_dest (combine_ops p q)) - rect_top (op_src_rect (combine_ops p q)) = rect_top (op_dest p) - rect_top (op_src_rect p)"
      using c copy by (simp_all add: on_screen_extend(2) [OF src] on_screen_extend(2) [OF s] min_def)
    moreover have "rect_area (op_dest (combine_ops p q)) = rect_area (op_dest p) \<union> rect_area (op_dest q)"
      using common_edge_union [OF s] c by simp
    ultimately show ?thesis using ok copy c layer unfolding op_correct_def by auto
  next
    case rect
    then have "guac_display_plan_has_common_edge p q" "op_src_color p = op_src_color q"
      using combine by (simp_all add: guac_display_plan_should_combine_def Let_def split: if_splits)
    then show ?thesis using ok rect layer common_edge_union [OF s] by (auto simp: op_correct_def)
  next
    case other
    then show ?thesis by (auto simp: op_correct_def)
  qed
qed

section \<open>Combining operations of a plan\<close>

text \<open>
  Merging operation \<open>b\<close> of a plan into operation \<open>a\<close>, which becomes \<open>c\<close>, and what is needed of \<open>c\<close>
  for the plan to stay sound.
\<close>

definition merged where
  "merged ops a b c = ops[a := c, b := (ops ! b)\<lparr>op_type := GUAC_DISPLAY_PLAN_OPERATION_NOP\<rparr>]"

definition mergeable ::
    "frame \<Rightarrow> frame \<Rightarrow> guac_display_plan_operation list \<Rightarrow> nat \<Rightarrow> nat \<Rightarrow> guac_display_plan_operation \<Rightarrow> bool" where
  "mergeable P L ops a b c \<longleftrightarrow> plan_sound P L ops \<and> a < length ops \<and> b < length ops \<and> a \<noteq> b \<and>
    op_wf c \<and> op_correct P L c \<and> op_layer c = op_layer (ops ! a) \<and> op_layer c = op_layer (ops ! b) \<and>
    rect_area (op_dest (ops ! a)) \<union> rect_area (op_dest (ops ! b)) \<subseteq> rect_area (op_dest c) \<and>
    (op_type c = GUAC_DISPLAY_PLAN_OPERATION_NOP \<longleftrightarrow>
      op_type (ops ! a) = GUAC_DISPLAY_PLAN_OPERATION_NOP \<and> op_type (ops ! b) = GUAC_DISPLAY_PLAN_OPERATION_NOP) \<and>
    (op_type c = GUAC_DISPLAY_PLAN_OPERATION_COPY \<longrightarrow>
      op_type (ops ! a) = GUAC_DISPLAY_PLAN_OPERATION_COPY \<and> op_type (ops ! b) = GUAC_DISPLAY_PLAN_OPERATION_COPY \<and>
      rect_area (op_dest c) = rect_area (op_dest (ops ! a)) \<union> rect_area (op_dest (ops ! b)))"

lemma length_merged [simp]: "length (merged ops a b c) = length ops"
  by (simp add: merged_def)

lemma merged_nth: "mergeable P L ops a b c \<Longrightarrow> i < length ops \<Longrightarrow> merged ops a b c ! i =
    (if i = b then (ops ! b)\<lparr>op_type := GUAC_DISPLAY_PLAN_OPERATION_NOP\<rparr> else if i = a then c else ops ! i)"
  by (auto simp: merged_def mergeable_def nth_list_update)

lemma merged_wf:
  assumes "mergeable P L ops a b c"
  shows "list_all op_wf (merged ops a b c)" "list_all (op_correct P L) (merged ops a b c)"
  using assms
  by (auto simp: list_all_length merged_nth [OF assms] mergeable_def plan_sound_def op_wf_def op_correct_def)

lemma copies_apartD: "copies_apart ops \<Longrightarrow> i < length ops \<Longrightarrow> j < length ops \<Longrightarrow> i \<noteq> j \<Longrightarrow>
    op_type (ops ! i) = GUAC_DISPLAY_PLAN_OPERATION_COPY \<Longrightarrow> op_type (ops ! j) = GUAC_DISPLAY_PLAN_OPERATION_COPY \<Longrightarrow>
    op_layer (ops ! i) = op_layer (ops ! j) \<Longrightarrow> rect_area (op_dest (ops ! i)) \<inter> rect_area (op_dest (ops ! j)) = {}"
  by (simp add: copies_apart_def)

lemma merged_apart_from:
  assumes m: "mergeable P L ops a b c" and "op_type c = GUAC_DISPLAY_PLAN_OPERATION_COPY" "j < length ops" "j \<noteq> a" "j \<noteq> b"
    "op_type (ops ! j) = GUAC_DISPLAY_PLAN_OPERATION_COPY" "op_layer (ops ! j) = op_layer c"
  shows "rect_area (op_dest c) \<inter> rect_area (op_dest (ops ! j)) = {}"
proof -
  have "copies_apart ops" using m by (simp add: mergeable_def plan_sound_def)
  from copies_apartD [OF this, of a j] copies_apartD [OF this, of b j] assms show ?thesis
    by (auto simp: mergeable_def)
qed

lemma merged_copies_apart:
  assumes m: "mergeable P L ops a b c"
  shows "copies_apart (merged ops a b c)"
  unfolding copies_apart_def length_merged
proof (intro allI impI)
  fix i j
  let ?m = "merged ops a b c"
  assume ij: "i < length ops" "j < length ops" "i \<noteq> j" "op_type (?m ! i) = GUAC_DISPLAY_PLAN_OPERATION_COPY"
    "op_type (?m ! j) = GUAC_DISPLAY_PLAN_OPERATION_COPY" "op_layer (?m ! i) = op_layer (?m ! j)"
  have apart: "copies_apart ops" using m by (simp add: mergeable_def plan_sound_def)
  from ij have "i \<noteq> b" "j \<noteq> b" by (auto simp: merged_nth [OF m])
  then consider "i = a" "j \<noteq> a" | "j = a" "i \<noteq> a" | "i \<noteq> a" "j \<noteq> a" using ij(3) by blast
  then show "rect_area (op_dest (?m ! i)) \<inter> rect_area (op_dest (?m ! j)) = {}"
    by cases (use ij \<open>i \<noteq> b\<close> \<open>j \<noteq> b\<close> merged_apart_from [OF m] in
      \<open>simp_all add: merged_nth [OF m] copies_apartD [OF apart] Int_commute [of "rect_area (op_dest (ops ! i))" "rect_area (op_dest c)"]\<close>)
qed

lemma merged_drawn:
  assumes m: "mergeable P L ops a b c"
  shows "drawn ops l \<subseteq> drawn (merged ops a b c) l"
proof
  fix p
  assume "p \<in> drawn ops l"
  then obtain i where i: "i < length ops" "op_type (ops ! i) \<noteq> GUAC_DISPLAY_PLAN_OPERATION_NOP"
    "op_layer (ops ! i) = l" "p \<in> rect_area (op_dest (ops ! i))"
    by (auto simp: drawn_def live_def)
  show "p \<in> drawn (merged ops a b c) l"
  proof (cases "i = a \<or> i = b")
    case True
    then have "op_type c \<noteq> GUAC_DISPLAY_PLAN_OPERATION_NOP" "op_layer c = l" "p \<in> rect_area (op_dest c)"
      "a < length ops" "a \<noteq> b"
      using i m by (auto simp: mergeable_def)
    then show ?thesis by (auto simp: drawn_def live_def merged_nth [OF m] intro!: exI [of _ a])
  next
    case False
    with i show ?thesis by (auto simp: drawn_def live_def merged_nth [OF m] intro!: exI [of _ i])
  qed
qed

lemma merged_live:
  assumes m: "mergeable P L ops a b c"
  shows "card (live (merged ops a b c)) \<le> card (live ops)"
proof (cases "b \<in> live ops")
  case True
  have "live (merged ops a b c) \<subseteq> insert a (live ops - {b})"
    by (auto simp: live_def merged_nth [OF m] split: if_splits)
  then have "card (live (merged ops a b c)) \<le> card (insert a (live ops - {b}))" by (simp add: card_mono)
  also have "\<dots> \<le> Suc (card (live ops - {b}))" by (simp add: card_insert_if)
  also have "\<dots> = card (live ops)" using True by (intro card_Suc_Diff1) simp_all
  finally show ?thesis .
next
  case False
  then have "live (merged ops a b c) \<subseteq> live ops"
    using m by (auto simp: live_def merged_nth [OF m] mergeable_def split: if_splits)
  then show ?thesis by (simp add: card_mono)
qed

lemma merged_sound:
  assumes "mergeable P L ops a b c"
  shows "plan_sound P L (merged ops a b c)" "improves ops (merged ops a b c)"
  using merged_wf [OF assms] merged_copies_apart [OF assms] merged_drawn [OF assms] merged_live [OF assms]
  by (simp_all add: plan_sound_def improves_def)

lemma combine_if_improved_sound:
  assumes sound: "plan_sound P L ops" and ab: "a < length ops" "b < length ops"
    and r: "guac_display_plan_combine_if_improved ops a b = (combined, ops')"
  shows "plan_sound P L ops' \<and> improves ops ops'"
proof (cases "a \<noteq> b \<and> guac_display_plan_should_combine (ops ! a) (ops ! b)")
  case False
  then have "ops' = ops" using r by (auto simp: guac_display_plan_combine_if_improved_def split: if_splits)
  with sound show ?thesis by simp
next
  case True
  let ?p = "ops ! a" and ?q = "ops ! b"
  have ops': "ops' = merged ops a b (combine_ops ?p ?q)"
    using True r by (simp add: guac_display_plan_combine_if_improved_def merged_def)
  have wf: "op_wf ?p" "op_wf ?q" "op_correct P L ?p" "op_correct P L ?q"
    using ab sound by (simp_all add: plan_sound_def list_all_length)
  have layer: "op_layer ?p = op_layer ?q" and should: "guac_display_plan_should_combine ?p ?q"
    using True by (simp_all add: guac_display_plan_should_combine_def split: if_splits)
  have apart: "rect_area (op_dest ?p) \<inter> rect_area (op_dest ?q) = {}"
    if "op_type ?p = GUAC_DISPLAY_PLAN_OPERATION_COPY" "op_type ?q = GUAC_DISPLAY_PLAN_OPERATION_COPY"
    using sound copies_apartD [OF _ ab _ that layer] True by (simp add: plan_sound_def)
  have s: "on_screen (op_dest ?p)" "on_screen (op_dest ?q)" using wf by (simp_all add: op_wf_def)
  have union: "rect_area (op_dest (combine_ops ?p ?q)) = rect_area (op_dest ?p) \<union> rect_area (op_dest ?q)"
    if "op_type ?p = GUAC_DISPLAY_PLAN_OPERATION_COPY" "op_type ?q = GUAC_DISPLAY_PLAN_OPERATION_COPY"
    using copies_combined [OF wf(1, 2) that apart [OF that] should] common_edge_union [OF s] by simp
  have "mergeable P L ops a b (combine_ops ?p ?q)"
    unfolding mergeable_def
    using sound ab True layer combine_ops_wf [OF wf(1, 2) should apart] combine_ops_correct [OF wf(1, 2) should apart wf(3, 4)]
      rects.extend_covers [of "op_dest ?p" "op_dest ?q"] union
    by auto
  then show ?thesis using merged_sound by (simp add: ops')
qed

section \<open>The passes\<close>

text \<open>
  A pass visits pairs of cells. Whatever each visit keeps and however it changes the plan for the
  better, the whole pass does.
\<close>

locale cell_pass =
  fixes good :: "'s \<Rightarrow> bool" and better :: "'s \<Rightarrow> 's \<Rightarrow> bool" and visit :: "nat \<Rightarrow> nat \<Rightarrow> 's \<Rightarrow> 's" and cells :: nat
  assumes visit_good: "good s \<Longrightarrow> i < cells \<Longrightarrow> j < cells \<Longrightarrow> good (visit i j s) \<and> better s (visit i j s)"
    and better_refl: "better s s"
    and better_trans: "better s t \<Longrightarrow> better t u \<Longrightarrow> better s u"
begin

lemma line_good:
  assumes "\<forall>x \<in> set xs. f x < cells \<and> g x < cells" "good s"
  shows "good (foldl (\<lambda>s x. visit (f x) (g x) s) s xs) \<and> better s (foldl (\<lambda>s x. visit (f x) (g x) s) s xs)"
  using assms
proof (induction xs arbitrary: s)
  case Nil
  then show ?case by (simp add: better_refl)
next
  case (Cons x xs)
  then have "good (visit (f x) (g x) s)" "better s (visit (f x) (g x) s)" by (simp_all add: visit_good)
  with Cons show ?case by (auto intro: better_trans)
qed

lemma grid_good:
  assumes "\<forall>y \<in> set ys. \<forall>x \<in> set xs. f y x < cells \<and> g y x < cells" "good s"
  shows "good (foldl (\<lambda>s y. foldl (\<lambda>s x. visit (f y x) (g y x) s) s xs) s ys) \<and>
    better s (foldl (\<lambda>s y. foldl (\<lambda>s x. visit (f y x) (g y x) s) s xs) s ys)"
  using assms
proof (induction ys arbitrary: s)
  case Nil
  then show ?case by (simp add: better_refl)
next
  case (Cons y ys)
  let ?s = "foldl (\<lambda>s x. visit (f y x) (g y x) s) s xs"
  have "good ?s \<and> better s ?s" using Cons.prems by (intro line_good) simp_all
  with Cons show ?case by (auto intro: better_trans)
qed

end

definition cells_ok :: "guac_display_plan_operation list \<Rightarrow> guac_display_layer_cell list \<Rightarrow> bool" where
  "cells_ok ops cells \<longleftrightarrow> (\<forall>c \<in> set cells. \<forall>i. cell_related_op c = Some i \<longrightarrow> i < length ops)"

definition pass_good :: "frame \<Rightarrow> frame \<Rightarrow> nat \<Rightarrow> plan_state \<Rightarrow> bool" where
  "pass_good P L n st \<longleftrightarrow> plan_sound P L (fst st) \<and> length (snd st) = n \<and> cells_ok (fst st) (snd st)"

lemma combine_cells_good:
  assumes "pass_good P L n st" "i < n" "j < n"
  shows "pass_good P L n (combine_cells edge i j st) \<and> improves (fst st) (fst (combine_cells edge i j st))"
proof -
  obtain ops cells where st: "st = (ops, cells)" by fastforce
  have sound: "plan_sound P L ops" and n: "length cells = n" and ok: "cells_ok ops cells"
    using assms(1) by (simp_all add: pass_good_def st)
  have idx: "k < length ops" if "cell_related_op (cells ! m) = Some k" "m < n" for k m
    using that ok n by (auto simp: cells_ok_def)
  show ?thesis
  proof (cases "\<exists>a b. cell_related_op (cells ! i) = Some a \<and> cell_related_op (cells ! j) = Some b \<and>
      \<not> (edge \<and> \<not> guac_display_plan_has_common_edge (ops ! a) (ops ! b))")
    case False
    then have "combine_cells edge i j st = st" by (auto simp: combine_cells_def st split: option.splits)
    with assms(1) show ?thesis by simp
  next
    case True
    then obtain a b where ab: "cell_related_op (cells ! i) = Some a" "cell_related_op (cells ! j) = Some b"
      "\<not> (edge \<and> \<not> guac_display_plan_has_common_edge (ops ! a) (ops ! b))" by blast
    obtain m ops' where r: "guac_display_plan_combine_if_improved ops a b = (m, ops')" by fastforce
    have "plan_sound P L ops' \<and> improves ops ops'"
      by (rule combine_if_improved_sound [OF sound idx [OF ab(1) assms(2)] idx [OF ab(2) assms(3)] r])
    moreover have "cells_ok ops' (if m then cells[j := (cells ! j)\<lparr>cell_related_op := Some a\<rparr>] else cells)"
      using ok calculation idx [OF ab(1) assms(2)]
      by (auto simp: cells_ok_def improves_def dest!: set_update_subset_insert [THEN subsetD])
    ultimately show ?thesis using ab r n by (auto simp: combine_cells_def st pass_good_def)
  qed
qed

interpretation horizontal: cell_pass "pass_good P L n" "\<lambda>s t. improves (fst s) (fst t)" "combine_cells False" n for P L n
  by unfold_locales (auto simp: combine_cells_good intro: improves_trans)

interpretation vertical: cell_pass "pass_good P L n" "\<lambda>s t. improves (fst s) (fst t)" "combine_cells True" n for P L n
  by unfold_locales (auto simp: combine_cells_good intro: improves_trans)

lemma cell_index: "y < h \<Longrightarrow> x < w \<Longrightarrow> y * w + x < w * (h :: nat)"
proof -
  assume "y < h" "x < w"
  then have "y * w + x < Suc y * w" by simp
  also have "\<dots> \<le> h * w" using \<open>y < h\<close> by (intro mult_right_mono) simp_all
  finally show ?thesis by (simp add: mult.commute)
qed

lemma horizontal_good:
  assumes "pass_good P L (w * h) st"
  shows "pass_good P L (w * h) (combine_layer_horizontally w h st) \<and>
    improves (fst st) (fst (combine_layer_horizontally w h st))"
  unfolding combine_layer_horizontally_def
proof (rule horizontal.grid_good [OF _ assms], intro ballI)
  fix y x
  assume "y \<in> set [0..<h]" "x \<in> set [1..<w]"
  then have "y * w + x < w * h" by (intro cell_index) simp_all
  then show "y * w + x - 1 < w * h \<and> y * w + x < w * h" by linarith
qed

lemma vertical_good:
  assumes "pass_good P L (w * h) st"
  shows "pass_good P L (w * h) (combine_layer_vertically w h st) \<and>
    improves (fst st) (fst (combine_layer_vertically w h st))"
  unfolding combine_layer_vertically_def
  by (rule vertical.grid_good [OF _ assms]) (auto intro!: cell_index)

definition layer_ok :: "guac_display_plan_operation list \<Rightarrow> 'a plan_layer_scheme \<Rightarrow> bool" where
  "layer_ok ops l \<longleftrightarrow> length (layer_cells l) = layer_cells_width l * layer_cells_height l \<and> cells_ok ops (layer_cells l)"

lemma layer_ok_improves: "improves ops ops' \<Longrightarrow> layer_ok ops l \<Longrightarrow> layer_ok ops' l"
  by (simp add: layer_ok_def cells_ok_def improves_def)

text \<open>
  Combining never moves an operation to another layer and never beyond a rectangle that contained
  the operations of a layer, and makes no copy of what was none (\<open>K\<close>: whether there are copies).
\<close>

definition ops_bounded :: "bool \<Rightarrow> (nat \<Rightarrow> guac_rect) \<Rightarrow> nat list \<Rightarrow> guac_display_plan_operation list \<Rightarrow> bool" where
  "ops_bounded K B layers ops \<longleftrightarrow> map op_layer ops = layers \<and>
     (\<forall>oper \<in> set ops. on_screen (op_dest oper) \<and>
        rect_left (B (op_layer oper)) \<le> rect_left (op_dest oper) \<and> rect_top (B (op_layer oper)) \<le> rect_top (op_dest oper) \<and>
        rect_right (op_dest oper) \<le> rect_right (B (op_layer oper)) \<and> rect_bottom (op_dest oper) \<le> rect_bottom (B (op_layer oper)) \<and>
        (op_type oper = GUAC_DISPLAY_PLAN_OPERATION_COPY \<longrightarrow> K))"

lemma ops_bounded_update:
  assumes "ops_bounded K B layers ops" "op_layer oper = op_layer (ops ! i)" "i < length ops \<Longrightarrow> ops_bounded K B [op_layer oper] [oper]"
  shows "ops_bounded K B layers (ops[i := oper])"
proof (cases "i < length ops")
  case True
  then have "map op_layer (ops[i := oper]) = layers"
    using assms(1, 2) by (auto simp: ops_bounded_def map_update list_update_same_conv)
  then show ?thesis using assms(1) assms(3) [OF True] set_update_subset_insert [of ops i oper]
    unfolding ops_bounded_def by (auto dest!: subsetD)
next
  case False
  then show ?thesis using assms(1) by (simp add: list_update_beyond)
qed

lemma combine_if_improved_bounded:
  assumes "ops_bounded K B layers ops" "a < length ops" "b < length ops"
  shows "ops_bounded K B layers (snd (guac_display_plan_combine_if_improved ops a b))"
proof (cases "guac_display_plan_should_combine (ops ! a) (ops ! b) \<and> a \<noteq> b")
  case True
  then have layer: "op_layer (ops ! a) = op_layer (ops ! b)"
    by (auto simp: guac_display_plan_should_combine_def split: if_splits)
  have ok: "ops_bounded K B [op_layer (ops ! i)] [ops ! i]" if "i < length ops" for i
    using assms(1) that by (auto simp: ops_bounded_def)
  then have os: "on_screen (op_dest (ops ! a))" "on_screen (op_dest (ops ! b))"
    using assms(2, 3) by (simp_all add: ops_bounded_def)
  have dest: "op_dest (combine_ops (ops ! a) (ops ! b)) = guac_rect_extend (op_dest (ops ! a)) (op_dest (ops ! b))"
    "op_layer (combine_ops (ops ! a) (ops ! b)) = op_layer (ops ! a)"
    "op_type (combine_ops (ops ! a) (ops ! b)) = GUAC_DISPLAY_PLAN_OPERATION_COPY \<Longrightarrow> op_type (ops ! a) = GUAC_DISPLAY_PLAN_OPERATION_COPY"
    by (simp_all add: combine_ops_def Let_def split: if_splits)
  have "ops_bounded K B [op_layer (ops ! a)] [combine_ops (ops ! a) (ops ! b)]"
    using ok [OF assms(2)] ok [OF assms(3)] layer on_screen_extend(1) [OF os]
    by (auto simp: ops_bounded_def dest(1, 2) on_screen_extend(2) [OF os] dest: dest(3))
  then have "ops_bounded K B layers (ops[a := combine_ops (ops ! a) (ops ! b)])"
    using assms by (intro ops_bounded_update) (simp_all add: dest)
  then have "ops_bounded K B layers (ops[a := combine_ops (ops ! a) (ops ! b), b := (ops ! b)\<lparr>op_type := GUAC_DISPLAY_PLAN_OPERATION_NOP\<rparr>])"
    by (rule ops_bounded_update) (use True ok [OF assms(3)] in \<open>simp_all add: ops_bounded_def\<close>)
  then show ?thesis using True by (simp add: guac_display_plan_combine_if_improved_def)
qed (use assms in \<open>auto simp: guac_display_plan_combine_if_improved_def\<close>)

lemma foldl_inv: "I s \<Longrightarrow> (\<And>x s. x \<in> set xs \<Longrightarrow> I s \<Longrightarrow> I (f s x)) \<Longrightarrow> I (foldl f s xs)"
  by (induction xs arbitrary: s) auto

definition pass_bounded :: "bool \<Rightarrow> (nat \<Rightarrow> guac_rect) \<Rightarrow> nat list \<Rightarrow> nat \<Rightarrow> plan_state \<Rightarrow> bool" where
  "pass_bounded K B layers n st \<longleftrightarrow> ops_bounded K B layers (fst st) \<and> length (snd st) = n \<and> cells_ok (fst st) (snd st)"

lemma combine_cells_bounded:
  assumes "pass_bounded K B layers n st" "i < n" "j < n"
  shows "pass_bounded K B layers n (combine_cells edge i j st)"
proof (cases st)
  case (Pair ops cells)
  have ok: "k < length ops" if "cell_related_op (cells ! m) = Some k" "m < n" for k m
    using assms(1) that by (auto simp: pass_bounded_def Pair cells_ok_def)
  show ?thesis
  proof (cases "cell_related_op (cells ! i)"; cases "cell_related_op (cells ! j)")
    fix a b
    assume ab: "cell_related_op (cells ! i) = Some a" "cell_related_op (cells ! j) = Some b"
    obtain combined ops' where r: "guac_display_plan_combine_if_improved ops a b = (combined, ops')" by fastforce
    have "ops_bounded K B layers ops'"
      using combine_if_improved_bounded [of K B layers ops a b] assms(1) ok ab assms(2, 3) r by (auto simp: pass_bounded_def Pair)
    moreover from this assms(1) have len: "length ops' = length ops"
      by (simp add: pass_bounded_def Pair ops_bounded_def) (metis length_map)
    moreover have "cells_ok ops' cells \<and> cells_ok ops' (cells[j := (cells ! j)\<lparr>cell_related_op := Some a\<rparr>])"
      using assms(1, 2) len ok [OF ab(1)] set_update_subset_insert [of cells j "(cells ! j)\<lparr>cell_related_op := Some a\<rparr>"]
      by (auto simp: pass_bounded_def Pair cells_ok_def dest!: subsetD)
    ultimately show ?thesis using assms(1) r ab by (auto simp: pass_bounded_def Pair combine_cells_def)
  qed (use assms(1) in \<open>simp_all add: combine_cells_def Pair\<close>)
qed

lemma passes_bounded:
  assumes "pass_bounded K B layers (w * h) st"
  shows "pass_bounded K B layers (w * h) (combine_layer_horizontally w h st)"
    "pass_bounded K B layers (w * h) (combine_layer_vertically w h st)"
proof -
  have idx: "y * w + x < w * h" if "x < w" "y < h" for x y
  proof -
    have "y * w + x < y * w + w" using that by simp
    also have "\<dots> \<le> h * w" using that(2) by (metis Suc_leI add.commute mult_Suc mult_le_mono1)
    finally show ?thesis by (simp add: mult.commute)
  qed
  show "pass_bounded K B layers (w * h) (combine_layer_horizontally w h st)"
    unfolding combine_layer_horizontally_def
    by (intro foldl_inv [where I = "pass_bounded K B layers (w * h)"] combine_cells_bounded assms)
      (auto intro: idx less_imp_diff_less)
  show "pass_bounded K B layers (w * h) (combine_layer_vertically w h st)"
    unfolding combine_layer_vertically_def
    by (intro foldl_inv [where I = "pass_bounded K B layers (w * h)"] combine_cells_bounded assms)
      (auto intro!: idx)
qed

lemma combine_cells_kept: "map cell_dirty_size (snd (combine_cells edge i j st)) = map cell_dirty_size (snd st)"
proof (cases st)
  case (Pair ops cells)
  have "map cell_dirty_size (cells[j := (cells ! j)\<lparr>cell_related_op := a\<rparr>]) = map cell_dirty_size cells" for a
    by (cases "j < length cells") (simp_all add: map_update list_update_same_conv list_update_beyond)
  then show ?thesis by (auto simp: combine_cells_def Pair split: option.splits prod.splits)
qed

lemma passes_kept:
  "map cell_dirty_size (snd (combine_layer_horizontally w h st)) = map cell_dirty_size (snd st)"
  "map cell_dirty_size (snd (combine_layer_vertically w h st)) = map cell_dirty_size (snd st)"
  unfolding combine_layer_horizontally_def combine_layer_vertically_def
  by (intro foldl_inv [where I = "\<lambda>s. map cell_dirty_size (snd s) = map cell_dirty_size (snd st)"];
      simp add: combine_cells_kept)+

text \<open>What combining keeps of a layer.\<close>

definition combine_kept :: "'a plan_layer_scheme \<Rightarrow> 'a plan_layer_scheme \<Rightarrow> bool" where
  "combine_kept l l' \<longleftrightarrow> l' = l\<lparr>layer_cells := layer_cells l'\<rparr> \<and> map cell_dirty_size (layer_cells l') = map cell_dirty_size (layer_cells l)"

lemma combine_layers_bounded:
  assumes pass: "\<And>w h st. pass_bounded K B ns (w * h) st \<Longrightarrow> pass_bounded K B ns (w * h) (pass w h st) \<and>
      map cell_dirty_size (snd (pass w h st)) = map cell_dirty_size (snd st)"
    and "ops_bounded K B ns ops" "list_all (layer_ok ops) ls" "combine_layers pass ops ls = (ops', ls')"
  shows "ops_bounded K B ns ops' \<and> list_all2 combine_kept ls ls'"
  using assms(2-)
proof (induction ls arbitrary: ops ops' ls')
  case Nil
  then show ?case by simp
next
  case (Cons l ls)
  obtain ops1 l1 where l1: "(if \<not> guac_rect_is_empty (layer_dirty l) then
      (case pass (layer_cells_width l) (layer_cells_height l) (ops, layer_cells l) of
        (ops, cells) \<Rightarrow> (ops, l\<lparr>layer_cells := cells\<rparr>)) else (ops, l)) = (ops1, l1)" by fastforce
  obtain ops2 ls2 where ls2: "combine_layers pass ops1 ls = (ops2, ls2)" by fastforce
  have res: "ops' = ops2" "ls' = l1 # ls2" using Cons.prems(3) l1 ls2 by simp_all
  have "pass_bounded K B ns (layer_cells_width l * layer_cells_height l) (ops, layer_cells l)"
    using Cons.prems(1, 2) by (simp add: pass_bounded_def layer_ok_def)
  from pass [OF this] have first: "ops_bounded K B ns ops1" "combine_kept l l1"
    using l1 Cons.prems(1) by (auto simp: pass_bounded_def combine_kept_def split: if_splits prod.splits)
  have "length ops1 = length ops" using first(1) Cons.prems(1) unfolding ops_bounded_def by (metis length_map)
  then have "list_all (layer_ok ops1) ls" using Cons.prems(2) by (simp add: layer_ok_def cells_ok_def list_all_iff)
  from Cons.IH [OF first(1) this ls2] first(2) show ?case by (simp add: res)
qed

lemma combine_layers_good:
  assumes pass: "\<And>w h st. pass_good P L (w * h) st \<Longrightarrow>
      pass_good P L (w * h) (pass w h st) \<and> improves (fst st) (fst (pass w h st))"
    and "plan_sound P L ops" "list_all (layer_ok ops) ls" "combine_layers pass ops ls = (ops', ls')"
  shows "plan_sound P L ops' \<and> improves ops ops' \<and> list_all (layer_ok ops') ls'"
  using assms(2-)
proof (induction ls arbitrary: ops ops' ls')
  case Nil
  then show ?case by simp
next
  case (Cons l ls)
  obtain ops1 l1 where l1: "(if \<not> guac_rect_is_empty (layer_dirty l) then
      (case pass (layer_cells_width l) (layer_cells_height l) (ops, layer_cells l) of
        (ops, cells) \<Rightarrow> (ops, l\<lparr>layer_cells := cells\<rparr>)) else (ops, l)) = (ops1, l1)" by fastforce
  obtain ops2 ls2 where ls2: "combine_layers pass ops1 ls = (ops2, ls2)" by fastforce
  have res: "ops' = ops2" "ls' = l1 # ls2" using Cons.prems(3) l1 ls2 by simp_all
  have "pass_good P L (layer_cells_width l * layer_cells_height l) (ops, layer_cells l)"
    using Cons.prems by (simp add: pass_good_def layer_ok_def)
  from pass [OF this] l1 Cons.prems(1, 2)
  have one: "plan_sound P L ops1 \<and> improves ops ops1 \<and> layer_ok ops1 l1"
    by (auto simp: pass_good_def layer_ok_def split: if_splits prod.splits)
  have rest: "list_all (layer_ok ops1) ls" using Cons.prems(2) one by (auto simp: list_all_iff intro: layer_ok_improves)
  have "plan_sound P L ops2 \<and> improves ops1 ops2 \<and> list_all (layer_ok ops2) ls2"
    using one rest ls2 by (intro Cons.IH) simp_all
  with one show ?case unfolding res by (auto intro: improves_trans layer_ok_improves)
qed

section \<open>Properties\<close>

text \<open>
  C24: combining operations keeps a plan sound. After both passes every operation still draws exactly
  what the pending frame has at its destination, every pixel that was drawn is still drawn, and the
  number of operations to send has not grown.
\<close>

theorem guac_display_plan_combine_sound:
  assumes "plan_sound P L ops" "list_all (layer_ok ops) layers"
    and "PFW_guac_display_plan_combine_horizontally ops layers = (ops1, layers1)"
    and "PFW_guac_display_plan_combine_vertically ops1 layers1 = (ops2, layers2)"
  shows "list_all (op_correct P L) ops2 \<and> (\<forall>l. drawn ops l \<subseteq> drawn ops2 l) \<and> card (live ops2) \<le> card (live ops)"
proof -
  have h: "plan_sound P L ops1 \<and> improves ops ops1 \<and> list_all (layer_ok ops1) layers1"
    using combine_layers_good [OF horizontal_good assms(1, 2)] assms(3)
    by (simp add: PFW_guac_display_plan_combine_horizontally_def)
  then have "plan_sound P L ops2 \<and> improves ops1 ops2"
    using combine_layers_good [OF vertical_good, of P L ops1 layers1] assms(4)
    by (simp add: PFW_guac_display_plan_combine_vertically_def)
  with h have "plan_sound P L ops2" "improves ops ops2" by (auto intro: improves_trans)
  then show ?thesis by (simp add: plan_sound_def improves_def)
qed

definition example_op :: "guac_display_plan_operation_type \<Rightarrow> guac_rect \<Rightarrow> size_t \<Rightarrow> guac_display_plan_operation" where
  "example_op t r d = \<lparr>op_layer = 0, op_type = t, op_dest = r, op_dirty_size = d, op_last_frame = 0,
     op_current_frame = 1, op_src_color = 0, op_src_rect = r, op_src_layer = 0\<rparr>"

definition example_cell :: "guac_rect \<Rightarrow> nat \<Rightarrow> guac_display_layer_cell" where
  "example_cell r i = \<lparr>cell_last_frame = 0, cell_dirty = r, cell_dirty_size = 0, cell_related_op = Some i\<rparr>"

theorem guac_display_plan_combine_witness:
  "\<exists>ops1 layers1 ops2 layers2.
     PFW_guac_display_plan_combine_horizontally
       [example_op GUAC_DISPLAY_PLAN_OPERATION_COPY (guac_rect_init 0 0 64 64) 10,
        example_op GUAC_DISPLAY_PLAN_OPERATION_COPY (guac_rect_init 64 0 64 64) 20]
       [\<lparr>layer_dirty = guac_rect_init 0 0 128 64,
         layer_cells = [example_cell (guac_rect_init 0 0 64 64) 0, example_cell (guac_rect_init 64 0 64 64) 1],
         layer_cells_width = 2, layer_cells_height = 1\<rparr>] = (ops1, layers1) \<and>
     PFW_guac_display_plan_combine_vertically ops1 layers1 = (ops2, layers2) \<and>
     list_all (op_correct (\<lambda>l p. 7) (\<lambda>l p. 7)) ops2"
proof -
  let ?ops = "[example_op GUAC_DISPLAY_PLAN_OPERATION_COPY (guac_rect_init 0 0 64 64) 10,
    example_op GUAC_DISPLAY_PLAN_OPERATION_COPY (guac_rect_init 64 0 64 64) 20]"
  let ?layers = "[\<lparr>layer_dirty = guac_rect_init 0 0 128 64,
    layer_cells = [example_cell (guac_rect_init 0 0 64 64) 0, example_cell (guac_rect_init 64 0 64 64) 1],
    layer_cells_width = 2, layer_cells_height = 1\<rparr>]"
  obtain ops1 layers1 where h: "PFW_guac_display_plan_combine_horizontally ?ops ?layers = (ops1, layers1)" by fastforce
  obtain ops2 layers2 where v: "PFW_guac_display_plan_combine_vertically ops1 layers1 = (ops2, layers2)" by fastforce
  have "copies_apart ?ops"
    by (auto simp: copies_apart_def example_op_def guac_rect_init_def rect_area_def box_def less_Suc_eq)
  then have "plan_sound (\<lambda>l p. 7) (\<lambda>l p. 7) ?ops"
    by (simp add: plan_sound_def op_wf_def op_correct_def example_op_def guac_rect_init_def on_screen_def)
  moreover have "list_all (layer_ok ?ops) ?layers"
    by (auto simp: layer_ok_def cells_ok_def example_cell_def)
  ultimately show ?thesis using guac_display_plan_combine_sound [OF _ _ h v] h v by blast
qed

lemma wide_crosses:
  assumes "on_screen r" "512 < guac_rect_width r"
  shows "guac_display_plan_rect_crosses_boundary r"
proof -
  obtain r' where r': "guac_rect_align r 9 = r'" "rect_left r - 512 < rect_left r'" "rect_left r' \<le> rect_left r"
    "rect_right r \<le> rect_right r'" "rect_right r' < rect_right r + 512"
    using rect_align_edges [OF on_screen_ok [OF assms(1)], of 9] by auto
  have "0 \<le> rect_left r" "rect_left r \<le> 8192" "rect_right r \<le> 8192" "512 < rect_right r - rect_left r"
    using assms by (simp_all add: on_screen_size) (simp_all add: on_screen_def)
  with r' have "512 < rect_right r' - rect_left r'" "rect_right r' - rect_left r' < 65536" "rect_left r' < rect_right r'" by linarith+
  then show ?thesis using r'
    by (simp add: guac_display_plan_rect_crosses_boundary_def plan_constants guac_rect_width_def wrap32_eq Let_def)
qed

text \<open>
  C40: images can become larger than the grid to which combining is meant to limit them. When the types
  of two operations differ only the costs are compared: an image takes in every other operation of its
  layer as long as the pixels it adds cost at most a quarter more, however far the result
  reaches beyond the 512 pixels (\<open>2 ^ GUAC_DISPLAY_MAX_COMBINED_SIZE\<close>) of a cell of that grid.
\<close>

theorem guac_display_plan_image_exceeds_limit:
  assumes ops: "a < length ops" "b < length ops" "a \<noteq> b" "op_layer (ops ! a) = op_layer (ops ! b)"
      "op_type (ops ! a) = GUAC_DISPLAY_PLAN_OPERATION_IMG" "op_type (ops ! b) \<noteq> GUAC_DISPLAY_PLAN_OPERATION_IMG"
    and screen: "on_screen (op_dest (ops ! a))" "on_screen (op_dest (ops ! b))"
    and r: "r = guac_rect_extend (op_dest (ops ! a)) (op_dest (ops ! b))" "512 < guac_rect_width r"
    and cost: "uint (op_dirty_size (ops ! a)) \<le> guac_rect_width r * guac_rect_height r"
      "4 * (guac_rect_width r * guac_rect_height r - uint (op_dirty_size (ops ! a))) \<le> 4096 + uint (op_dirty_size (ops ! a))"
  shows "\<exists>ops'. guac_display_plan_combine_if_improved ops a b = (True, ops') \<and>
    op_type (ops' ! a) = GUAC_DISPLAY_PLAN_OPERATION_IMG \<and> op_dest (ops' ! a) = r \<and>
    guac_display_plan_rect_crosses_boundary (op_dest (ops' ! a)) \<and>
    op_type (ops' ! b) = GUAC_DISPLAY_PLAN_OPERATION_NOP"
proof -
  have s: "on_screen r" using on_screen_extend(1) [OF screen] r(1) by simp
  note size = on_screen_size [OF s]
  have wh: "guac_rect_width r \<le> 8192" "guac_rect_height r \<le> 8192" "0 < guac_rect_width r" "0 < guac_rect_height r"
    using s by (simp_all add: size on_screen_def)
  then have area: "guac_rect_width r * guac_rect_height r \<le> 8192 * 8192" by (intro mult_mono) simp_all
  have ca: "wrap32 (uint (of_int GUAC_DISPLAY_BASE_COST + op_dirty_size (ops ! a))) = 4096 + uint (op_dirty_size (ops ! a))"
    by (rule size_t_cost) (use cost(1) area in simp)
  have cross: "guac_display_plan_rect_crosses_boundary r" by (rule wide_crosses [OF s r(2)])
  have "guac_rect_width r * guac_rect_height r - uint (op_dirty_size (ops ! a)) \<le> (4096 + uint (op_dirty_size (ops ! a))) div 4"
    using cost(2) zdiv_mono1 [of "4 * (guac_rect_width r * guac_rect_height r - uint (op_dirty_size (ops ! a)))" _ 4] by simp
  then have "combine_by_cost (ops ! a) (ops ! b) r"
    using ca cost area wh r(2) ops(5)
    by (simp add: combine_by_cost_def plan_constants Let_def wrap32_eq sdiv_pos zero_le_mult_iff)
  then have "guac_display_plan_should_combine (ops ! a) (ops ! b)"
    using ops(4-6) r(1) by (auto simp: guac_display_plan_should_combine_def Let_def)
  then show ?thesis using ops r(1) cross
    by (auto simp: guac_display_plan_combine_if_improved_def combine_ops_def Let_def)
qed

theorem guac_display_plan_image_exceeds_limit_witness:
  "\<exists>ops'. guac_display_plan_combine_if_improved
     [example_op GUAC_DISPLAY_PLAN_OPERATION_IMG (guac_rect_init 0 0 512 64) 32768,
      example_op GUAC_DISPLAY_PLAN_OPERATION_RECT (guac_rect_init 512 0 64 64) 4096] 0 1 = (True, ops') \<and>
     op_type (ops' ! 0) = GUAC_DISPLAY_PLAN_OPERATION_IMG \<and> op_dest (ops' ! 0) = guac_rect_init 0 0 576 64"
proof -
  let ?ops = "[example_op GUAC_DISPLAY_PLAN_OPERATION_IMG (guac_rect_init 0 0 512 64) 32768,
      example_op GUAC_DISPLAY_PLAN_OPERATION_RECT (guac_rect_init 512 0 64 64) 4096]"
  have e: "guac_rect_extend (guac_rect_init 0 0 512 64) (guac_rect_init 512 0 64 64) = guac_rect_init 0 0 576 64"
    by (simp add: guac_rect_init_def guac_rect_extend_max guac_rect_is_empty_def)
  show ?thesis
    using guac_display_plan_image_exceeds_limit [of 0 ?ops 1 "guac_rect_init 0 0 576 64"] e
    by (simp add: example_op_def guac_rect_init_def on_screen_def guac_rect_width_def guac_rect_height_def) blast
qed

end
