(* ===== verification/DisplayCreate.thy ===== *)
theory DisplayCreate
  imports DisplayPlan
begin

text \<open>
  How a plan is made (\<open>libguac/display-plan.c\<close>): the pending frame of every layer is compared with the
  last frame, line by line within cells of 64 by 64 pixels, and each cell that differs becomes an
  image operation. The image buffer of a layer is the list of its rows of pixels; a null buffer is
  \<open>None\<close>. The theorem shows that no changed pixel of a reported region is missed.
\<close>

section \<open>Layers\<close>

definition GUAC_DISPLAY_CELL_SIZE :: int where "GUAC_DISPLAY_CELL_SIZE = 64"
definition GUAC_DISPLAY_CELL_SIZE_EXPONENT :: nat where "GUAC_DISPLAY_CELL_SIZE_EXPONENT = 6"

definition GUAC_DISPLAY_CELL_DIMENSION :: "int \<Rightarrow> int" where
  "GUAC_DISPLAY_CELL_DIMENSION pixels = (pixels + GUAC_DISPLAY_CELL_SIZE - 1) sdiv GUAC_DISPLAY_CELL_SIZE"

type_synonym pixel = "32 word"

text \<open>
  A layer state; the parent is the index of the parent layer, and the rows of the buffer have
  \<open>state_buffer_stride\<close> bytes each. The rectangle \<open>dirty\<close> of the two frames of a layer is \<open>layer_dirty\<close> for the
  pending frame and \<open>layer_last_dirty\<close> for the last one; the list pointers are the order of a list.
  A layer is identified by \<open>layer_number\<close> where the source has its address; \<open>layer_layer\<close> is the index of
  its \<open>guac_layer\<close>. The off-screen buffer \<open>last_frame_buffer\<close> is given by the integer of its pool.
\<close>

record guac_display_layer_state =
  state_width :: int
  state_height :: int
  state_parent :: int
  state_x :: int
  state_y :: int
  state_z :: int
  state_opacity :: int
  state_touches :: int
  state_lossless :: bool
  state_buffer :: "pixel list list option"
  state_buffer_width :: int
  state_buffer_height :: int
  state_buffer_stride :: int
  state_buffer_is_external :: bool
  state_search_for_copies :: bool

record guac_display_layer = plan_layer +
  layer_number :: nat
  layer_layer :: int
  layer_opaque :: bool
  layer_last_frame :: guac_display_layer_state
  layer_last_frame_buffer :: nat
  layer_last_dirty :: guac_rect
  layer_pending_frame :: guac_display_layer_state

definition rows_of :: "guac_display_layer_state \<Rightarrow> pixel list list" where
  "rows_of st = (case state_buffer st of None \<Rightarrow> [] | Some rows \<Rightarrow> rows)"

section \<open>Comparing lines\<close>

fun memcmp_first :: "pixel list \<Rightarrow> pixel list \<Rightarrow> nat \<Rightarrow> nat" where
  "memcmp_first (a # as) (b # bs) (Suc count) = (if a \<noteq> b then 0 else Suc (memcmp_first as bs count))"
| "memcmp_first _ _ _ = 0"

text \<open>
  The second loop of \<open>guac_display_memcmp\<close>: \<open>offset\<close> runs to \<open>count\<close>, and \<open>last\<close> follows the latest
  difference.
\<close>

function memcmp_last :: "pixel list \<Rightarrow> pixel list \<Rightarrow> nat \<Rightarrow> nat \<Rightarrow> nat \<Rightarrow> nat" where
  "memcmp_last as bs count offset latest = (if offset < count
     then memcmp_last as bs count (offset + 1) (if as ! offset \<noteq> bs ! offset then offset else latest)
     else latest)"
  by auto
termination by (relation "measure (\<lambda>(as, bs, count, offset, latest). count - offset)") simp_all

declare memcmp_last.simps [simp del]

text \<open>\<open>None\<close> is the return value 0, and \<open>Some (pos, length)\<close> a difference.\<close>

definition guac_display_memcmp :: "pixel list \<Rightarrow> pixel list \<Rightarrow> nat \<Rightarrow> (nat \<times> nat) option" where
  "guac_display_memcmp as bs count = (
    let first = memcmp_first as bs count
    in if first \<ge> count then None
       else let latest = memcmp_last as bs count (first + 1) first in Some (first, latest - first + 1))"

section \<open>Marking cells\<close>

definition guac_display_plan_mark_dirty ::
    "guac_display_layer_cell \<Rightarrow> nat \<Rightarrow> int \<Rightarrow> int \<Rightarrow> int \<Rightarrow> guac_display_layer_cell \<times> nat" where
  "guac_display_plan_mark_dirty cell count x y width = (
    if cell_dirty_size cell = 0 then
      (cell\<lparr>cell_dirty := guac_rect_init x y width 1, cell_dirty_size := of_int width\<rparr>, count + 1)
    else
      (cell\<lparr>cell_dirty := guac_rect_extend (cell_dirty cell) (guac_rect_init x y width 1),
            cell_dirty_size := cell_dirty_size cell + of_int width\<rparr>, count))"

text \<open>The cells of the layer, its dirty rectangle, and the number of operations so far.\<close>

type_synonym refine_state = "guac_display_layer_cell list \<times> guac_rect \<times> nat"

definition mark_cell :: "nat \<Rightarrow> int \<Rightarrow> int \<Rightarrow> int \<Rightarrow> refine_state \<Rightarrow> refine_state" where
  "mark_cell i x y width st = (case st of (cells, dirty, count) \<Rightarrow>
    (case guac_display_plan_mark_dirty (cells ! i) count x y width of (cell, count) \<Rightarrow>
      (cells[i := cell], guac_rect_extend dirty (cell_dirty cell), count)))"

text \<open>
  The body of the innermost loop of \<open>PFW_LFR_guac_display_plan_create\<close>, for the cell \<open>i\<close> and the line
  of \<open>width\<close> pixels at \<open>(corner_x, y)\<close>.
\<close>

definition refine_line ::
    "guac_display_layer_state \<Rightarrow> guac_display_layer_state \<Rightarrow> nat \<Rightarrow> int \<Rightarrow> int \<Rightarrow> int \<Rightarrow> refine_state \<Rightarrow> refine_state outcome" where
  "refine_line last_frame pending i corner_x y width st = guac_assert (width \<ge> 0) (
    if y \<ge> state_height last_frame \<or> corner_x \<ge> state_width last_frame then Inr (mark_cell i corner_x y width st)
    else
      let comparable_width = (if corner_x + width > state_width last_frame
            then state_width last_frame - corner_x else width)
      in guac_assert (comparable_width \<ge> 0) (
        let st = (if width > comparable_width
              then mark_cell i (corner_x + comparable_width) y (width - comparable_width) st else st)
        in Inr (case guac_display_memcmp (drop (nat corner_x) (rows_of pending ! nat y))
              (drop (nat corner_x) (rows_of last_frame ! nat y)) (nat comparable_width) of
            None \<Rightarrow> st
          | Some (pos, len) \<Rightarrow> mark_cell i (corner_x + int pos) y (int len) st)))"

text \<open>A loop whose body may stop the process.\<close>

fun fold_outcome :: "('a \<Rightarrow> 's \<Rightarrow> 's outcome) \<Rightarrow> 'a list \<Rightarrow> 's \<Rightarrow> 's outcome" where
  "fold_outcome f [] s = Inr s"
| "fold_outcome f (x # xs) s = (case f x s of Inl e \<Rightarrow> Inl e | Inr s \<Rightarrow> fold_outcome f xs s)"

text \<open>
  The values of a loop variable that starts at \<open>v\<close> and advances by the size of a cell while it is less
  than \<open>end\<close>, each with the number of the cell, which advances along.
\<close>

function corners :: "nat \<Rightarrow> int \<Rightarrow> int \<Rightarrow> (nat \<times> int) list" where
  "corners k v limit = (if v < limit then (k, v) # corners (k + 1) (v + GUAC_DISPLAY_CELL_SIZE) limit else [])"
  by auto
termination
  by (relation "measure (\<lambda>(k, v, limit). nat (limit - v))") (simp_all add: GUAC_DISPLAY_CELL_SIZE_def)

declare corners.simps [simp del]

definition cell_extent :: "int \<Rightarrow> int \<Rightarrow> int" where
  "cell_extent corner limit =
    (if corner + GUAC_DISPLAY_CELL_SIZE > limit then limit - corner else GUAC_DISPLAY_CELL_SIZE)"

text \<open>The comparison of one layer, from the alignment of its dirty rectangle on.\<close>

definition refine_region :: "'a guac_display_layer_scheme \<Rightarrow> guac_rect" where
  "refine_region l = guac_rect_constrain (guac_rect_align (layer_dirty l) GUAC_DISPLAY_CELL_SIZE_EXPONENT)
     \<lparr>rect_left = 0, rect_top = 0, rect_right = state_width (layer_pending_frame l),
      rect_bottom = state_height (layer_pending_frame l)\<rparr>"

definition refine_layer :: "'a guac_display_layer_scheme \<Rightarrow> nat \<Rightarrow> ('a guac_display_layer_scheme \<times> nat) outcome" where
  "refine_layer l op_count = (
    let dirty = refine_region l;
        cell_row = nat (rect_top dirty sdiv GUAC_DISPLAY_CELL_SIZE);
        cell_column = nat (rect_left dirty sdiv GUAC_DISPLAY_CELL_SIZE)
    in case fold_outcome (\<lambda>(row, corner_y).
          fold_outcome (\<lambda>y_off.
            fold_outcome (\<lambda>(column, corner_x).
                refine_line (layer_last_frame l) (layer_pending_frame l) (row * layer_cells_width l + column)
                  corner_x (corner_y + y_off) (cell_extent corner_x (rect_right dirty)))
              (corners cell_column (rect_left dirty) (rect_right dirty)))
            [0..cell_extent corner_y (rect_bottom dirty) - 1])
          (corners cell_row (rect_top dirty) (rect_bottom dirty))
          (layer_cells l, \<lparr>rect_left = 0, rect_top = 0, rect_right = 0, rect_bottom = 0\<rparr>, op_count) of
        Inl e \<Rightarrow> Inl e
      | Inr (cells, dirty, op_count) \<Rightarrow> Inr (l\<lparr>layer_dirty := dirty, layer_cells := cells\<rparr>, op_count))"

text \<open>
  The loop over the layers. A layer whose buffer has been replaced by a null pointer is meant to be
  skipped, but the loop continues without advancing to the next layer.
\<close>

partial_function (option) refine_layers ::
    "guac_display_layer list \<Rightarrow> nat \<Rightarrow> (guac_display_layer list \<times> nat) outcome option" where
  [code]: "refine_layers ls op_count = (case ls of
      [] \<Rightarrow> Some (Inr ([], op_count))
    | l # rest \<Rightarrow>
        if state_buffer (layer_pending_frame l) = None then
          (if state_buffer_is_external (layer_pending_frame l) then refine_layers ls op_count
           else Some (Inl Assertion))
        else (case (if guac_rect_is_empty (layer_dirty l) then Inr (l, op_count) else refine_layer l op_count) of
            Inl e \<Rightarrow> Some (Inl e)
          | Inr (l, op_count) \<Rightarrow>
              Option.bind (refine_layers rest op_count) (\<lambda>r. Some (case r of
                  Inl e \<Rightarrow> Inl e
                | Inr (rest, op_count) \<Rightarrow> Inr (l # rest, op_count)))))"

section \<open>Collecting the operations\<close>

definition cell_operation :: "nat \<Rightarrow> int \<Rightarrow> guac_display_layer_cell \<Rightarrow> guac_display_plan_operation" where
  "cell_operation layer frame_end cell = \<lparr>op_layer = layer, op_type = GUAC_DISPLAY_PLAN_OPERATION_IMG,
     op_dest = cell_dirty cell, op_dirty_size = cell_dirty_size cell, op_last_frame = cell_last_frame cell,
     op_current_frame = frame_end, op_src_color = 0, op_src_rect = cell_dirty cell, op_src_layer = 0\<rparr>"

text \<open>
  The loop over the cells of a layer; the operations added so far are \<open>ops\<close>. The union \<open>src\<close> of a new
  operation is not initialised by the source; what stands in it here is never read.
\<close>

fun collect_cells :: "nat \<Rightarrow> int \<Rightarrow> nat \<Rightarrow> guac_display_layer_cell list \<Rightarrow> guac_display_plan_operation list \<Rightarrow>
    (guac_display_layer_cell list \<times> guac_display_plan_operation list) outcome" where
  "collect_cells layer frame_end op_count [] ops = Inr ([], ops)"
| "collect_cells layer frame_end op_count (cell # cells) ops = (
    if cell_dirty_size cell \<noteq> 0 then
      guac_assert (length ops < op_count) (
        case collect_cells layer frame_end op_count cells (ops @ [cell_operation layer frame_end cell]) of
          Inl e \<Rightarrow> Inl e
        | Inr (cells, ops') \<Rightarrow> Inr (cell\<lparr>cell_related_op := Some (length ops), cell_dirty_size := 0,
            cell_last_frame := frame_end\<rparr> # cells, ops'))
    else
      (case collect_cells layer frame_end op_count cells ops of
        Inl e \<Rightarrow> Inl e
      | Inr (cells, ops') \<Rightarrow> Inr (cell\<lparr>cell_related_op := None\<rparr> # cells, ops')))"

fun collect_layers :: "int \<Rightarrow> nat \<Rightarrow> guac_display_layer list \<Rightarrow> guac_display_plan_operation list \<Rightarrow>
    (guac_display_layer list \<times> guac_display_plan_operation list) outcome" where
  "collect_layers frame_end op_count [] ops = Inr ([], ops)"
| "collect_layers frame_end op_count (l # ls) ops =
    (case collect_cells (layer_number l) frame_end op_count (layer_cells l) ops of
      Inl e \<Rightarrow> Inl e
    | Inr (cells, ops) \<Rightarrow>
        (case collect_layers frame_end op_count ls ops of
          Inl e \<Rightarrow> Inl e
        | Inr (ls, ops) \<Rightarrow> Inr (l\<lparr>layer_cells := cells\<rparr> # ls, ops)))"

text \<open>The layers after the call, and the operations of the plan unless \<open>NULL\<close> is returned.\<close>

definition PFW_LFR_guac_display_plan_create :: "int \<Rightarrow> guac_display_layer list \<Rightarrow>
    (guac_display_layer list \<times> guac_display_plan_operation list option) outcome option" where
  "PFW_LFR_guac_display_plan_create frame_end layers = (case refine_layers layers 0 of
      None \<Rightarrow> None
    | Some (Inl e) \<Rightarrow> Some (Inl e)
    | Some (Inr (layers, op_count)) \<Rightarrow>
        if op_count = 0 then Some (Inr (layers, None))
        else (case collect_layers frame_end op_count layers [] of
            Inl e \<Rightarrow> Some (Inl e)
          | Inr (layers, ops) \<Rightarrow> Some (guac_assert (length ops = op_count) (Inr (layers, Some ops)))))"

section \<open>Comparing lines: specification\<close>

lemma memcmp_first_spec:
  "count \<le> length as \<Longrightarrow> count \<le> length bs \<Longrightarrow>
    memcmp_first as bs count \<le> count \<and> (\<forall>i < memcmp_first as bs count. as ! i = bs ! i) \<and>
    (memcmp_first as bs count < count \<longrightarrow> as ! memcmp_first as bs count \<noteq> bs ! memcmp_first as bs count)"
proof (induction as bs count rule: memcmp_first.induct)
  case (1 a as b bs count)
  then show ?case by (auto simp: less_Suc_eq_0_disj)
qed simp_all

lemma memcmp_last_spec:
  assumes "latest < offset" "offset \<le> count" "as ! latest \<noteq> bs ! latest"
    "\<forall>i. latest < i \<and> i < offset \<longrightarrow> as ! i = bs ! i"
  defines "e \<equiv> memcmp_last as bs count offset latest"
  shows "latest \<le> e \<and> e < count \<and> as ! e \<noteq> bs ! e \<and> (\<forall>i. e < i \<and> i < count \<longrightarrow> as ! i = bs ! i)"
  using assms(1-4) unfolding e_def
proof (induction as bs count offset latest rule: memcmp_last.induct)
  case (1 as bs count offset latest)
  show ?case
  proof (cases "offset < count")
    case False
    then show ?thesis using "1.prems" by (subst (1 2 3 4 5) memcmp_last.simps) auto
  next
    case True
    let ?l = "if as ! offset \<noteq> bs ! offset then offset else latest"
    have e: "memcmp_last as bs count offset latest = memcmp_last as bs count (offset + 1) ?l"
      using True by (subst memcmp_last.simps) simp
    have "?l \<le> memcmp_last as bs count (offset + 1) ?l \<and> memcmp_last as bs count (offset + 1) ?l < count \<and>
        as ! memcmp_last as bs count (offset + 1) ?l \<noteq> bs ! memcmp_last as bs count (offset + 1) ?l \<and>
        (\<forall>i. memcmp_last as bs count (offset + 1) ?l < i \<and> i < count \<longrightarrow> as ! i = bs ! i)"
      using True "1.prems" by (intro "1.IH") (auto simp: less_Suc_eq)
    moreover have "latest \<le> ?l" using "1.prems"(1) by simp
    ultimately show ?thesis unfolding e by (blast intro: order_trans)
  qed
qed

lemma display_memcmp_spec:
  assumes "count \<le> length as" "count \<le> length bs"
  shows "case guac_display_memcmp as bs count of
      None \<Rightarrow> \<forall>i < count. as ! i = bs ! i
    | Some (pos, len) \<Rightarrow> 0 < len \<and> pos + len \<le> count \<and> as ! pos \<noteq> bs ! pos \<and>
        as ! (pos + len - 1) \<noteq> bs ! (pos + len - 1) \<and>
        (\<forall>i < count. as ! i \<noteq> bs ! i \<longrightarrow> pos \<le> i \<and> i < pos + len)"
proof -
  let ?f = "memcmp_first as bs count" and ?l = "memcmp_last as bs count (memcmp_first as bs count + 1) (memcmp_first as bs count)"
  note f = memcmp_first_spec [OF assms]
  show ?thesis
  proof (cases "?f \<ge> count")
    case True
    then show ?thesis using f by (simp add: guac_display_memcmp_def)
  next
    case False
    have l: "?f \<le> ?l \<and> ?l < count \<and> as ! ?l \<noteq> bs ! ?l \<and> (\<forall>i. ?l < i \<and> i < count \<longrightarrow> as ! i = bs ! i)"
      using False f by (intro memcmp_last_spec) auto
    have "?f \<le> i \<and> i \<le> ?l" if "i < count" "as ! i \<noteq> bs ! i" for i
      using that f l by (meson not_le_imp_less)
    then show ?thesis using False f l by (auto simp: guac_display_memcmp_def Let_def less_Suc_eq_le)
  qed
qed

section \<open>Cells and their marks\<close>

text \<open>
  What the comparison keeps. \<open>B\<close> gives the bounds of each cell, \<open>M\<close> the pixels marked so far in each
  cell, and \<open>V\<close> the pairs of a cell and a line that have been compared.
\<close>

definition cell_bounds_ok :: "guac_rect \<Rightarrow> bool" where
  "cell_bounds_ok b \<longleftrightarrow> on_screen b \<and> rect_right b - rect_left b \<le> 64 \<and> rect_bottom b - rect_top b \<le> 64"

definition within :: "guac_rect \<Rightarrow> guac_rect \<Rightarrow> bool" where
  "within r b \<longleftrightarrow> rect_left b \<le> rect_left r \<and> rect_left r < rect_right r \<and> rect_right r \<le> rect_right b \<and>
     rect_top b \<le> rect_top r \<and> rect_top r < rect_bottom r \<and> rect_bottom r \<le> rect_bottom b"

definition cell_marked :: "guac_rect \<Rightarrow> (int \<times> int) set \<Rightarrow> guac_display_layer_cell \<Rightarrow> bool" where
  "cell_marked b m c \<longleftrightarrow> (if m = {} then cell_dirty_size c = 0
     else m \<subseteq> rect_area (cell_dirty c) \<and> within (cell_dirty c) b \<and> uint (cell_dirty_size c) = int (card m))"

definition refine_inv ::
    "(nat \<Rightarrow> guac_rect) \<Rightarrow> nat \<Rightarrow> nat \<Rightarrow> (nat \<times> int) set \<Rightarrow> (nat \<Rightarrow> (int \<times> int) set) \<Rightarrow> refine_state \<Rightarrow> bool" where
  "refine_inv B n base V M st \<longleftrightarrow> (case st of (cells, dirty, count) \<Rightarrow>
     length cells = n \<and> (\<forall>i < n. cell_marked (B i) (M i) (cells ! i)) \<and>
     (\<forall>i. M i \<subseteq> rect_area dirty) \<and> (guac_rect_is_empty dirty \<or> on_screen dirty) \<and>
     (\<forall>i x y. (x, y) \<in> M i \<longrightarrow> (i, y) \<in> V) \<and>
     count = base + card {i. i < n \<and> M i \<noteq> {}})"

lemma within_on_screen: "within r b \<Longrightarrow> cell_bounds_ok b \<Longrightarrow> on_screen r"
  by (auto simp: within_def cell_bounds_ok_def on_screen_def)

lemma within_size:
  assumes "within r b" "cell_bounds_ok b"
  shows "finite (rect_area r)" "card (rect_area r) \<le> 4096"
    "int (card (rect_area r)) = (rect_right r - rect_left r) * (rect_bottom r - rect_top r)"
proof -
  show "finite (rect_area r)" by (simp add: rect_area_def box_def)
  show i: "int (card (rect_area r)) = (rect_right r - rect_left r) * (rect_bottom r - rect_top r)"
    using assms(1) by (simp add: rect_area_def box_def card_cartesian_product within_def)
  also have "\<dots> \<le> 64 * 64" using assms by (intro mult_mono) (auto simp: within_def cell_bounds_ok_def)
  finally show "card (rect_area r) \<le> 4096" by simp
qed

lemma line_area: "0 < w \<Longrightarrow> - (2 ^ 29) \<le> x \<Longrightarrow> x + w \<le> 2 ^ 29 \<Longrightarrow> - (2 ^ 29) \<le> y \<Longrightarrow> y < 2 ^ 29 \<Longrightarrow>
    rect_area (guac_rect_init x y w 1) = {x..<x + w} \<times> {y}"
  by (auto simp: guac_rect_init_def rect_area_def box_def wrap32_eq)

lemma mark_dirty_marked:
  assumes b: "cell_bounds_ok b" and c: "cell_marked b m c"
    and w: "0 < w" "rect_left b \<le> x" "x + w \<le> rect_right b" "rect_top b \<le> y" "y < rect_bottom b"
    and disjoint: "({x..<x + w} \<times> {y}) \<inter> m = {}"
    and r: "guac_display_plan_mark_dirty c count x y w = (c', count')"
  shows "cell_marked b (m \<union> {x..<x + w} \<times> {y}) c' \<and> count' = count + (if m = {} then 1 else 0)"
proof -
  let ?line = "guac_rect_init x y w 1" and ?s = "{x..<x + w} \<times> {y}"
  have e: "0 \<le> x" "x + w \<le> 8192" "0 \<le> y" "y < 8192" using b w by (auto simp: cell_bounds_ok_def on_screen_def)
  have area: "rect_area ?line = ?s" using e w(1) by (intro line_area) simp_all
  have line: "within ?line b" using w e by (simp add: within_def guac_rect_init_def wrap32_eq)
  have card_s: "card ?s = nat w" by simp
  have w64: "w \<le> 64" using b w by (auto simp: cell_bounds_ok_def)
  show ?thesis
  proof (cases "m = {}")
    case True
    then have "c' = c\<lparr>cell_dirty := ?line, cell_dirty_size := of_int w\<rparr>" "count' = count + 1"
      using c r by (simp_all add: cell_marked_def guac_display_plan_mark_dirty_def)
    moreover have "uint (of_int w :: size_t) = w" using w(1) w64 by (simp add: uint_word_of_int)
    ultimately show ?thesis using True line area w(1) by (simp add: cell_marked_def)
  next
    case False
    then have m: "m \<subseteq> rect_area (cell_dirty c)" "within (cell_dirty c) b" "uint (cell_dirty_size c) = int (card m)"
      using c by (simp_all add: cell_marked_def)
    have fin: "finite m" using m(1) within_size(1) [OF m(2) b] by (rule finite_subset)
    have "card m \<noteq> 0" using False fin by simp
    then have nz: "cell_dirty_size c \<noteq> 0" using m(3) by auto
    have r': "c' = c\<lparr>cell_dirty := guac_rect_extend (cell_dirty c) ?line,
        cell_dirty_size := cell_dirty_size c + of_int w\<rparr>" "count' = count"
      using r nz by (simp_all add: guac_display_plan_mark_dirty_def)
    have s: "on_screen (cell_dirty c)" "on_screen ?line" using within_on_screen b m(2) line by blast+
    have ext: "within (guac_rect_extend (cell_dirty c) ?line) b"
      using m(2) line by (simp add: on_screen_extend(2) [OF s] within_def min_def max_def)
    have sub: "m \<union> ?s \<subseteq> rect_area (guac_rect_extend (cell_dirty c) ?line)"
      using rects.extend_covers [of "cell_dirty c" ?line] m(1) area by auto
    have card: "card (m \<union> ?s) = card m + nat w" using fin disjoint card_s by (subst card_Un_disjoint) auto
    have "card (m \<union> ?s) \<le> 4096"
      using card_mono [OF within_size(1) [OF ext b] sub] within_size(2) [OF ext b] by linarith
    then have "uint (cell_dirty_size c + of_int w) = int (card m) + w"
      using m(3) w(1) w64 card by (subst uint_add_lem [THEN iffD1]) (simp_all add: uint_word_of_int)
    then show ?thesis using r' ext sub card w(1) False by (simp add: cell_marked_def)
  qed
qed

lemma mark_cell_inv:
  assumes inv: "refine_inv B n base V M st" and i: "i < n" and b: "cell_bounds_ok (B i)"
    and w: "0 < w" "rect_left (B i) \<le> x" "x + w \<le> rect_right (B i)" "rect_top (B i) \<le> y" "y < rect_bottom (B i)"
    and disjoint: "({x..<x + w} \<times> {y}) \<inter> M i = {}"
  shows "refine_inv B n base (insert (i, y) V) (M(i := M i \<union> {x..<x + w} \<times> {y})) (mark_cell i x y w st)"
proof -
  obtain cells dirty count where st: "st = (cells, dirty, count)" by (cases st) auto
  obtain c' count' where c': "guac_display_plan_mark_dirty (cells ! i) count x y w = (c', count')" by fastforce
  let ?s = "{x..<x + w} \<times> {y}" and ?M = "M(i := M i \<union> {x..<x + w} \<times> {y})"
  have inv': "length cells = n" "\<forall>i < n. cell_marked (B i) (M i) (cells ! i)" "\<forall>i. M i \<subseteq> rect_area dirty"
    "\<forall>i x y. (x, y) \<in> M i \<longrightarrow> (i, y) \<in> V" "count = base + card {i. i < n \<and> M i \<noteq> {}}"
    "guac_rect_is_empty dirty \<or> on_screen dirty"
    using inv by (simp_all add: refine_inv_def st)
  have m: "cell_marked (B i) (M i \<union> ?s) c' \<and> count' = count + (if M i = {} then 1 else 0)"
    using inv'(2) i by (intro mark_dirty_marked [OF b _ w disjoint c']) blast
  have ne: "?s \<noteq> {}" using w(1) by auto
  have cover: "rect_area (cell_dirty c') \<subseteq> rect_area (guac_rect_extend dirty (cell_dirty c'))"
    "rect_area dirty \<subseteq> rect_area (guac_rect_extend dirty (cell_dirty c'))"
    using rects.extend_covers [of dirty "cell_dirty c'"] by auto
  have "M i \<union> ?s \<subseteq> rect_area (cell_dirty c')" using m ne by (auto simp: cell_marked_def)
  then have area: "\<forall>j. ?M j \<subseteq> rect_area (guac_rect_extend dirty (cell_dirty c'))"
    using cover inv'(3) by auto
  have "{j. j < n \<and> ?M j \<noteq> {}} = insert i {j. j < n \<and> M j \<noteq> {}}" using ne i by auto
  then have card: "count' = base + card {j. j < n \<and> ?M j \<noteq> {}}"
    using m inv'(5) i by (auto simp: card_insert_if)
  have mc: "mark_cell i x y w st = (cells[i := c'], guac_rect_extend dirty (cell_dirty c'), count')"
    by (simp add: mark_cell_def st c')
  have "\<forall>j < n. cell_marked (B j) (?M j) (cells[i := c'] ! j)"
    using inv'(1, 2) m by (simp add: nth_list_update)
  moreover have "\<forall>j u v. (u, v) \<in> ?M j \<longrightarrow> (j, v) \<in> insert (i, y) V" using inv'(4) by auto
  moreover have "on_screen (guac_rect_extend dirty (cell_dirty c'))"
  proof -
    have "on_screen (cell_dirty c')" using m ne b by (auto simp: cell_marked_def intro: within_on_screen)
    then show ?thesis using inv'(6) on_screen_extend(1) [of dirty "cell_dirty c'"]
      by (cases "guac_rect_is_empty dirty") (auto simp: guac_rect_extend_max)
  qed
  ultimately show ?thesis using inv'(1) area card unfolding mc refine_inv_def prod.case by simp
qed

section \<open>Lines and their differences\<close>

text \<open>The pixels of a frame that are not the same in the last frame.\<close>

definition differs :: "guac_display_layer_state \<Rightarrow> guac_display_layer_state \<Rightarrow> int \<Rightarrow> int \<Rightarrow> bool" where
  "differs last_frame pending x y \<longleftrightarrow> x \<ge> state_width last_frame \<or> y \<ge> state_height last_frame \<or>
     rows_of pending ! nat y ! nat x \<noteq> rows_of last_frame ! nat y ! nat x"

definition buffer_ok :: "guac_display_layer_state \<Rightarrow> bool" where
  "buffer_ok st \<longleftrightarrow> 0 \<le> state_width st \<and> 0 \<le> state_height st \<and> state_height st \<le> int (length (rows_of st)) \<and>
     (\<forall>row \<in> set (rows_of st). state_width st \<le> int (length row))"

lemma buffer_row:
  assumes "buffer_ok st" "0 \<le> y" "y < state_height st" "0 \<le> x" "x + w \<le> state_width st"
  shows "nat w \<le> length (drop (nat x) (rows_of st ! nat y))"
proof -
  have "nat y < length (rows_of st)" using assms by (auto simp: buffer_ok_def)
  then have "state_width st \<le> int (length (rows_of st ! nat y))" using assms(1) by (simp add: buffer_ok_def)
  then show ?thesis using assms(4, 5) by simp
qed

lemma refine_inv_visited: "refine_inv B n base V M st \<Longrightarrow> V \<subseteq> W \<Longrightarrow> refine_inv B n base W M st"
  by (fastforce simp: refine_inv_def split: prod.splits)

text \<open>The part of a line beyond the right edge of the last frame.\<close>

lemma mark_tail_inv:
  assumes inv: "refine_inv B n base V M st" and i: "i < n" "cell_bounds_ok (B i)" and fresh: "(i, y) \<notin> V"
    and w: "0 < w" "rect_left (B i) \<le> x" "x + w \<le> rect_right (B i)" "rect_top (B i) \<le> y" "y < rect_bottom (B i)"
    and cw: "0 < cw" "cw \<le> w"
  shows "refine_inv B n base (insert (i, y) V) (M(i := M i \<union> {x + cw..<x + w} \<times> {y}))
    (if w > cw then mark_cell i (x + cw) y (w - cw) st else st)"
proof (cases "w > cw")
  case True
  have apart: "({u..<v} \<times> {y}) \<inter> M i = {}" for u v
    using inv fresh by (auto simp: refine_inv_def split: prod.splits)
  have "refine_inv B n base (insert (i, y) V) (M(i := M i \<union> {x + cw..<x + cw + (w - cw)} \<times> {y}))
      (mark_cell i (x + cw) y (w - cw) st)"
    using True cw w apart by (intro mark_cell_inv [OF inv i]) simp_all
  with True show ?thesis by simp
next
  case False
  with cw(2) have "cw = w" by simp
  then show ?thesis using refine_inv_visited [OF inv] by (simp add: subset_insertI)
qed

lemma refine_line_inv:
  assumes inv: "refine_inv B n base V M st" and i: "i < n" "cell_bounds_ok (B i)" and fresh: "(i, y) \<notin> V"
    and w: "0 < w" "rect_left (B i) \<le> x" "x + w \<le> rect_right (B i)" "rect_top (B i) \<le> y" "y < rect_bottom (B i)"
    and buffers: "buffer_ok last_frame" "buffer_ok pending" "x + w \<le> state_width pending" "y < state_height pending"
  shows "\<exists>st' m. refine_line last_frame pending i x y w st = Inr st' \<and>
    refine_inv B n base (insert (i, y) V) (M(i := M i \<union> m)) st' \<and>
    (\<forall>v. x \<le> v \<and> v < x + w \<and> differs last_frame pending v y \<longrightarrow> (v, y) \<in> m)"
proof -
  have xy: "0 \<le> x" "0 \<le> y" using i(2) w by (auto simp: cell_bounds_ok_def on_screen_def)
  have apart: "({u..<v} \<times> {y}) \<inter> M i = {}" for u v
    using inv fresh by (auto simp: refine_inv_def split: prod.splits)
  show ?thesis
  proof (cases "y \<ge> state_height last_frame \<or> x \<ge> state_width last_frame")
    case True
    then have "refine_line last_frame pending i x y w st = Inr (mark_cell i x y w st)"
      using w(1) by (simp add: refine_line_def)
    moreover note mark_cell_inv [OF inv i w apart]
    ultimately show ?thesis by (intro exI [of _ "mark_cell i x y w st"] exI [of _ "{x..<x + w} \<times> {y}"]) simp
  next
    case False
    let ?cw = "if x + w > state_width last_frame then state_width last_frame - x else w"
    let ?as = "drop (nat x) (rows_of pending ! nat y)" and ?bs = "drop (nat x) (rows_of last_frame ! nat y)"
    let ?st1 = "if w > ?cw then mark_cell i (x + ?cw) y (w - ?cw) st else st"
    let ?m1 = "{x + ?cw..<x + w} \<times> {y}"
    have cw: "0 < ?cw" "?cw \<le> w" "x + ?cw \<le> state_width last_frame" using False w(1) by auto
    have inv1: "refine_inv B n base (insert (i, y) V) (M(i := M i \<union> ?m1)) ?st1"
      by (rule mark_tail_inv [OF inv i fresh w cw(1, 2)])
    have line: "refine_line last_frame pending i x y w st = Inr (case guac_display_memcmp ?as ?bs (nat ?cw) of
        None \<Rightarrow> ?st1 | Some (pos, len) \<Rightarrow> mark_cell i (x + int pos) y (int len) ?st1)"
      using False w(1) cw(1) by (simp add: refine_line_def Let_def)
    have len: "nat ?cw \<le> length ?as" "nat ?cw \<le> length ?bs"
      using buffers xy cw False w(1) by (intro buffer_row; linarith; fail | simp)+
    have nth: "?as ! k = rows_of pending ! nat y ! nat (x + int k) \<and> ?bs ! k = rows_of last_frame ! nat y ! nat (x + int k)"
      if "k < nat ?cw" for k
    proof -
      have "nat x \<le> length (rows_of pending ! nat y)" "nat x \<le> length (rows_of last_frame ! nat y)"
        using that len unfolding length_drop by linarith+
      then show ?thesis using xy(1) by (simp add: nat_add_distrib)
    qed
    show ?thesis
    proof (cases "guac_display_memcmp ?as ?bs (nat ?cw)")
      case None
      then have "\<forall>k < nat ?cw. ?as ! k = ?bs ! k" using display_memcmp_spec [OF len] by simp
      then have "\<not> differs last_frame pending v y" if "x \<le> v" "v < x + ?cw" for v
        using that nth [of "nat (v - x)"] False cw(3) by (auto simp: differs_def)
      with None inv1 show ?thesis unfolding line by (intro exI [of _ ?st1] exI [of _ ?m1]) fastforce
    next
      case (Some d)
      obtain pos len where d: "d = (pos, len)" by fastforce
      have cmp: "0 < len" "pos + len \<le> nat ?cw" "\<forall>k < nat ?cw. ?as ! k \<noteq> ?bs ! k \<longrightarrow> pos \<le> k \<and> k < pos + len"
        using display_memcmp_spec [OF len] Some by (simp_all add: d)
      let ?m2 = "{x + int pos..<x + int pos + int len} \<times> {y}"
      have "refine_inv B n base (insert (i, y) (insert (i, y) V)) ((M(i := M i \<union> ?m1))(i := (M(i := M i \<union> ?m1)) i \<union> ?m2))
          (mark_cell i (x + int pos) y (int len) ?st1)"
        using w cw cmp(1, 2) apart by (intro mark_cell_inv [OF inv1 i]) auto
      then have inv2: "refine_inv B n base (insert (i, y) V) (M(i := M i \<union> (?m1 \<union> ?m2))) (mark_cell i (x + int pos) y (int len) ?st1)"
        by (simp add: Un_assoc)
      have "(v, y) \<in> ?m1 \<union> ?m2" if "x \<le> v" "v < x + w" "differs last_frame pending v y" for v
      proof (cases "v < x + ?cw")
        case True
        then have "?as ! nat (v - x) \<noteq> ?bs ! nat (v - x)" using that nth [of "nat (v - x)"] False cw(3) by (auto simp: differs_def)
        then have "pos \<le> nat (v - x) \<and> nat (v - x) < pos + len" using cmp(3) True that(1) by simp
        then show ?thesis using that(1) by auto
      qed (use that in auto)
      with inv2 Some d show ?thesis unfolding line
        by (intro exI [of _ "mark_cell i (x + int pos) y (int len) ?st1"] exI [of _ "?m1 \<union> ?m2"]) simp
    qed
  qed
qed

section \<open>The loops over lines and cells\<close>

lemma fold_outcome_append:
  "fold_outcome f (xs @ ys) s = (case fold_outcome f xs s of Inl e \<Rightarrow> Inl e | Inr s \<Rightarrow> fold_outcome f ys s)"
  by (induction xs arbitrary: s) (auto split: sum.splits)

lemma fold_outcome_concat: "fold_outcome f (concat (map g xs)) = fold_outcome (\<lambda>x. fold_outcome f (g x)) xs"
proof
  show "fold_outcome f (concat (map g xs)) s = fold_outcome (\<lambda>x. fold_outcome f (g x)) xs s" for s
    by (induction xs arbitrary: s) (auto simp: fold_outcome_append split: sum.splits)
qed

lemma fold_outcome_map: "fold_outcome f (map h xs) = fold_outcome (\<lambda>x. f (h x)) xs"
proof
  show "fold_outcome f (map h xs) s = fold_outcome (\<lambda>x. f (h x)) xs s" for s
    by (induction xs arbitrary: s) (auto split: sum.splits)
qed

lemma distinct_concat_map:
  "distinct xs \<Longrightarrow> (\<And>x. x \<in> set xs \<Longrightarrow> distinct (f x)) \<Longrightarrow>
    (\<And>x y. x \<in> set xs \<Longrightarrow> y \<in> set xs \<Longrightarrow> x \<noteq> y \<Longrightarrow> set (f x) \<inter> set (f y) = {}) \<Longrightarrow> distinct (concat (map f xs))"
proof (induction xs)
  case (Cons a xs)
  have "set (f a) \<inter> set (f x) = {}" if "x \<in> set xs" for x
    using that Cons.prems by (intro Cons.prems(3)) auto
  then show ?case using Cons by auto
qed simp

lemma mem_corners: "(j, x) \<in> set (corners k v limit) \<longleftrightarrow> k \<le> j \<and> x = v + 64 * int (j - k) \<and> x < limit"
proof (induction k v limit rule: corners.induct)
  case (1 k v limit)
  show ?case
  proof (cases "v < limit")
    case True
    have "(j, x) \<in> set (corners k v limit) \<longleftrightarrow> (j, x) = (k, v) \<or> (j, x) \<in> set (corners (k + 1) (v + 64) limit)"
      using True by (subst corners.simps) (simp add: GUAC_DISPLAY_CELL_SIZE_def)
    also have "\<dots> \<longleftrightarrow> (j, x) = (k, v) \<or> (k + 1 \<le> j \<and> x = v + 64 + 64 * int (j - (k + 1)) \<and> x < limit)"
      using 1 True by (simp add: GUAC_DISPLAY_CELL_SIZE_def)
    also have "\<dots> \<longleftrightarrow> k \<le> j \<and> x = v + 64 * int (j - k) \<and> x < limit"
      using True by (cases "j = k") auto
    finally show ?thesis .
  next
    case False
    then have "corners k v limit = []" by (subst corners.simps) simp
    with False show ?thesis by auto
  qed
qed

lemma distinct_corners: "distinct (map fst (corners k v limit))"
proof (induction k v limit rule: corners.induct)
  case (1 k v limit)
  show ?case
  proof (cases "v < limit")
    case True
    have "k \<notin> fst ` set (corners (k + 1) (v + GUAC_DISPLAY_CELL_SIZE) limit)"
      by (auto simp: mem_corners)
    with 1 True show ?thesis by (subst corners.simps) simp
  next
    case False
    then show ?thesis by (subst corners.simps) simp
  qed
qed

type_synonym visit = "nat \<times> int \<times> int \<times> int"

definition visit_key :: "visit \<Rightarrow> nat \<times> int" where
  "visit_key = (\<lambda>(i, x, y, w). (i, y))"

definition visit_ok :: "(nat \<Rightarrow> guac_rect) \<Rightarrow> nat \<Rightarrow> guac_display_layer_state \<Rightarrow> visit \<Rightarrow> bool" where
  "visit_ok B n pending = (\<lambda>(i, x, y, w). i < n \<and> cell_bounds_ok (B i) \<and> 0 < w \<and> rect_left (B i) \<le> x \<and>
     x + w \<le> rect_right (B i) \<and> rect_top (B i) \<le> y \<and> y < rect_bottom (B i) \<and>
     x + w \<le> state_width pending \<and> y < state_height pending)"

lemma visits_inv:
  assumes "buffer_ok last_frame" "buffer_ok pending"
    and "list_all (visit_ok B n pending) vs" "distinct (map visit_key vs)" "set (map visit_key vs) \<inter> V = {}"
    and "refine_inv B n base V M st"
  shows "\<exists>st' W M'. fold_outcome (\<lambda>(i, x, y, w). refine_line last_frame pending i x y w) vs st = Inr st' \<and>
    refine_inv B n base W M' st' \<and> (\<forall>j. M j \<subseteq> M' j) \<and>
    (\<forall>(i, x, y, w) \<in> set vs. \<forall>v. x \<le> v \<and> v < x + w \<and> differs last_frame pending v y \<longrightarrow> (v, y) \<in> M' i)"
  using assms(3-)
proof (induction vs arbitrary: V M st)
  case Nil
  then show ?case by auto
next
  case (Cons a vs)
  obtain i x y w where a: "a = (i, x, y, w)" by (cases a) auto
  have ok: "i < n" "cell_bounds_ok (B i)" "0 < w" "rect_left (B i) \<le> x" "x + w \<le> rect_right (B i)" "rect_top (B i) \<le> y"
    "y < rect_bottom (B i)" "x + w \<le> state_width pending" "y < state_height pending"
    using Cons.prems(1) by (simp_all add: a visit_ok_def)
  have "(i, y) \<notin> V" using Cons.prems(3) by (auto simp: a visit_key_def)
  then obtain st1 m where st1: "refine_line last_frame pending i x y w st = Inr st1"
    "refine_inv B n base (insert (i, y) V) (M(i := M i \<union> m)) st1"
    "\<forall>v. x \<le> v \<and> v < x + w \<and> differs last_frame pending v y \<longrightarrow> (v, y) \<in> m"
    using refine_line_inv [OF Cons.prems(4) ok(1, 2) _ ok(3-7) assms(1, 2) ok(8, 9)] by blast
  have "set (map visit_key vs) \<inter> insert (i, y) V = {}"
    using Cons.prems(2, 3) by (auto simp: a visit_key_def)
  with Cons.IH [OF _ _ this st1(2)] Cons.prems(1, 2) obtain st' W M' where r:
    "fold_outcome (\<lambda>(i, x, y, w). refine_line last_frame pending i x y w) vs st1 = Inr st'"
    "refine_inv B n base W M' st'" "\<forall>j. (M(i := M i \<union> m)) j \<subseteq> M' j"
    "\<forall>(i, x, y, w) \<in> set vs. \<forall>v. x \<le> v \<and> v < x + w \<and> differs last_frame pending v y \<longrightarrow> (v, y) \<in> M' i"
    by auto
  have "M j \<subseteq> M' j" for j using r(3) by (auto split: if_splits)
  moreover have "m \<subseteq> M' i" using r(3) by (metis fun_upd_same le_sup_iff)
  ultimately show ?case using st1 r a by (intro exI [of _ st'] exI [of _ W] exI [of _ M']) auto
qed

section \<open>The comparison of a layer\<close>

definition cell_bounds :: "'a guac_display_layer_scheme \<Rightarrow> nat \<Rightarrow> guac_rect" where
  "cell_bounds l i = (let x = 64 * int (i mod layer_cells_width l); y = 64 * int (i div layer_cells_width l) in
    \<lparr>rect_left = x, rect_top = y, rect_right = min (x + 64) (state_width (layer_pending_frame l)),
     rect_bottom = min (y + 64) (state_height (layer_pending_frame l))\<rparr>)"

text \<open>A layer before a plan is made: as the functions that allocate and resize it leave it.\<close>

definition layer_wf :: "'a guac_display_layer_scheme \<Rightarrow> bool" where
  "layer_wf l \<longleftrightarrow> buffer_ok (layer_last_frame l) \<and> buffer_ok (layer_pending_frame l) \<and>
     state_buffer (layer_pending_frame l) \<noteq> None \<and>
     state_width (layer_pending_frame l) \<le> 8192 \<and> state_height (layer_pending_frame l) \<le> 8192 \<and>
     layer_cells_width l = nat (GUAC_DISPLAY_CELL_DIMENSION (state_width (layer_pending_frame l))) \<and>
     layer_cells_height l = nat (GUAC_DISPLAY_CELL_DIMENSION (state_height (layer_pending_frame l))) \<and>
     length (layer_cells l) = layer_cells_width l * layer_cells_height l \<and>
     list_all (\<lambda>c. cell_dirty_size c = 0) (layer_cells l) \<and>
     (guac_rect_is_empty (layer_dirty l) \<or> rect_ok (layer_dirty l))"

lemma cell_dimension_less:
  assumes "0 \<le> p" "64 * int c < p"
  shows "c < nat (GUAC_DISPLAY_CELL_DIMENSION p)"
proof -
  have "int c < (p + 63) div 64" using assms(2) by linarith
  moreover have "GUAC_DISPLAY_CELL_DIMENSION p = (p + 63) div 64"
    using assms(1) by (simp add: GUAC_DISPLAY_CELL_DIMENSION_def GUAC_DISPLAY_CELL_SIZE_def sdiv_pos)
  ultimately show ?thesis by simp
qed

lemma cell_dimension_lessD:
  assumes "0 \<le> p" "c < nat (GUAC_DISPLAY_CELL_DIMENSION p)"
  shows "64 * int c < p"
proof -
  have "GUAC_DISPLAY_CELL_DIMENSION p = (p + 63) div 64"
    using assms(1) by (simp add: GUAC_DISPLAY_CELL_DIMENSION_def GUAC_DISPLAY_CELL_SIZE_def sdiv_pos)
  then have "int c < (p + 63) div 64" using assms(2) by simp
  then show ?thesis by linarith
qed

lemma cell_bounds_wf:
  assumes "layer_wf l" "i < length (layer_cells l)"
  shows "cell_bounds_ok (cell_bounds l i)"
proof -
  let ?p = "layer_pending_frame l" and ?W = "layer_cells_width l"
  have p: "0 \<le> state_width ?p" "0 \<le> state_height ?p" "state_width ?p \<le> 8192" "state_height ?p \<le> 8192"
    "?W = nat (GUAC_DISPLAY_CELL_DIMENSION (state_width ?p))"
    "layer_cells_height l = nat (GUAC_DISPLAY_CELL_DIMENSION (state_height ?p))"
    "length (layer_cells l) = ?W * layer_cells_height l"
    using assms(1) by (simp_all add: layer_wf_def buffer_ok_def)
  have "0 < ?W" using assms(2) p(7) by (cases "?W = 0") auto
  then have "i mod ?W < ?W" "i div ?W < layer_cells_height l"
    using assms(2) p(7) by (simp_all add: less_mult_imp_div_less mult.commute)
  then have "64 * int (i mod ?W) < state_width ?p" "64 * int (i div ?W) < state_height ?p"
    using cell_dimension_lessD [OF p(1), folded p(5)] cell_dimension_lessD [OF p(2), folded p(6)] by blast+
  then show ?thesis using p(3, 4) by (auto simp: cell_bounds_ok_def on_screen_def cell_bounds_def Let_def)
qed

lemma refine_region_edges:
  assumes "layer_wf l" "\<not> guac_rect_is_empty (layer_dirty l)"
  defines "r \<equiv> refine_region l"
  shows "64 dvd rect_left r" "64 dvd rect_top r" "0 \<le> rect_left r" "0 \<le> rect_top r"
    "rect_right r \<le> state_width (layer_pending_frame l)" "rect_bottom r \<le> state_height (layer_pending_frame l)"
    "rect_area (layer_dirty l) \<inter> box 0 0 (state_width (layer_pending_frame l)) (state_height (layer_pending_frame l)) \<subseteq> rect_area r"
proof -
  let ?a = "guac_rect_align (layer_dirty l) GUAC_DISPLAY_CELL_SIZE_EXPONENT"
  have "rect_ok (layer_dirty l)" using assms by (simp add: layer_wf_def)
  then have a: "rect_area (layer_dirty l) \<subseteq> rect_area ?a" "64 dvd rect_left ?a" "64 dvd rect_top ?a"
    using rect_align_edges [of "layer_dirty l" 6] by (simp_all add: GUAC_DISPLAY_CELL_SIZE_EXPONENT_def)
  show "64 dvd rect_left r" "64 dvd rect_top r" "0 \<le> rect_left r" "0 \<le> rect_top r"
    "rect_right r \<le> state_width (layer_pending_frame l)" "rect_bottom r \<le> state_height (layer_pending_frame l)"
    using a by (simp_all add: r_def refine_region_def guac_rect_constrain_min max_def)
  show "rect_area (layer_dirty l) \<inter> box 0 0 (state_width (layer_pending_frame l)) (state_height (layer_pending_frame l)) \<subseteq> rect_area r"
    using a(1) by (auto simp: r_def refine_region_def rects.constrain_area) (auto simp: rect_area_def)
qed

text \<open>The lines that \<open>refine_layer\<close> compares, in order.\<close>

definition layer_visits :: "'a guac_display_layer_scheme \<Rightarrow> visit list" where
  "layer_visits l = (let r = refine_region l in
    concat (map (\<lambda>(row, corner_y). concat (map (\<lambda>y_off. map (\<lambda>(column, corner_x).
        (row * layer_cells_width l + column, corner_x, corner_y + y_off, cell_extent corner_x (rect_right r)))
      (corners (nat (rect_left r sdiv GUAC_DISPLAY_CELL_SIZE)) (rect_left r) (rect_right r)))
      [0..cell_extent corner_y (rect_bottom r) - 1]))
      (corners (nat (rect_top r sdiv GUAC_DISPLAY_CELL_SIZE)) (rect_top r) (rect_bottom r))))"

lemma refine_layer_visits:
  "refine_layer l op_count = (case fold_outcome (\<lambda>(i, x, y, w).
        refine_line (layer_last_frame l) (layer_pending_frame l) i x y w) (layer_visits l)
        (layer_cells l, \<lparr>rect_left = 0, rect_top = 0, rect_right = 0, rect_bottom = 0\<rparr>, op_count) of
      Inl e \<Rightarrow> Inl e
    | Inr (cells, dirty, op_count) \<Rightarrow> Inr (l\<lparr>layer_dirty := dirty, layer_cells := cells\<rparr>, op_count))"
  unfolding refine_layer_def layer_visits_def Let_def
  by (simp add: fold_outcome_concat fold_outcome_map case_prod_unfold)

lemma corner_cells:
  assumes "64 dvd v" "0 \<le> v"
  shows "(j, x) \<in> set (corners (nat (v sdiv GUAC_DISPLAY_CELL_SIZE)) v limit) \<longleftrightarrow> x = 64 * int j \<and> v \<le> x \<and> x < limit"
proof -
  obtain k where k: "v = 64 * k" using assms(1) by auto
  with assms(2) have "0 \<le> k" by simp
  then have "nat (v sdiv GUAC_DISPLAY_CELL_SIZE) = nat k"
    using k by (simp add: GUAC_DISPLAY_CELL_SIZE_def sdiv_pos)
  then show ?thesis using k \<open>0 \<le> k\<close> by (auto simp: mem_corners)
qed

lemma mem_layer_visits:
  assumes "layer_wf l" "\<not> guac_rect_is_empty (layer_dirty l)"
  defines "r \<equiv> refine_region l"
  shows "(i, x, y, w) \<in> set (layer_visits l) \<longleftrightarrow> (\<exists>row column. i = row * layer_cells_width l + column \<and>
    x = 64 * int column \<and> rect_left r \<le> x \<and> x < rect_right r \<and> w = cell_extent x (rect_right r) \<and>
    64 * int row \<le> y \<and> rect_top r \<le> 64 * int row \<and> y < 64 * int row + cell_extent (64 * int row) (rect_bottom r))"
proof -
  note e = refine_region_edges [OF assms(1, 2), folded r_def]
  have "(i, x, y, w) \<in> set (layer_visits l) \<longleftrightarrow> (\<exists>row cy yo column.
      (row, cy) \<in> set (corners (nat (rect_top r sdiv GUAC_DISPLAY_CELL_SIZE)) (rect_top r) (rect_bottom r)) \<and>
      0 \<le> yo \<and> yo < cell_extent cy (rect_bottom r) \<and>
      (column, x) \<in> set (corners (nat (rect_left r sdiv GUAC_DISPLAY_CELL_SIZE)) (rect_left r) (rect_right r)) \<and>
      i = row * layer_cells_width l + column \<and> y = cy + yo \<and> w = cell_extent x (rect_right r))"
    unfolding layer_visits_def Let_def r_def [symmetric] by fastforce
  also have "\<dots> \<longleftrightarrow> (\<exists>row column. i = row * layer_cells_width l + column \<and>
      x = 64 * int column \<and> rect_left r \<le> x \<and> x < rect_right r \<and> w = cell_extent x (rect_right r) \<and>
      64 * int row \<le> y \<and> rect_top r \<le> 64 * int row \<and> y < 64 * int row + cell_extent (64 * int row) (rect_bottom r))"
    (is "?A \<longleftrightarrow> ?B")
  proof
    assume ?A
    then obtain row yo column where "rect_top r \<le> 64 * int row" "0 \<le> yo" "yo < cell_extent (64 * int row) (rect_bottom r)"
      "x = 64 * int column" "rect_left r \<le> x" "x < rect_right r" "i = row * layer_cells_width l + column"
      "w = cell_extent x (rect_right r)" "y = 64 * int row + yo"
      by (auto simp: corner_cells [OF e(1, 3)] corner_cells [OF e(2, 4)])
    then show ?B by (intro exI [of _ row] exI [of _ column]) simp
  next
    assume ?B
    then obtain row column where rc: "i = row * layer_cells_width l + column"
      "x = 64 * int column" "rect_left r \<le> x" "x < rect_right r" "w = cell_extent x (rect_right r)"
      "64 * int row \<le> y" "rect_top r \<le> 64 * int row" "y < 64 * int row + cell_extent (64 * int row) (rect_bottom r)" by blast
    then have "64 * int row < rect_bottom r" by (auto simp: cell_extent_def split: if_splits)
    with rc show ?A
      by (intro exI [of _ row] exI [of _ "64 * int row"] exI [of _ "y - 64 * int row"] exI [of _ column])
        (simp add: corner_cells [OF e(1, 3)] corner_cells [OF e(2, 4)])
  qed
  finally show ?thesis .
qed

lemma layer_visits_ok:
  assumes wf: "layer_wf l" "\<not> guac_rect_is_empty (layer_dirty l)"
  shows "list_all (visit_ok (cell_bounds l) (length (layer_cells l)) (layer_pending_frame l)) (layer_visits l)"
  unfolding list_all_iff
proof
  fix v
  assume "v \<in> set (layer_visits l)"
  moreover obtain i x y w where v: "v = (i, x, y, w)" by (cases v) auto
  ultimately obtain row column where rc: "i = row * layer_cells_width l + column" "x = 64 * int column"
    "rect_left (refine_region l) \<le> x" "x < rect_right (refine_region l)" "w = cell_extent x (rect_right (refine_region l))"
    "64 * int row \<le> y" "y < 64 * int row + cell_extent (64 * int row) (rect_bottom (refine_region l))"
    using mem_layer_visits [OF wf] by blast
  let ?p = "layer_pending_frame l"
  note e = refine_region_edges(3-6) [OF wf]
  have p: "0 \<le> state_width ?p" "0 \<le> state_height ?p" "state_width ?p \<le> 8192" "state_height ?p \<le> 8192"
    "layer_cells_width l = nat (GUAC_DISPLAY_CELL_DIMENSION (state_width ?p))"
    "layer_cells_height l = nat (GUAC_DISPLAY_CELL_DIMENSION (state_height ?p))"
    "length (layer_cells l) = layer_cells_width l * layer_cells_height l"
    using wf by (simp_all add: layer_wf_def buffer_ok_def)
  have w: "0 < w" "x + w \<le> state_width ?p" "w \<le> 64"
    using rc(4, 5) e(3) by (auto simp: cell_extent_def GUAC_DISPLAY_CELL_SIZE_def)
  have y: "y < state_height ?p" "y < 64 * int row + 64"
    using rc(7) e(4) by (auto simp: cell_extent_def GUAC_DISPLAY_CELL_SIZE_def split: if_splits)
  have c: "column < layer_cells_width l" "row < layer_cells_height l"
    unfolding p(5, 6) using rc p w y by (intro cell_dimension_less; simp)+
  have idx: "i mod layer_cells_width l = column" "i div layer_cells_width l = row" using rc(1) c(1) by simp_all
  have "i < length (layer_cells l)" unfolding p(7) rc(1) using c by (intro cell_index) simp_all
  then show "visit_ok (cell_bounds l) (length (layer_cells l)) (layer_pending_frame l) v"
    using rc(2, 6) w y p(1-4)
    by (simp add: visit_ok_def v cell_bounds_ok_def on_screen_def cell_bounds_def idx Let_def min_def)
qed

lemma layer_visits_distinct:
  assumes wf: "layer_wf l" "\<not> guac_rect_is_empty (layer_dirty l)"
  shows "distinct (map visit_key (layer_visits l))"
proof -
  let ?r = "refine_region l" and ?W = "layer_cells_width l"
  let ?C = "corners (nat (rect_left ?r sdiv GUAC_DISPLAY_CELL_SIZE)) (rect_left ?r) (rect_right ?r)"
  let ?R = "corners (nat (rect_top ?r sdiv GUAC_DISPLAY_CELL_SIZE)) (rect_top ?r) (rect_bottom ?r)"
  note e = refine_region_edges [OF wf]
  have m: "map visit_key (layer_visits l) = concat (map (\<lambda>(row, cy). concat (map (\<lambda>yo.
      map (\<lambda>(column, x). (row * ?W + column, cy + yo)) ?C) [0..cell_extent cy (rect_bottom ?r) - 1])) ?R)"
    by (simp add: layer_visits_def Let_def map_concat visit_key_def case_prod_unfold comp_def)
  have line: "distinct (map (\<lambda>(column, x). (row * ?W + column, v)) ?C)" for row and v :: int
  proof -
    have "distinct (map (\<lambda>c. (row * ?W + c, v)) (map fst ?C))"
      using distinct_corners by (simp only: distinct_map) (auto intro: inj_onI)
    then show ?thesis by (simp add: case_prod_unfold comp_def)
  qed
  have cell: "distinct (concat (map (\<lambda>yo. map (\<lambda>(column, x). (row * ?W + column, cy + yo)) ?C) [0..u]))" for row and cy u :: int
    by (rule distinct_concat_map) (auto simp: line)
  have far: "y \<noteq> y'" if "(row, cy) \<in> set ?R" "(row', cy') \<in> set ?R" "row \<noteq> row'"
    "cy \<le> y" "y < cy + cell_extent cy (rect_bottom ?r)" "cy' \<le> y'" "y' < cy' + cell_extent cy' (rect_bottom ?r)"
    for row row' :: nat and cy cy' y y' :: int
  proof -
    have "y < cy + 64" "y' < cy' + 64" "cy = 64 * int row" "cy' = 64 * int row'"
      using that corner_cells [OF e(2, 4)] by (auto simp: cell_extent_def GUAC_DISPLAY_CELL_SIZE_def split: if_splits)
    then show ?thesis using that(3, 4, 6) by linarith
  qed
  show ?thesis unfolding m
  proof (rule distinct_concat_map)
    show "distinct ?R" using distinct_corners by (simp add: distinct_map)
    fix p q assume pq: "p \<in> set ?R" "q \<in> set ?R" "p \<noteq> q"
    obtain row cy row' cy' where d: "p = (row, cy)" "q = (row', cy')" by (cases p, cases q) auto
    have "row \<noteq> row'" using pq d corner_cells [OF e(2, 4)] by auto
    then show "set (case p of (row, cy) \<Rightarrow> concat (map (\<lambda>yo. map (\<lambda>(column, x). (row * ?W + column, cy + yo)) ?C)
          [0..cell_extent cy (rect_bottom ?r) - 1])) \<inter>
        set (case q of (row, cy) \<Rightarrow> concat (map (\<lambda>yo. map (\<lambda>(column, x). (row * ?W + column, cy + yo)) ?C)
          [0..cell_extent cy (rect_bottom ?r) - 1])) = {}"
      using far [OF pq(1, 2) [unfolded d]] unfolding d by fastforce
  qed (auto simp: cell)
qed

text \<open>The pixels of a layer inside its reported dirty rectangle that have changed.\<close>

definition changed :: "'a guac_display_layer_scheme \<Rightarrow> (int \<times> int) set" where
  "changed l = {(x, y) \<in> rect_area (layer_dirty l) \<inter> box 0 0 (state_width (layer_pending_frame l))
      (state_height (layer_pending_frame l)). differs (layer_last_frame l) (layer_pending_frame l) x y}"

text \<open>
  What the comparison makes of a layer: the dirty rectangles of the cells contain all changed pixels,
  and \<open>k\<close> of the cells are dirty.
\<close>

definition refined :: "guac_display_layer \<Rightarrow> guac_display_layer \<Rightarrow> nat \<Rightarrow> bool" where
  "refined l l' k \<longleftrightarrow> l' = l\<lparr>layer_dirty := layer_dirty l', layer_cells := layer_cells l'\<rparr> \<and>
     length (layer_cells l') = length (layer_cells l) \<and>
     k = card {i. i < length (layer_cells l') \<and> cell_dirty_size (layer_cells l' ! i) \<noteq> 0} \<and>
     (\<forall>i < length (layer_cells l'). cell_dirty_size (layer_cells l' ! i) \<noteq> 0 \<longrightarrow>
        within (cell_dirty (layer_cells l' ! i)) (cell_bounds l i) \<and> cell_bounds_ok (cell_bounds l i) \<and>
        uint (cell_dirty_size (layer_cells l' ! i)) \<le> int (card (rect_area (cell_dirty (layer_cells l' ! i))))) \<and>
     (\<forall>p \<in> changed l. \<exists>i < length (layer_cells l'). cell_dirty_size (layer_cells l' ! i) \<noteq> 0 \<and>
        p \<in> rect_area (cell_dirty (layer_cells l' ! i)) \<and> p \<in> rect_area (layer_dirty l')) \<and>
     (guac_rect_is_empty (layer_dirty l) \<longrightarrow> layer_dirty l' = layer_dirty l \<and> k = 0) \<and>
     (0 < k \<longrightarrow> \<not> guac_rect_is_empty (layer_dirty l')) \<and>
     (guac_rect_is_empty (layer_dirty l') \<or> on_screen (layer_dirty l'))"

lemma cell_marked_size:
  assumes "cell_marked b m c"
  shows "cell_dirty_size c = 0 \<longleftrightarrow> m = {}"
proof (cases "m = {}")
  case False
  then have "m \<subseteq> rect_area (cell_dirty c)" "uint (cell_dirty_size c) = int (card m)"
    using assms by (simp_all add: cell_marked_def)
  moreover have "finite (rect_area (cell_dirty c))" by (simp add: rect_area_def box_def)
  ultimately have "uint (cell_dirty_size c) \<noteq> 0" using False by (auto dest: finite_subset)
  with False show ?thesis by auto
qed (use assms in \<open>simp add: cell_marked_def\<close>)

lemma multiple_below: "64 * a \<le> v \<Longrightarrow> 64 * a \<le> 64 * (v div 64) \<and> 64 * (v div 64) \<le> v \<and> v < 64 * (v div 64) + 64"
  for a v :: int
  by presburger

lemma visit_of_pixel:
  assumes wf: "layer_wf l" "\<not> guac_rect_is_empty (layer_dirty l)" and p: "(x, y) \<in> rect_area (refine_region l)"
  obtains i cx w where "(i, cx, y, w) \<in> set (layer_visits l)" "cx \<le> x" "x < cx + w"
proof -
  let ?r = "refine_region l"
  note e = refine_region_edges [OF wf]
  have xy: "rect_left ?r \<le> x" "x < rect_right ?r" "rect_top ?r \<le> y" "y < rect_bottom ?r"
    using p by (simp_all add: rect_area_def)
  obtain a b where ab: "rect_left ?r = 64 * a" "rect_top ?r = 64 * b" using e(1, 2) by (auto elim!: dvdE)
  have "0 \<le> x div 64" "0 \<le> y div 64" using xy e(3, 4) by simp_all
  then obtain c d where cd: "int c = x div 64" "int d = y div 64" by (metis nonneg_int_cases)
  have c: "rect_left ?r \<le> 64 * int c" "64 * int c \<le> x" "x < 64 * int c + 64"
    "rect_top ?r \<le> 64 * int d" "64 * int d \<le> y" "y < 64 * int d + 64"
    using multiple_below [of a x] multiple_below [of b y] xy(1, 3) unfolding cd ab by blast+
  have extent: "v < 64 * int k + cell_extent (64 * int k) m" if "v < 64 * int k + 64" "v < m" for v k m
    using that by (simp add: cell_extent_def GUAC_DISPLAY_CELL_SIZE_def)
  have "(d * layer_cells_width l + c, 64 * int c, y, cell_extent (64 * int c) (rect_right ?r)) \<in> set (layer_visits l)"
    unfolding mem_layer_visits [OF wf] using c(1, 2, 4, 5) xy(2) extent [OF c(6) xy(4)]
    by (intro exI [of _ d] exI [of _ c]) linarith
  then show thesis using c(2) extent [OF c(3) xy(2)] that by blast
qed

lemma refine_layer_refined:
  assumes wf: "layer_wf l" "\<not> guac_rect_is_empty (layer_dirty l)"
  shows "\<exists>l' k. refine_layer l base = Inr (l', base + k) \<and> refined l l' k"
proof -
  let ?n = "length (layer_cells l)" and ?B = "cell_bounds l"
  let ?st = "(layer_cells l, \<lparr>rect_left = 0, rect_top = 0, rect_right = 0, rect_bottom = 0\<rparr>, base)"
  have b: "buffer_ok (layer_last_frame l)" "buffer_ok (layer_pending_frame l)" using wf by (simp_all add: layer_wf_def)
  have "refine_inv ?B ?n base {} (\<lambda>i. {}) ?st"
    using wf by (simp add: refine_inv_def cell_marked_def layer_wf_def list_all_length guac_rect_is_empty_def)
  from visits_inv [OF b layer_visits_ok [OF wf] layer_visits_distinct [OF wf] _ this]
  obtain st' W M where f: "fold_outcome (\<lambda>(i, x, y, w). refine_line (layer_last_frame l) (layer_pending_frame l) i x y w)
      (layer_visits l) ?st = Inr st'" "refine_inv ?B ?n base W M st'"
    "\<forall>(i, x, y, w) \<in> set (layer_visits l). \<forall>v. x \<le> v \<and> v < x + w \<and>
       differs (layer_last_frame l) (layer_pending_frame l) v y \<longrightarrow> (v, y) \<in> M i" by auto
  obtain cells dirty count where st': "st' = (cells, dirty, count)" by (cases st') auto
  let ?l = "l\<lparr>layer_dirty := dirty, layer_cells := cells\<rparr>"
  have inv: "length cells = ?n" "\<forall>i < ?n. cell_marked (?B i) (M i) (cells ! i)" "\<forall>i. M i \<subseteq> rect_area dirty"
    "count = base + card {i. i < ?n \<and> M i \<noteq> {}}" "guac_rect_is_empty dirty \<or> on_screen dirty"
    using f(2) by (simp_all add: refine_inv_def st')
  have size: "cell_dirty_size (cells ! i) = 0 \<longleftrightarrow> M i = {}" if "i < ?n" for i
    using that inv(2) cell_marked_size by blast
  then have k: "{i. i < ?n \<and> M i \<noteq> {}} = {i. i < length cells \<and> cell_dirty_size (cells ! i) \<noteq> 0}" using inv(1) by auto
  have bounds: "cell_bounds_ok (?B i)" if "i < ?n" for i
    by (rule cell_bounds_wf [OF wf(1) that])
  have dirty: "within (cell_dirty (cells ! i)) (?B i) \<and>
      uint (cell_dirty_size (cells ! i)) \<le> int (card (rect_area (cell_dirty (cells ! i))))"
    if "i < ?n" "M i \<noteq> {}" for i
  proof -
    have m: "M i \<subseteq> rect_area (cell_dirty (cells ! i))" "within (cell_dirty (cells ! i)) (?B i)"
      "uint (cell_dirty_size (cells ! i)) = int (card (M i))"
      using inv(2) that by (auto simp: cell_marked_def)
    moreover have "card (M i) \<le> card (rect_area (cell_dirty (cells ! i)))"
      by (rule card_mono [OF _ m(1)]) (simp add: rect_area_def box_def)
    ultimately show ?thesis by simp
  qed
  have cover: "\<exists>i < ?n. M i \<noteq> {} \<and> p \<in> rect_area (cell_dirty (cells ! i)) \<and> p \<in> rect_area dirty"
    if "p \<in> changed l" for p
  proof -
    obtain x y where p: "p = (x, y)" by fastforce
    have r: "(x, y) \<in> rect_area (refine_region l)" and d: "differs (layer_last_frame l) (layer_pending_frame l) x y"
      using that refine_region_edges(7) [OF wf] by (auto simp: changed_def p)
    obtain i cx w where v: "(i, cx, y, w) \<in> set (layer_visits l)" "cx \<le> x" "x < cx + w"
      by (rule visit_of_pixel [OF wf r])
    have m: "p \<in> M i" using bspec [OF f(3) v(1)] v(2, 3) d by (simp add: p)
    have i: "i < ?n" using v(1) layer_visits_ok [OF wf] by (auto simp: list_all_iff visit_ok_def)
    then have "p \<in> rect_area (cell_dirty (cells ! i))" using m inv(2) by (auto simp: cell_marked_def split: if_splits)
    then show ?thesis using i m inv(3) by blast
  qed
  have cover': "\<exists>i < ?n. cell_dirty_size (cells ! i) \<noteq> 0 \<and> p \<in> rect_area (cell_dirty (cells ! i)) \<and> p \<in> rect_area dirty"
    if "p \<in> changed l" for p
    using cover [OF that] size by blast
  have nonempty: "\<not> guac_rect_is_empty dirty" if "0 < card {i. i < ?n \<and> M i \<noteq> {}}"
    using that inv(3) rect_empty_area [of dirty] by (auto simp: card_gt_0_iff)
  have "refine_layer l base = Inr (?l, base + card {i. i < ?n \<and> M i \<noteq> {}})"
    using f(1) inv(4) by (simp add: refine_layer_visits st')
  moreover have "refined l ?l (card {i. i < ?n \<and> M i \<noteq> {}})"
    using inv(1, 5) k dirty bounds cover' size wf(2) nonempty unfolding refined_def by auto
  ultimately show ?thesis by blast
qed

section \<open>The loop over the layers\<close>

lemma refine_layers_Cons:
  assumes "state_buffer (layer_pending_frame l) \<noteq> None"
  shows "refine_layers (l # ls) base =
    (case (if guac_rect_is_empty (layer_dirty l) then Inr (l, base) else refine_layer l base) of
        Inl e \<Rightarrow> Some (Inl e)
      | Inr (l, base) \<Rightarrow> Option.bind (refine_layers ls base) (\<lambda>r. Some (case r of
            Inl e \<Rightarrow> Inl e | Inr (ls, base) \<Rightarrow> Inr (l # ls, base))))"
proof -
  from assms obtain rows where "state_buffer (layer_pending_frame l) = Some rows" by blast
  then show ?thesis by (subst refine_layers.simps) simp
qed

lemma empty_layer_refined:
  assumes "layer_wf l" "guac_rect_is_empty (layer_dirty l)"
  shows "refined l l 0"
  using assms by (auto simp: refined_def layer_wf_def list_all_length changed_def rect_empty_area)

lemma refine_layers_refined:
  "list_all layer_wf ls \<Longrightarrow> \<exists>ls' ks. refine_layers ls base = Some (Inr (ls', base + sum_list ks)) \<and>
     length ls' = length ls \<and> length ks = length ls \<and> (\<forall>j < length ls. refined (ls ! j) (ls' ! j) (ks ! j))"
proof (induction ls arbitrary: base)
  case Nil
  then show ?case by (subst refine_layers.simps) simp
next
  case (Cons l ls)
  then have wf: "layer_wf l" and buffer: "state_buffer (layer_pending_frame l) \<noteq> None" by (simp_all add: layer_wf_def)
  have "\<exists>l' k. (if guac_rect_is_empty (layer_dirty l) then Inr (l, base) else refine_layer l base) = Inr (l', base + k) \<and> refined l l' k"
    using refine_layer_refined [OF wf, of base] empty_layer_refined [OF wf]
    by (cases "guac_rect_is_empty (layer_dirty l)") (auto intro!: exI [of _ l] exI [of _ 0])
  then obtain l' k where l': "(if guac_rect_is_empty (layer_dirty l) then Inr (l, base) else refine_layer l base) = Inr (l', base + k)"
    "refined l l' k" by blast
  from Cons obtain ls' ks where ls': "refine_layers ls (base + k) = Some (Inr (ls', base + k + sum_list ks))"
    "length ls' = length ls" "length ks = length ls" "\<forall>j < length ls. refined (ls ! j) (ls' ! j) (ks ! j)"
    by (metis list.pred_inject(2))
  have "refine_layers (l # ls) base = Some (Inr (l' # ls', base + sum_list (k # ks)))"
    using refine_layers_Cons [OF buffer] l'(1) ls'(1) by (simp add: add.assoc)
  with l'(2) ls' show ?case
    by (intro exI [of _ "l' # ls'"] exI [of _ "k # ks"]) (auto simp: nth_Cons split: nat.splits)
qed

section \<open>Collecting the operations: specification\<close>

lemma collect_cells_spec:
  "length ops + length (filter (\<lambda>c. cell_dirty_size c \<noteq> 0) cells) \<le> op_count \<Longrightarrow>
    \<exists>cells'. collect_cells layer frame_end op_count cells ops =
      Inr (cells', ops @ map (cell_operation layer frame_end) (filter (\<lambda>c. cell_dirty_size c \<noteq> 0) cells)) \<and>
      length cells' = length cells \<and>
      (\<forall>c \<in> set cells'. \<forall>i. cell_related_op c = Some i \<longrightarrow>
        i < length ops + length (filter (\<lambda>c. cell_dirty_size c \<noteq> 0) cells)) \<and>
      list_all (\<lambda>c. cell_dirty_size c = 0) cells'"
proof (induction cells arbitrary: ops)
  case (Cons c cells)
  show ?case
  proof (cases "cell_dirty_size c = 0")
    case True
    with Cons.IH [of ops] Cons.prems show ?thesis by fastforce
  next
    case False
    with Cons.IH [of "ops @ [cell_operation layer frame_end c]"] Cons.prems obtain cells' where
      "collect_cells layer frame_end op_count cells (ops @ [cell_operation layer frame_end c]) =
        Inr (cells', (ops @ [cell_operation layer frame_end c]) @
          map (cell_operation layer frame_end) (filter (\<lambda>c. cell_dirty_size c \<noteq> 0) cells))"
      "length cells' = length cells" "list_all (\<lambda>c. cell_dirty_size c = 0) cells'"
      "\<forall>c \<in> set cells'. \<forall>i. cell_related_op c = Some i \<longrightarrow>
        i < length ops + 1 + length (filter (\<lambda>c. cell_dirty_size c \<noteq> 0) cells)" by auto
    with False Cons.prems show ?thesis by auto
  qed
qed simp

definition layer_ops :: "int \<Rightarrow> guac_display_layer \<Rightarrow> guac_display_plan_operation list" where
  "layer_ops frame_end l = map (cell_operation (layer_number l) frame_end)
     (filter (\<lambda>c. cell_dirty_size c \<noteq> 0) (layer_cells l))"

lemma collect_layers_spec:
  "length ops + length (concat (map (layer_ops frame_end) ls)) \<le> op_count \<Longrightarrow>
    \<exists>ls'. collect_layers frame_end op_count ls ops = Inr (ls', ops @ concat (map (layer_ops frame_end) ls)) \<and>
      length ls' = length ls \<and>
      (\<forall>j < length ls. \<exists>cells. ls' ! j = (ls ! j)\<lparr>layer_cells := cells\<rparr> \<and> length cells = length (layer_cells (ls ! j)) \<and>
        list_all (\<lambda>c. cell_dirty_size c = 0) cells \<and>
        (\<forall>c \<in> set cells. \<forall>i. cell_related_op c = Some i \<longrightarrow> i < length ops + length (concat (map (layer_ops frame_end) ls))))"
proof (induction ls arbitrary: ops)
  case (Cons l ls)
  have "length ops + length (filter (\<lambda>c. cell_dirty_size c \<noteq> 0) (layer_cells l)) \<le> op_count"
    using Cons.prems by (simp add: layer_ops_def)
  then obtain cells where c: "collect_cells (layer_number l) frame_end op_count (layer_cells l) ops =
      Inr (cells, ops @ layer_ops frame_end l)" "length cells = length (layer_cells l)"
    "list_all (\<lambda>c. cell_dirty_size c = 0) cells"
    "\<forall>c \<in> set cells. \<forall>i. cell_related_op c = Some i \<longrightarrow> i < length ops + length (layer_ops frame_end l)"
    using collect_cells_spec [of ops "layer_cells l" op_count "layer_number l" frame_end] by (auto simp: layer_ops_def)
  from Cons.IH [of "ops @ layer_ops frame_end l"] Cons.prems obtain ls' where r:
    "collect_layers frame_end op_count ls (ops @ layer_ops frame_end l) =
      Inr (ls', (ops @ layer_ops frame_end l) @ concat (map (layer_ops frame_end) ls))" "length ls' = length ls"
    "\<forall>j < length ls. \<exists>cells. ls' ! j = (ls ! j)\<lparr>layer_cells := cells\<rparr> \<and> length cells = length (layer_cells (ls ! j)) \<and>
        list_all (\<lambda>c. cell_dirty_size c = 0) cells \<and>
        (\<forall>c \<in> set cells. \<forall>i. cell_related_op c = Some i \<longrightarrow>
          i < length (ops @ layer_ops frame_end l) + length (concat (map (layer_ops frame_end) ls)))"
    by auto
  have "collect_layers frame_end op_count (l # ls) ops =
      Inr (l\<lparr>layer_cells := cells\<rparr> # ls', ops @ concat (map (layer_ops frame_end) (l # ls)))"
    using c(1) r(1) by simp
  moreover have "\<exists>cells'. (l\<lparr>layer_cells := cells\<rparr> # ls') ! j = ((l # ls) ! j)\<lparr>layer_cells := cells'\<rparr> \<and>
        length cells' = length (layer_cells ((l # ls) ! j)) \<and> list_all (\<lambda>c. cell_dirty_size c = 0) cells' \<and>
        (\<forall>c \<in> set cells'. \<forall>i. cell_related_op c = Some i \<longrightarrow>
          i < length ops + length (concat (map (layer_ops frame_end) (l # ls))))" if "j < length (l # ls)" for j
  proof (cases j)
    case 0
    then show ?thesis using c(2-4) by (fastforce intro!: exI [of _ cells])
  next
    case (Suc j')
    then show ?thesis using r(3) that by (auto simp: add.assoc)
  qed
  ultimately show ?case using r(2) by (intro exI [of _ "l\<lparr>layer_cells := cells\<rparr> # ls'"]) simp
qed simp

section \<open>The plan\<close>

lemma refined_fields:
  assumes "refined l l' k"
  shows "layer_number l' = layer_number l" "layer_cells_width l' = layer_cells_width l"
    "layer_cells_height l' = layer_cells_height l"
proof -
  have "l' = l\<lparr>layer_dirty := layer_dirty l', layer_cells := layer_cells l'\<rparr>"
    using assms unfolding refined_def by blast
  from arg_cong [OF this, of layer_number] arg_cong [OF this, of layer_cells_width] arg_cong [OF this, of layer_cells_height]
  show "layer_number l' = layer_number l" "layer_cells_width l' = layer_cells_width l"
    "layer_cells_height l' = layer_cells_height l" by simp_all
qed

lemma dirty_cells_count: "refined l l' k \<Longrightarrow> length (layer_ops frame_end l') = k"
  by (simp add: refined_def layer_ops_def length_filter_conv_card)

lemma layer_ops_wf:
  assumes "refined l l' k"
  shows "\<forall>oper \<in> set (layer_ops frame_end l'). op_wf oper \<and> op_type oper = GUAC_DISPLAY_PLAN_OPERATION_IMG"
proof
  fix oper
  assume "oper \<in> set (layer_ops frame_end l')"
  then obtain i where "i < length (layer_cells l')" "cell_dirty_size (layer_cells l' ! i) \<noteq> 0"
    "oper = cell_operation (layer_number l') frame_end (layer_cells l' ! i)"
    by (auto simp: layer_ops_def in_set_conv_nth)
  moreover from this assms have "within (cell_dirty (layer_cells l' ! i)) (cell_bounds l i)" "cell_bounds_ok (cell_bounds l i)"
    by (auto simp: refined_def)
  ultimately show "op_wf oper \<and> op_type oper = GUAC_DISPLAY_PLAN_OPERATION_IMG"
    using within_on_screen by (auto simp: cell_operation_def op_wf_def)
qed

lemma layer_ops_drawn:
  assumes "refined l l' k" "set (layer_ops frame_end l') \<subseteq> set ops"
  shows "changed l \<subseteq> drawn ops (layer_number l)"
proof
  fix p
  assume "p \<in> changed l"
  then obtain i where i: "i < length (layer_cells l')" "cell_dirty_size (layer_cells l' ! i) \<noteq> 0"
    "p \<in> rect_area (cell_dirty (layer_cells l' ! i))"
    using assms(1) by (auto simp: refined_def)
  let ?op = "cell_operation (layer_number l') frame_end (layer_cells l' ! i)"
  have "?op \<in> set ops" using i assms(2) by (auto simp: layer_ops_def)
  then obtain j where "j < length ops" "ops ! j = ?op" by (auto simp: in_set_conv_nth)
  then show "p \<in> drawn ops (layer_number l)"
    using i(3) refined_fields(1) [OF assms(1)] by (auto simp: drawn_def live_def cell_operation_def intro!: exI [of _ j])
qed

text \<open>
  Every operation of a new plan lies in one cell of its layer, and no two in the same cell.
\<close>

definition op_placed :: "guac_display_layer \<Rightarrow> guac_display_plan_operation \<Rightarrow> bool" where
  "op_placed l oper \<longleftrightarrow> op_layer oper = layer_number l \<and> \<not> guac_rect_is_empty (layer_dirty l) \<and>
     (\<exists>i < length (layer_cells l). within (op_dest oper) (cell_bounds l i)) \<and>
     uint (op_dirty_size oper) \<le> int (card (rect_area (op_dest oper)))"

definition op_key :: "guac_display_plan_operation \<Rightarrow> nat \<times> int \<times> int" where
  "op_key oper = (op_layer oper, rect_left (op_dest oper) div 64, rect_top (op_dest oper) div 64)"

lemma within_cell_key:
  assumes "within r (cell_bounds l i)"
  shows "rect_left r div 64 = int (i mod layer_cells_width l)" "rect_top r div 64 = int (i div layer_cells_width l)"
proof -
  have div64: "v div 64 = int k" if "64 * int k \<le> v" "v < 64 * int k + 64" for v k
    using that by presburger
  show "rect_left r div 64 = int (i mod layer_cells_width l)" "rect_top r div 64 = int (i div layer_cells_width l)"
    using assms by (auto simp: within_def cell_bounds_def Let_def intro!: div64)
qed

lemma layer_ops_placed:
  assumes "refined l l' k" "oper \<in> set (layer_ops frame_end l')"
  shows "op_placed l oper"
proof -
  from assms(2) obtain i where "i < length (layer_cells l')" "cell_dirty_size (layer_cells l' ! i) \<noteq> 0"
    "oper = cell_operation (layer_number l') frame_end (layer_cells l' ! i)"
    by (auto simp: layer_ops_def in_set_conv_nth)
  moreover from this have "0 < card {i. i < length (layer_cells l') \<and> cell_dirty_size (layer_cells l' ! i) \<noteq> 0}"
    by (subst card_gt_0_iff) auto
  ultimately show ?thesis using assms(1) refined_fields(1) [OF assms(1)]
    unfolding op_placed_def refined_def by (auto simp: cell_operation_def)
qed

text \<open>What making a plan keeps of a layer, and what it leaves for the other passes.\<close>

definition plan_kept :: "guac_display_layer \<Rightarrow> guac_display_layer \<Rightarrow> bool" where
  "plan_kept l l' \<longleftrightarrow> l' = l\<lparr>layer_dirty := layer_dirty l', layer_cells := layer_cells l'\<rparr> \<and>
     length (layer_cells l') = length (layer_cells l) \<and> list_all (\<lambda>c. cell_dirty_size c = 0) (layer_cells l') \<and>
     changed l \<subseteq> rect_area (layer_dirty l') \<and> (guac_rect_is_empty (layer_dirty l') \<or> on_screen (layer_dirty l')) \<and>
     (guac_rect_is_empty (layer_dirty l) \<longrightarrow> layer_dirty l' = layer_dirty l)"

lemma refined_kept:
  assumes "refined l l' k" "length cells = length (layer_cells l')" "list_all (\<lambda>c. cell_dirty_size c = 0) cells"
  shows "plan_kept l (l'\<lparr>layer_cells := cells\<rparr>)"
proof -
  have l': "l' = l\<lparr>layer_dirty := layer_dirty l', layer_cells := layer_cells l'\<rparr>" "length (layer_cells l') = length (layer_cells l)"
    "changed l \<subseteq> rect_area (layer_dirty l')" "guac_rect_is_empty (layer_dirty l) \<longrightarrow> layer_dirty l' = layer_dirty l"
    "guac_rect_is_empty (layer_dirty l') \<or> on_screen (layer_dirty l')"
    using assms(1) unfolding refined_def by blast+
  have "l'\<lparr>layer_cells := cells\<rparr> = l\<lparr>layer_dirty := layer_dirty l', layer_cells := cells\<rparr>" by (subst l'(1)) simp
  with l' assms(2, 3) show ?thesis by (simp add: plan_kept_def)
qed

lemma layer_ops_keys:
  assumes "refined l l' k"
  shows "distinct (map op_key (layer_ops frame_end l'))"
proof -
  let ?c = "layer_cells l'" and ?W = "layer_cells_width l"
  let ?is = "filter (\<lambda>i. cell_dirty_size (?c ! i) \<noteq> 0) [0..<length ?c]"
  have "filter (\<lambda>c. cell_dirty_size c \<noteq> 0) ?c = map ((!) ?c) ?is"
    using filter_map [of "\<lambda>c. cell_dirty_size c \<noteq> 0" "(!) ?c" "[0..<length ?c]"] by (simp add: map_nth comp_def)
  then have "map op_key (layer_ops frame_end l') = map (\<lambda>i. (layer_number l', int (i mod ?W), int (i div ?W))) ?is"
    using assms by (auto simp: layer_ops_def op_key_def cell_operation_def refined_def within_cell_key)
  moreover have "inj_on (\<lambda>i. (layer_number l', int (i mod ?W), int (i div ?W))) (set ?is)"
    by (rule inj_onI) (metis div_mult_mod_eq of_nat_eq_iff prod.inject)
  ultimately show ?thesis by (simp add: distinct_map)
qed

lemma plan_ops_keys:
  assumes "length ls' = length layers" "\<forall>j < length layers. refined (layers ! j) (ls' ! j) (ks ! j)"
    "distinct (map layer_number layers)"
  shows "distinct (map op_key (concat (map (layer_ops frame_end) ls')))"
proof -
  have number: "map layer_number ls' = map layer_number layers"
    using assms(1, 2) refined_fields(1) by (intro nth_equalityI) auto
  have refd: "\<exists>l k. refined l l' k" if "l' \<in> set ls'" for l'
    using that assms(1, 2) by (metis in_set_conv_nth)
  have "distinct (concat (map (\<lambda>l'. map op_key (layer_ops frame_end l')) ls'))"
  proof (rule distinct_concat_map)
    show "distinct ls'" using assms(3) number by (metis distinct_map)
    show "distinct (map op_key (layer_ops frame_end l'))" if "l' \<in> set ls'" for l'
      using refd [OF that] layer_ops_keys by blast
    show "set (map op_key (layer_ops frame_end x)) \<inter> set (map op_key (layer_ops frame_end y)) = {}"
      if "x \<in> set ls'" "y \<in> set ls'" "x \<noteq> y" for x y
    proof -
      have "layer_number x \<noteq> layer_number y" using that assms(3) number by (metis distinct_map inj_onD)
      then show ?thesis by (auto simp: op_key_def layer_ops_def cell_operation_def)
    qed
  qed
  then show ?thesis by (simp add: map_concat comp_def)
qed

lemma plan_of_images:
  assumes "\<forall>oper \<in> set ops. op_wf oper \<and> op_type oper = GUAC_DISPLAY_PLAN_OPERATION_IMG"
  shows "plan_sound P L ops"
  using assms by (simp add: plan_sound_def list_all_iff op_correct_def copies_apart_def)

lemma display_plan_create_spec:
  assumes wf: "list_all layer_wf layers"
  shows "\<exists>layers' plan. PFW_LFR_guac_display_plan_create frame_end layers = Some (Inr (layers', plan)) \<and>
    list_all2 plan_kept layers layers' \<and> (case plan of
      None \<Rightarrow> \<forall>l \<in> set layers. changed l = {}
    | Some ops \<Rightarrow> (\<forall>l \<in> set layers. changed l \<subseteq> drawn ops (layer_number l)) \<and>
        (\<forall>oper \<in> set ops. op_wf oper \<and> op_type oper = GUAC_DISPLAY_PLAN_OPERATION_IMG) \<and>
        list_all (layer_ok ops) layers' \<and> (\<exists>l \<in> set layers'. \<not> guac_rect_is_empty (layer_dirty l)) \<and>
        (\<forall>oper \<in> set ops. \<exists>l \<in> set layers. op_placed l oper) \<and>
        (distinct (map layer_number layers) \<longrightarrow> distinct (map op_key ops)))"
proof -
  from refine_layers_refined [OF wf, of 0] obtain ls' ks where r:
    "refine_layers layers 0 = Some (Inr (ls', sum_list ks))" "length ls' = length layers" "length ks = length layers"
    "\<forall>j < length layers. refined (layers ! j) (ls' ! j) (ks ! j)" by auto
  let ?ops = "concat (map (layer_ops frame_end) ls')"
  have "map (\<lambda>l. length (layer_ops frame_end l)) ls' = ks"
    using r(2-4) by (intro nth_equalityI) (auto simp: dirty_cells_count)
  then have count: "length ?ops = sum_list ks" by (simp add: length_concat comp_def)
  have ops: "\<exists>j < length layers. oper \<in> set (layer_ops frame_end (ls' ! j))" if "oper \<in> set ?ops" for oper
  proof -
    from that obtain l where "l \<in> set ls'" "oper \<in> set (layer_ops frame_end l)" by auto
    then show ?thesis using r(2) by (metis in_set_conv_nth)
  qed
  show ?thesis
  proof (cases "sum_list ks = 0")
    case True
    have none: "changed (layers ! j) = {} \<and> plan_kept (layers ! j) (ls' ! j)" if "j < length layers" for j
    proof -
      have "ks ! j = 0" using True that r(3) by simp
      then have none: "layer_ops frame_end (ls' ! j) = []" using dirty_cells_count r(4) that by (metis length_0_conv)
      then have "list_all (\<lambda>c. cell_dirty_size c = 0) (layer_cells (ls' ! j))"
        by (simp add: layer_ops_def filter_empty_conv list_all_iff)
      with refined_kept [OF r(4) [rule_format, OF that] refl] layer_ops_drawn [OF r(4) [rule_format, OF that], of frame_end "[]"] none
      show ?thesis by (simp add: drawn_def live_def)
    qed
    then have "list_all2 plan_kept layers ls'" using r(2) by (simp add: list_all2_conv_all_nth)
    then show ?thesis using r(1) True none
      by (auto simp: PFW_LFR_guac_display_plan_create_def all_set_conv_all_nth)
  next
    case False
    from collect_layers_spec [of "[]" frame_end ls' "sum_list ks"] count obtain ls2 where c:
      "collect_layers frame_end (sum_list ks) ls' [] = Inr (ls2, ?ops)" "length ls2 = length ls'"
      "\<forall>j < length ls'. \<exists>cells. ls2 ! j = (ls' ! j)\<lparr>layer_cells := cells\<rparr> \<and> length cells = length (layer_cells (ls' ! j)) \<and>
        list_all (\<lambda>c. cell_dirty_size c = 0) cells \<and> (\<forall>c \<in> set cells. \<forall>i. cell_related_op c = Some i \<longrightarrow> i < length ?ops)"
      by auto
    have "PFW_LFR_guac_display_plan_create frame_end layers = Some (Inr (ls2, Some ?ops))"
      using r(1) False c(1) count by (simp add: PFW_LFR_guac_display_plan_create_def)
    moreover have "changed (layers ! j) \<subseteq> drawn ?ops (layer_number (layers ! j))" if "j < length layers" for j
      using that r(2) by (intro layer_ops_drawn [OF r(4) [rule_format, OF that], where frame_end = frame_end]) (auto intro!: bexI [of _ "ls' ! j"])
    moreover have "\<forall>oper \<in> set ?ops. op_wf oper \<and> op_type oper = GUAC_DISPLAY_PLAN_OPERATION_IMG"
      using ops layer_ops_wf r(4) by blast
    moreover have "layer_ok ?ops (ls2 ! j)" if "j < length layers" for j
    proof -
      have "length (layer_cells (layers ! j)) = layer_cells_width (layers ! j) * layer_cells_height (layers ! j)"
        using wf that by (simp add: list_all_length layer_wf_def)
      moreover have "length (layer_cells (ls' ! j)) = length (layer_cells (layers ! j))"
        using r(4) that unfolding refined_def by blast
      ultimately show ?thesis
        using c(3) that r(2) refined_fields(2, 3) [OF r(4) [rule_format, OF that]]
        by (auto simp: layer_ok_def cells_ok_def)
    qed
    moreover have "\<forall>oper \<in> set ?ops. \<exists>l \<in> set layers. op_placed l oper"
      using ops layer_ops_placed r(4) by (meson nth_mem)
    moreover have "distinct (map op_key ?ops)" if d: "distinct (map layer_number layers)"
      by (rule plan_ops_keys [OF r(2, 4) d])
    moreover have "\<exists>l \<in> set ls2. \<not> guac_rect_is_empty (layer_dirty l)"
    proof -
      obtain j where j: "j < length ks" "0 < ks ! j" using False by (auto simp: in_set_conv_nth)
      then have "\<not> guac_rect_is_empty (layer_dirty (ls' ! j))" using r(3, 4) unfolding refined_def by auto
      moreover obtain cells where "ls2 ! j = (ls' ! j)\<lparr>layer_cells := cells\<rparr>" using c(3) j r(2, 3) by auto
      ultimately have "\<not> guac_rect_is_empty (layer_dirty (ls2 ! j))" by simp
      moreover have "ls2 ! j \<in> set ls2" using j r(2, 3) c(2) by (intro nth_mem) simp
      ultimately show ?thesis by blast
    qed
    moreover have "list_all2 plan_kept layers ls2"
      unfolding list_all2_conv_all_nth
    proof (intro conjI allI impI)
      show "length layers = length ls2" using r(2) c(2) by simp
      show "plan_kept (layers ! j) (ls2 ! j)" if "j < length layers" for j
        using that c(3) r(2) refined_kept [OF r(4) [rule_format, OF that]] by auto
    qed
    ultimately show ?thesis
      using r(2) c(2) by (auto simp: all_set_conv_all_nth list_all_length)
  qed
qed

section \<open>Properties\<close>

text \<open>
  \<open>guac_display_memcmp\<close> returns no difference exactly when the lines agree, and otherwise the
  smallest run of pixels that contains all differences.
\<close>

theorem guac_display_memcmp_exact:
  assumes "count \<le> length as" "count \<le> length bs"
  shows "case guac_display_memcmp as bs count of
      None \<Rightarrow> \<forall>i < count. as ! i = bs ! i
    | Some (pos, len) \<Rightarrow> 0 < len \<and> pos + len \<le> count \<and> as ! pos \<noteq> bs ! pos \<and>
        as ! (pos + len - 1) \<noteq> bs ! (pos + len - 1) \<and>
        (\<forall>i < count. as ! i \<noteq> bs ! i \<longrightarrow> pos \<le> i \<and> i < pos + len)"
  by (rule display_memcmp_spec [OF assms])

theorem guac_display_memcmp_witness:
  "case guac_display_memcmp [1, 2, 3, 4, 5] [1, 0, 3, 0, 5] 5 of
     None \<Rightarrow> False | Some (pos, len) \<Rightarrow> pos = 1 \<and> len = 3 \<and> pos + len \<le> 5"
proof -
  have "guac_display_memcmp [1, 2, 3, 4, 5] [1, 0, 3, 0, 5] 5 = Some (1, 3)" by code_simp
  with guac_display_memcmp_exact [of 5 "[1, 2, 3, 4, 5]" "[1, 0, 3, 0, 5]"] show ?thesis by simp
qed


text \<open>
  C23: making a plan. With buffers present the function returns; it returns no plan only when nothing
  has changed, and otherwise a plan of image operations that draw every changed pixel of every
  layer. Each operation lies in one cell of a layer reported as modified, and no two in the same cell. Of the
  layers, only the modified rectangles and the cells are changed. The operations
  predicted by the comparison are exactly those collected afterwards: no assertion fails.
\<close>

theorem guac_display_plan_create_covers:
  assumes "list_all layer_wf layers"
  shows "\<exists>layers' plan. PFW_LFR_guac_display_plan_create frame_end layers = Some (Inr (layers', plan)) \<and>
    list_all2 plan_kept layers layers' \<and> (case plan of
      None \<Rightarrow> \<forall>l \<in> set layers. changed l = {}
    | Some ops \<Rightarrow> (\<forall>l \<in> set layers. changed l \<subseteq> drawn ops (layer_number l)) \<and>
        (\<forall>oper \<in> set ops. op_wf oper \<and> op_type oper = GUAC_DISPLAY_PLAN_OPERATION_IMG) \<and>
        list_all (layer_ok ops) layers' \<and> (\<exists>l \<in> set layers'. \<not> guac_rect_is_empty (layer_dirty l)) \<and>
        (\<forall>oper \<in> set ops. \<exists>l \<in> set layers. op_placed l oper) \<and>
        (distinct (map layer_number layers) \<longrightarrow> distinct (map op_key ops)))"
  by (rule display_plan_create_spec [OF assms])

text \<open>A layer of two pixels in one cell, of which the second has changed.\<close>

definition example_state :: "pixel list \<Rightarrow> guac_display_layer_state" where
  "example_state row = \<lparr>state_width = int (length row), state_height = 1,
     state_parent = 0, state_x = 0, state_y = 0, state_z = 0, state_opacity = 255, state_touches = 0, state_lossless = False,
     state_buffer = Some [row], state_buffer_width = int (length row), state_buffer_height = 1,
     state_buffer_stride = 4 * int (length row), state_buffer_is_external = False, state_search_for_copies = False\<rparr>"

definition example_layer :: guac_display_layer where
  "example_layer = \<lparr>layer_dirty = guac_rect_init 0 0 2 1,
     layer_cells = [\<lparr>cell_last_frame = 0, cell_dirty = guac_rect_init 0 0 0 0, cell_dirty_size = 0, cell_related_op = None\<rparr>],
     layer_cells_width = 1, layer_cells_height = 1, layer_number = 3, layer_layer = 1, layer_opaque = True,
     layer_last_frame = example_state [5, 6], layer_last_frame_buffer = 4,
     layer_last_dirty = guac_rect_init 0 0 0 0, layer_pending_frame = example_state [5, 7]\<rparr>"

lemma example_layer_wf: "layer_wf example_layer"
  by (simp add: layer_wf_def example_layer_def example_state_def buffer_ok_def rows_of_def GUAC_DISPLAY_CELL_DIMENSION_def
      GUAC_DISPLAY_CELL_SIZE_def sdiv_pos rect_ok_def guac_rect_init_def coord_def)

theorem guac_display_plan_create_witness:
  "\<exists>layers' ops. PFW_LFR_guac_display_plan_create 9 [example_layer] = Some (Inr (layers', Some ops)) \<and>
     (1, 0) \<in> drawn ops 3"
proof -
  have c: "(1, 0) \<in> changed example_layer"
    by (simp add: changed_def example_layer_def example_state_def differs_def rows_of_def guac_rect_init_def rect_area_def)
  have n: "layer_number example_layer = 3" by (simp add: example_layer_def)
  from guac_display_plan_create_covers [of "[example_layer]" 9] example_layer_wf
  obtain layers' plan where "PFW_LFR_guac_display_plan_create 9 [example_layer] = Some (Inr (layers', plan))"
    "case plan of None \<Rightarrow> changed example_layer = {} | Some ops \<Rightarrow> changed example_layer \<subseteq> drawn ops 3"
    by (fastforce simp: n split: option.splits)
  with c show ?thesis by (auto split: option.splits)
qed

text \<open>
  C36: a layer whose buffer has been replaced by a null pointer, as the interface allows for external
  buffers, makes the search for changes run forever.
\<close>

theorem guac_display_plan_create_diverges:
  assumes "state_buffer (layer_pending_frame l) = None" "state_buffer_is_external (layer_pending_frame l)"
  shows "PFW_LFR_guac_display_plan_create frame_end (l # layers) = None"
proof -
  have "refine_layers (l # layers) 0 \<noteq> Some r" for r
  proof
    assume "refine_layers (l # layers) 0 = Some r"
    have "l # layers \<noteq> l # layers \<or> 0 \<noteq> (0 :: nat)"
      by (rule refine_layers.raw_induct [where P = "\<lambda>ls n r. ls \<noteq> l # layers \<or> n \<noteq> 0", OF _ \<open>refine_layers (l # layers) 0 = Some r\<close>])
        (auto simp: assms split: list.splits if_splits)
    then show False by simp
  qed
  then have "refine_layers (l # layers) 0 = None" by (cases "refine_layers (l # layers) 0") auto
  then show ?thesis by (simp add: PFW_LFR_guac_display_plan_create_def)
qed

theorem guac_display_plan_create_diverges_witness:
  "PFW_LFR_guac_display_plan_create 9 [example_layer\<lparr>layer_pending_frame :=
     (example_state [])\<lparr>state_buffer := None, state_buffer_is_external := True\<rparr>\<rparr>] = None"
  by (rule guac_display_plan_create_diverges) simp_all

end
