(* ===== verification/DisplayRects.thy ===== *)
theory DisplayRects
  imports DisplayCreate
begin

text \<open>
  Replacing images of a single colour by filled rectangles (\<open>libguac/display-plan-rect.c\<close>). The fast
  test for a single colour works on bytes and compares halves of the buffer; it is shown to
  be equivalent to the plain statement that all pixels are equal.
\<close>

section \<open>Powers of two\<close>

text \<open>\<open>while (value >>= 1) rounded <<= 1;\<close>\<close>

fun round_pot_loop :: "nat \<Rightarrow> nat \<Rightarrow> nat" where
  "round_pot_loop v rounded = (let v = v div 2 in if v = 0 then rounded else round_pot_loop v (2 * rounded))"

declare round_pot_loop.simps [simp del]

definition guac_display_plan_round_pot :: "nat \<Rightarrow> nat" where
  "guac_display_plan_round_pot v = (if v \<le> 2 then v else round_pot_loop v 1)"

lemma round_pot_loop_power:
  "0 < v \<Longrightarrow> \<exists>k. round_pot_loop v r = 2 ^ k * r \<and> 2 ^ k \<le> v \<and> v < 2 ^ Suc k"
proof (induction v r rule: round_pot_loop.induct)
  case (1 v r)
  show ?case
  proof (cases "v div 2 = 0")
    case True
    then have "v = 1" using "1.prems" by auto
    then show ?thesis by (subst round_pot_loop.simps) (auto intro!: exI [of _ 0])
  next
    case False
    from "1.IH" [OF refl False] False obtain k where k: "round_pot_loop (v div 2) (2 * r) = 2 ^ k * (2 * r)"
      "2 ^ k \<le> v div 2" "v div 2 < 2 ^ Suc k" by auto
    have "2 ^ Suc k \<le> v" "v < 2 ^ Suc (Suc k)" using k(2, 3) by auto
    then show ?thesis using False k(1) by (subst round_pot_loop.simps) (auto simp: Let_def intro!: exI [of _ "Suc k"])
  qed
qed

lemma round_pot_spec:
  assumes "0 < v"
  shows "0 < guac_display_plan_round_pot v" "guac_display_plan_round_pot v \<le> v"
    "3 < v \<Longrightarrow> 4 dvd guac_display_plan_round_pot v"
proof -
  from round_pot_loop_power [OF assms, of 1] obtain k where k: "round_pot_loop v 1 = 2 ^ k" "2 ^ k \<le> v" "v < 2 ^ Suc k" by auto
  then show "0 < guac_display_plan_round_pot v" "guac_display_plan_round_pot v \<le> v"
    using assms by (simp_all add: guac_display_plan_round_pot_def)
  assume v: "3 < v"
  have "2 \<le> k"
  proof (rule ccontr)
    assume "\<not> 2 \<le> k"
    then have "(2 :: nat) ^ Suc k \<le> 2 ^ 2" by (intro power_increasing) simp_all
    with k(3) v show False by simp
  qed
  then have "(2 :: nat) ^ 2 dvd 2 ^ k" by (rule le_imp_power_dvd)
  then show "4 dvd guac_display_plan_round_pot v" using v k(1) by (simp add: guac_display_plan_round_pot_def)
qed

lemma round_pot_less:
  assumes "len \<noteq> 0" "\<not> len mod 4 \<noteq> 0"
  shows "0 < guac_display_plan_round_pot (len - 1) \<and> guac_display_plan_round_pot (len - 1) < len"
proof -
  have "4 \<le> len" using assms by (metis dvd_imp_le gr0I mod_0_imp_dvd)
  then have "0 < len - 1" by simp
  from round_pot_spec(1, 2) [OF this] this show ?thesis by linarith
qed

section \<open>Single colours\<close>

text \<open>A pixel in memory, least significant byte first, and the pixel read at the start of a buffer.\<close>

type_synonym byte = "8 word"

definition pixel_bytes :: "pixel \<Rightarrow> byte list" where
  "pixel_bytes p = [ucast p, ucast (drop_bit 8 p), ucast (drop_bit 16 p), ucast (drop_bit 24 p)]"

definition pixel_at :: "byte list \<Rightarrow> pixel" where
  "pixel_at bs = ucast (bs ! 0) OR push_bit 8 (ucast (bs ! 1)) OR push_bit 16 (ucast (bs ! 2)) OR push_bit 24 (ucast (bs ! 3))"

text \<open>\<open>Some color\<close> is a non-zero return value with the colour stored.\<close>

function guac_display_plan_is_single_color :: "byte list \<Rightarrow> nat \<Rightarrow> pixel option" where
  "guac_display_plan_is_single_color buffer len = (
    if len = 0 then Some 0
    else if len = 4 then Some (pixel_at buffer)
    else if len = 8 \<and> pixel_at buffer = pixel_at (drop 4 buffer) then Some (pixel_at buffer)
    else if len mod 4 \<noteq> 0 then None
    else
      let pot_length = guac_display_plan_round_pot (len - 1);
          remaining_length = len - pot_length
      in if pot_length = remaining_length then
          (if take pot_length buffer = take pot_length (drop pot_length buffer)
           then guac_display_plan_is_single_color buffer pot_length else None)
        else (case guac_display_plan_is_single_color buffer pot_length of
            None \<Rightarrow> None
          | Some color_a \<Rightarrow>
              (case guac_display_plan_is_single_color (drop pot_length buffer) remaining_length of
                None \<Rightarrow> None
              | Some color_b \<Rightarrow> if color_a = color_b then Some color_a else None)))"
  by pat_completeness auto
termination
proof (relation "measure snd", goal_cases)
  case (2 buffer len pot rest)
  show ?case using round_pot_less [OF 2(1, 4)] unfolding in_measure snd_conv 2(5) by linarith
next
  case (3 buffer len pot rest)
  show ?case using round_pot_less [OF 3(1, 4)] unfolding in_measure snd_conv 3(5) by linarith
next
  case (4 buffer len pot rest)
  show ?case using round_pot_less [OF 4(1, 4)] unfolding in_measure snd_conv 4(6) 4(5) by linarith
qed simp

declare guac_display_plan_is_single_color.simps [simp del]

lemma length_pixel_bytes [simp]: "length (pixel_bytes p) = 4"
  by (simp add: pixel_bytes_def)

lemma pixel_at_bytes [simp]: "pixel_at (pixel_bytes p @ bs) = p"
proof (rule bit_word_eqI)
  fix n
  assume "n < LENGTH(32)"
  then show "bit (pixel_at (pixel_bytes p @ bs)) n = bit p n"
    by (cases "24 \<le> n"; cases "16 \<le> n") (auto simp: pixel_at_def pixel_bytes_def bit_simps)
qed

lemma pixel_bytes_inject: "pixel_bytes p = pixel_bytes q \<longleftrightarrow> p = q"
  using pixel_at_bytes [of p "[]"] pixel_at_bytes [of q "[]"] by (metis append_Nil2)

definition bytes_of :: "pixel list \<Rightarrow> byte list" where
  "bytes_of ps = concat (map pixel_bytes ps)"

lemma length_bytes_of [simp]: "length (bytes_of ps) = 4 * length ps"
  by (induction ps) (simp_all add: bytes_of_def)

lemma bytes_of_append: "bytes_of (ps @ qs) = bytes_of ps @ bytes_of qs"
  by (simp add: bytes_of_def)

lemma bytes_of_inject: "bytes_of ps = bytes_of qs \<longleftrightarrow> ps = qs"
proof
  assume e: "bytes_of ps = bytes_of qs"
  then have "length ps = length qs" using length_bytes_of by (metis mult_cancel1 zero_neq_numeral)
  then show "ps = qs" using e
    by (induction ps qs rule: list_induct2) (auto simp: bytes_of_def pixel_bytes_inject)
qed simp

lemma drop_bytes_of: "drop (4 * n) (bytes_of ps) = bytes_of (drop n ps)"
proof (cases "n \<le> length ps")
  case True
  have "bytes_of ps = bytes_of (take n ps) @ bytes_of (drop n ps)" by (simp flip: bytes_of_append)
  then show ?thesis using True by simp
next
  case False
  have "bytes_of [] = []" by (simp add: bytes_of_def)
  with False show ?thesis by simp
qed

lemma take_bytes_of: "take (4 * n) (bytes_of ps) = bytes_of (take n ps)"
proof (cases "n \<le> length ps")
  case True
  have "bytes_of ps = bytes_of (take n ps) @ bytes_of (drop n ps)" by (simp flip: bytes_of_append)
  then show ?thesis using True by simp
next
  case False
  then show ?thesis by simp
qed

lemma pixel_at_bytes_of: "ps \<noteq> [] \<Longrightarrow> pixel_at (bytes_of ps) = hd ps"
  by (cases ps) (simp_all add: bytes_of_def)

lemma take_replicate_iff:
  assumes "0 < n" "n \<le> length ps"
  shows "take n ps = replicate n c \<longleftrightarrow> (\<forall>i < n. ps ! i = c)"
  using assms by (auto simp: list_eq_iff_nth_eq)

text \<open>The two ways to split a buffer: equal halves, and two parts of the same colour.\<close>

lemma halves_single:
  assumes "0 < a" "2 * a \<le> length ps"
  shows "take a ps = take a (drop a ps) \<and> take a ps = replicate a c \<longleftrightarrow> take (2 * a) ps = replicate (2 * a) c"
proof -
  have "take (2 * a) ps = take a ps @ take a (drop a ps)" by (simp add: take_add mult_2)
  moreover have "replicate (2 * a) c = replicate a c @ replicate a c" by (simp add: mult_2 replicate_add)
  ultimately show ?thesis using assms by (auto simp: append_eq_append_conv)
qed

lemma parts_single:
  assumes "a + b \<le> length ps"
  shows "take a ps = replicate a c \<and> take b (drop a ps) = replicate b c \<longleftrightarrow> take (a + b) ps = replicate (a + b) c"
  using assms by (auto simp: take_add replicate_add append_eq_append_conv)

lemma single_color_step:
  assumes "2 \<le> n"
  defines "pot \<equiv> guac_display_plan_round_pot (4 * n - 1)"
  shows "\<exists>a b. 0 < a \<and> 0 < b \<and> a + b = n \<and> pot = 4 * a \<and> 4 * n - pot = 4 * b"
proof -
  have "0 < 4 * n - 1" "3 < 4 * n - 1" using assms by auto
  from round_pot_spec [OF this(1)] this(2) have "0 < pot" "pot \<le> 4 * n - 1" "4 dvd pot" by (simp_all add: pot_def)
  then obtain a where "pot = 4 * a" by blast
  with \<open>0 < pot\<close> \<open>pot \<le> 4 * n - 1\<close> show ?thesis
    by (intro exI [of _ a] exI [of _ "n - a"]) auto
qed

lemma single_color_iff:
  "0 < n \<Longrightarrow> n \<le> length ps \<Longrightarrow>
    guac_display_plan_is_single_color (bytes_of ps) (4 * n) = Some c \<longleftrightarrow> take n ps = replicate n c"
proof (induction n arbitrary: ps c rule: less_induct)
  case (less n)
  have ne: "ps \<noteq> []" using less.prems by auto
  show ?case
  proof (cases "n = 1")
    case True
    have "take 1 ps = [hd ps]" using ne by (cases ps) simp_all
    then show ?thesis using True ne
      by (subst guac_display_plan_is_single_color.simps) (simp add: pixel_at_bytes_of)
  next
    case False
    then have n2: "2 \<le> n" using less.prems by simp
    let ?pot = "guac_display_plan_round_pot (4 * n - 1)"
    from single_color_step [OF n2] obtain a b where ab: "0 < a" "0 < b" "a + b = n" "?pot = 4 * a" "4 * n - ?pot = 4 * b" by blast
    have IHa: "guac_display_plan_is_single_color (bytes_of ps) (4 * a) = Some d \<longleftrightarrow> take a ps = replicate a d" for d
      using ab less.prems by (intro less.IH) auto
    have IHb: "guac_display_plan_is_single_color (bytes_of (drop a ps)) (4 * b) = Some d \<longleftrightarrow> take b (drop a ps) = replicate b d" for d
      using ab less.prems by (intro less.IH) auto
    have eqn: "guac_display_plan_is_single_color (bytes_of ps) (4 * n) = (
        if n = 2 \<and> hd ps = hd (drop 1 ps) then Some (hd ps)
        else if a = b then (if take a ps = take a (drop a ps) then guac_display_plan_is_single_color (bytes_of ps) (4 * a) else None)
        else (case guac_display_plan_is_single_color (bytes_of ps) (4 * a) of None \<Rightarrow> None
          | Some ca \<Rightarrow> (case guac_display_plan_is_single_color (bytes_of (drop a ps)) (4 * b) of None \<Rightarrow> None
              | Some cb \<Rightarrow> if ca = cb then Some ca else None)))"
    proof -
      have d4: "drop 4 (bytes_of ps) = bytes_of (drop 1 ps)" using drop_bytes_of [of 1 ps] by simp
      have px: "pixel_at (bytes_of ps) = hd ps" "pixel_at (drop 4 (bytes_of ps)) = hd (drop 1 ps)"
        unfolding d4 using n2 less.prems by (intro pixel_at_bytes_of; auto)+
      have c: "4 * n \<noteq> 0" "4 * n \<noteq> 4" "4 * n = 8 \<longleftrightarrow> n = 2" "\<not> 4 * n mod 4 \<noteq> 0" using False less.prems by auto
      have rest: "4 * n - 4 * a = 4 * b" using ab(3) by simp
      have ab4: "4 * a = 4 * b \<longleftrightarrow> a = b" by simp
      show ?thesis
        unfolding guac_display_plan_is_single_color.simps [of "bytes_of ps" "4 * n"] Let_def ab(4) rest px ab4
          drop_bytes_of take_bytes_of bytes_of_inject
        by (simp only: c if_False if_True simp_thms)
    qed
    show ?thesis
    proof (cases "n = 2 \<and> hd ps = hd (drop 1 ps)")
      case True
      then obtain x zs where "ps = x # x # zs" using less.prems by (cases ps; cases "tl ps") auto
      then show ?thesis using True eqn by (simp add: numeral_2_eq_2)
    next
      case apart: False
      show ?thesis
      proof (cases "a = b")
        case True
        then have "n = 2 * a" using ab(3) by simp
        then have "take a ps = take a (drop a ps) \<and> take a ps = replicate a c \<longleftrightarrow> take n ps = replicate n c"
          using halves_single [OF ab(1), of ps c] less.prems(2) by simp
        moreover have "guac_display_plan_is_single_color (bytes_of ps) (4 * n) =
            (if take a ps = take a (drop a ps) then guac_display_plan_is_single_color (bytes_of ps) (4 * a) else None)"
          unfolding eqn by (simp only: apart True if_False if_True simp_thms)
        ultimately show ?thesis using IHa [of c] by (metis option.distinct(1))
      next
        case False
        then have "guac_display_plan_is_single_color (bytes_of ps) (4 * n) =
            (case guac_display_plan_is_single_color (bytes_of ps) (4 * a) of None \<Rightarrow> None
            | Some ca \<Rightarrow> (case guac_display_plan_is_single_color (bytes_of (drop a ps)) (4 * b) of None \<Rightarrow> None
                | Some cb \<Rightarrow> if ca = cb then Some ca else None))"
          unfolding eqn by (simp only: apart if_False simp_thms)
        moreover have "take a ps = replicate a c \<and> take b (drop a ps) = replicate b c \<longleftrightarrow> take n ps = replicate n c"
          using parts_single [of a b ps c] ab(3) less.prems(2) by simp
        ultimately show ?thesis using IHa [of c] IHb [of c]
          by (auto split: option.splits if_splits)
      qed
    qed
  qed
qed

section \<open>Rectangles of a single colour\<close>

definition GUAC_DISPLAY_LAYER_RAW_BPP :: nat where "GUAC_DISPLAY_LAYER_RAW_BPP = 4"

text \<open>The bytes from pixel \<open>x\<close> of row \<open>y\<close> on.\<close>

definition row_bytes :: "pixel list list \<Rightarrow> int \<Rightarrow> int \<Rightarrow> byte list" where
  "row_bytes rows x y = bytes_of (drop (nat x) (rows ! nat y))"

definition guac_display_plan_is_rect_single_color :: "pixel list list \<Rightarrow> guac_rect \<Rightarrow> pixel option" where
  "guac_display_plan_is_rect_single_color rows rect = (
    let row_length = nat (guac_rect_width rect) * GUAC_DISPLAY_LAYER_RAW_BPP
    in case guac_display_plan_is_single_color (row_bytes rows (rect_left rect) (rect_top rect)) row_length of
        None \<Rightarrow> None
      | Some first_color \<Rightarrow>
          if list_all (\<lambda>y. take row_length (row_bytes rows (rect_left rect) (y - 1)) =
                take row_length (row_bytes rows (rect_left rect) y)) [rect_top rect + 1..rect_bottom rect - 1]
          then Some first_color else None)"

definition layer_of :: "guac_display_layer list \<Rightarrow> nat \<Rightarrow> guac_display_layer option" where
  "layer_of layers n = find (\<lambda>l. layer_number l = n) layers"

definition rewrite_as_rect :: "guac_display_layer list \<Rightarrow> guac_display_plan_operation \<Rightarrow> guac_display_plan_operation" where
  "rewrite_as_rect layers oper = (
    if op_type oper = GUAC_DISPLAY_PLAN_OPERATION_IMG then
      (case layer_of layers (op_layer oper) of
        None \<Rightarrow> oper
      | Some l \<Rightarrow>
          (case state_buffer (layer_pending_frame l) of
            None \<Rightarrow> oper
          | Some rows \<Rightarrow>
              (case guac_display_plan_is_rect_single_color rows (op_dest oper) of
                None \<Rightarrow> oper
              | Some color \<Rightarrow>
                  let color = (if layer_opaque l then color OR 0xFF000000 else color)
                  in oper\<lparr>op_type := GUAC_DISPLAY_PLAN_OPERATION_RECT, op_src_color := color\<rparr>)))
    else oper)"

definition PFR_guac_display_plan_rewrite_as_rects ::
    "guac_display_layer list \<Rightarrow> guac_display_plan_operation list \<Rightarrow> guac_display_plan_operation list" where
  "PFR_guac_display_plan_rewrite_as_rects layers ops = map (rewrite_as_rect layers) ops"

text \<open>
  The pending frame as users see it: the alpha channel of opaque layers is ignored.
\<close>

definition visible :: "guac_display_layer \<Rightarrow> pixel \<Rightarrow> pixel" where
  "visible l p = (if layer_opaque l then p OR 0xFF000000 else p)"

definition pending_frame :: "guac_display_layer list \<Rightarrow> frame" where
  "pending_frame layers n = (\<lambda>(x, y). case layer_of layers n of None \<Rightarrow> 0
     | Some l \<Rightarrow> visible l (rows_of (layer_pending_frame l) ! nat y ! nat x))"

text \<open>A rectangle inside a buffer.\<close>

definition inside :: "guac_rect \<Rightarrow> guac_display_layer_state \<Rightarrow> bool" where
  "inside r st \<longleftrightarrow> on_screen r \<and> rect_right r \<le> state_width st \<and> rect_bottom r \<le> state_height st"

lemma row_segment_iff:
  assumes "buffer_ok st" "inside r st" "rect_top r \<le> y" "y < rect_bottom r"
  defines "seg \<equiv> take (nat (guac_rect_width r)) (drop (nat (rect_left r)) (rows_of st ! nat y))"
  shows "length seg = nat (guac_rect_width r)"
    "i < nat (guac_rect_width r) \<Longrightarrow> seg ! i = rows_of st ! nat y ! nat (rect_left r + int i)"
    "nat (guac_rect_width r) \<le> length (drop (nat (rect_left r)) (rows_of st ! nat y))"
proof -
  have s: "on_screen r" "rect_right r \<le> state_width st" "rect_bottom r \<le> state_height st"
    using assms(2) by (simp_all add: inside_def)
  have e: "0 \<le> rect_left r" "0 \<le> y" using s(1) assms(3) by (simp_all add: on_screen_def)
  show w: "nat (guac_rect_width r) \<le> length (drop (nat (rect_left r)) (rows_of st ! nat y))"
    using assms(1, 4) s e by (intro buffer_row) (simp_all add: on_screen_size)
  then show "length seg = nat (guac_rect_width r)" by (simp add: seg_def)
  show "seg ! i = rows_of st ! nat y ! nat (rect_left r + int i)" if "i < nat (guac_rect_width r)"
  proof -
    have "nat (rect_left r) \<le> length (rows_of st ! nat y)" using w that unfolding length_drop by linarith
    then show ?thesis using that e(1) by (simp add: seg_def nat_add_distrib)
  qed
qed

lemma rect_single_color_iff:
  assumes b: "buffer_ok st" and r: "inside r st"
  shows "guac_display_plan_is_rect_single_color (rows_of st) r = Some c \<longleftrightarrow>
    (\<forall>(x, y) \<in> rect_area r. rows_of st ! nat y ! nat x = c)"
proof -
  let ?w = "nat (guac_rect_width r)"
  define seg where "seg y = take ?w (drop (nat (rect_left r)) (rows_of st ! nat y))" for y
  have s: "on_screen r" using r by (simp add: inside_def)
  have w: "0 < ?w" using s by (simp add: on_screen_size on_screen_def)
  have take: "take (?w * GUAC_DISPLAY_LAYER_RAW_BPP) (row_bytes (rows_of st) (rect_left r) y) = bytes_of (seg y)" for y
    by (simp add: row_bytes_def seg_def GUAC_DISPLAY_LAYER_RAW_BPP_def mult.commute [of _ 4] take_bytes_of)
  have top: "rect_top r \<le> rect_top r" "rect_top r < rect_bottom r" using s by (simp_all add: on_screen_def)
  have first: "guac_display_plan_is_single_color (row_bytes (rows_of st) (rect_left r) (rect_top r))
      (?w * GUAC_DISPLAY_LAYER_RAW_BPP) = Some c \<longleftrightarrow> seg (rect_top r) = replicate ?w c" for c
    using single_color_iff [OF w row_segment_iff(3) [OF b r top]]
    by (simp add: row_bytes_def seg_def GUAC_DISPLAY_LAYER_RAW_BPP_def mult.commute)
  have rows: "(\<forall>y \<in> set [rect_top r + 1..rect_bottom r - 1]. seg (y - 1) = seg y) \<and> seg (rect_top r) = replicate ?w c \<longleftrightarrow>
      (\<forall>y. rect_top r \<le> y \<and> y < rect_bottom r \<longrightarrow> seg y = replicate ?w c)" (is "?A \<longleftrightarrow> ?B")
  proof
    assume A: ?A
    have "seg y = replicate ?w c" if "rect_top r \<le> y" "y < rect_bottom r" for y
      using that
    proof (induction y rule: int_ge_induct)
      case (step y)
      then show ?case using A by (auto dest!: bspec [of _ _ "y + 1"])
    qed (use A in blast)
    then show ?B by blast
  next
    assume ?B
    then show ?A using top(2) by auto
  qed
  have row: "seg y = replicate ?w c \<longleftrightarrow> (\<forall>x. rect_left r \<le> x \<and> x < rect_right r \<longrightarrow> rows_of st ! nat y ! nat x = c)"
    if y: "rect_top r \<le> y" "y < rect_bottom r" for y
  proof -
    have len: "length (seg y) = ?w" unfolding seg_def by (rule row_segment_iff(1) [OF b r y])
    have nth: "seg y ! i = rows_of st ! nat y ! nat (rect_left r + int i)" if "i < ?w" for i
      unfolding seg_def by (rule row_segment_iff(2) [OF b r y that])
    have w': "int ?w = rect_right r - rect_left r" using s by (simp add: on_screen_size on_screen_def)
    have "seg y = replicate ?w c \<longleftrightarrow> (\<forall>i < ?w. rows_of st ! nat y ! nat (rect_left r + int i) = c)"
      using len nth by (simp add: list_eq_iff_nth_eq)
    also have "\<dots> \<longleftrightarrow> (\<forall>x. rect_left r \<le> x \<and> x < rect_right r \<longrightarrow> rows_of st ! nat y ! nat x = c)"
    proof safe
      fix x assume "\<forall>i < ?w. rows_of st ! nat y ! nat (rect_left r + int i) = c" "rect_left r \<le> x" "x < rect_right r"
      moreover from this have "nat (x - rect_left r) < ?w" using w' by linarith
      ultimately show "rows_of st ! nat y ! nat x = c" by (auto dest!: spec [of _ "nat (x - rect_left r)"])
    next
      fix i assume "\<forall>x. rect_left r \<le> x \<and> x < rect_right r \<longrightarrow> rows_of st ! nat y ! nat x = c" "i < ?w"
      moreover from this have "rect_left r + int i < rect_right r" using w' by linarith
      ultimately show "rows_of st ! nat y ! nat (rect_left r + int i) = c" by simp
    qed
    finally show ?thesis .
  qed
  have "guac_display_plan_is_rect_single_color (rows_of st) r = Some c \<longleftrightarrow>
      (\<forall>y \<in> set [rect_top r + 1..rect_bottom r - 1]. seg (y - 1) = seg y) \<and> seg (rect_top r) = replicate ?w c"
    unfolding guac_display_plan_is_rect_single_color_def Let_def take bytes_of_inject list_all_iff first [symmetric]
    by (auto split: option.splits)
  also note rows
  finally show ?thesis using row by (auto simp: rect_area_def box_def)
qed

section \<open>Rewriting a plan\<close>

definition images_inside :: "guac_display_layer list \<Rightarrow> guac_display_plan_operation list \<Rightarrow> bool" where
  "images_inside layers ops \<longleftrightarrow> (\<forall>oper \<in> set ops. op_type oper = GUAC_DISPLAY_PLAN_OPERATION_IMG \<longrightarrow>
     (\<forall>l. layer_of layers (op_layer oper) = Some l \<longrightarrow>
        buffer_ok (layer_pending_frame l) \<and> inside (op_dest oper) (layer_pending_frame l)))"

lemma rewrite_as_rect_fields [simp]:
  "op_layer (rewrite_as_rect layers oper) = op_layer oper"
  "op_dest (rewrite_as_rect layers oper) = op_dest oper"
  "op_dirty_size (rewrite_as_rect layers oper) = op_dirty_size oper"
  "op_src_rect (rewrite_as_rect layers oper) = op_src_rect oper"
  "op_type (rewrite_as_rect layers oper) = GUAC_DISPLAY_PLAN_OPERATION_NOP \<longleftrightarrow> op_type oper = GUAC_DISPLAY_PLAN_OPERATION_NOP"
  "op_type (rewrite_as_rect layers oper) = GUAC_DISPLAY_PLAN_OPERATION_COPY \<longleftrightarrow> op_type oper = GUAC_DISPLAY_PLAN_OPERATION_COPY"
  by (auto simp: rewrite_as_rect_def Let_def split: option.splits)

lemma rewrite_as_rect_correct:
  assumes "op_correct (pending_frame layers) L oper"
    and "\<And>l. op_type oper = GUAC_DISPLAY_PLAN_OPERATION_IMG \<Longrightarrow> layer_of layers (op_layer oper) = Some l \<Longrightarrow>
      buffer_ok (layer_pending_frame l) \<and> inside (op_dest oper) (layer_pending_frame l)"
  shows "op_correct (pending_frame layers) L (rewrite_as_rect layers oper)"
proof (cases "rewrite_as_rect layers oper = oper")
  case True
  then show ?thesis using assms(1) by simp
next
  case False
  then obtain l' rows color where r: "op_type oper = GUAC_DISPLAY_PLAN_OPERATION_IMG" "layer_of layers (op_layer oper) = Some l'"
    "state_buffer (layer_pending_frame l') = Some rows" "guac_display_plan_is_rect_single_color rows (op_dest oper) = Some color"
    by (auto simp: rewrite_as_rect_def split: if_splits option.splits)
  have rows: "rows = rows_of (layer_pending_frame l')" using r(3) by (simp add: rows_of_def)
  have "\<forall>(x, y) \<in> rect_area (op_dest oper). rows_of (layer_pending_frame l') ! nat y ! nat x = color"
    using rect_single_color_iff [of "layer_pending_frame l'" "op_dest oper" color] assms(2) [OF r(1, 2)] r(4) rows by simp
  then have "\<forall>p \<in> rect_area (op_dest oper). pending_frame layers (op_layer oper) p = visible l' color"
    using r(2) by (auto simp: pending_frame_def)
  then show ?thesis using r by (simp add: op_correct_def rewrite_as_rect_def visible_def)
qed

lemma rewrite_as_rects_sound:
  assumes "plan_sound (pending_frame layers) L ops" "images_inside layers ops"
  defines "ops' \<equiv> PFR_guac_display_plan_rewrite_as_rects layers ops"
  shows "plan_sound (pending_frame layers) L ops' \<and> improves ops ops' \<and> live ops' = live ops"
proof -
  have len: "length ops' = length ops" by (simp add: ops'_def PFR_guac_display_plan_rewrite_as_rects_def)
  have nth: "ops' ! i = rewrite_as_rect layers (ops ! i)" if "i < length ops" for i
    using that by (simp add: ops'_def PFR_guac_display_plan_rewrite_as_rects_def)
  have live: "live ops' = live ops" by (auto simp: live_def len nth)
  have "drawn ops' l = drawn ops l" for l
    unfolding drawn_def live by (intro SUP_cong Collect_cong) (auto simp: live_def nth)
  then have "improves ops ops'" using live by (simp add: improves_def len)
  moreover have "list_all op_wf ops'"
    using assms(1) by (auto simp: list_all_length len nth plan_sound_def op_wf_def)
  moreover have "list_all (op_correct (pending_frame layers) L) ops'"
    using assms(1, 2) by (auto simp: list_all_length len nth plan_sound_def images_inside_def intro!: rewrite_as_rect_correct)
  moreover have "copies_apart ops'"
    using assms(1) by (auto simp: plan_sound_def copies_apart_def len nth)
  ultimately show ?thesis using live by (simp add: plan_sound_def)
qed

section \<open>Properties\<close>

text \<open>
  C28: the test for a single colour, which compares ever smaller halves of the buffer, terminates and is
  equivalent to the plain statement that all pixels of the buffer are equal.
\<close>

theorem guac_display_plan_is_single_color_iff:
  assumes "ps \<noteq> []"
  shows "guac_display_plan_is_single_color (bytes_of ps) (4 * length ps) = Some c \<longleftrightarrow> (\<forall>p \<in> set ps. p = c)"
proof -
  have "ps = replicate (length ps) c \<longleftrightarrow> (\<forall>p \<in> set ps. p = c)" by (metis in_set_replicate replicate_length_same)
  then show ?thesis using assms single_color_iff [of "length ps" ps c] by simp
qed

theorem guac_display_plan_is_single_color_witness:
  "guac_display_plan_is_single_color (bytes_of [7, 7, 7, 7, 7]) (4 * 5) = Some 7 \<and>
   guac_display_plan_is_single_color (bytes_of [7, 7, 8]) (4 * 3) \<noteq> Some 7"
  using guac_display_plan_is_single_color_iff [of "[7, 7, 7, 7, 7]" 7] guac_display_plan_is_single_color_iff [of "[7, 7, 8]" 7]
  by simp

text \<open>
  C27: replacing images by rectangles keeps the plan sound: the colour of each rectangle is the colour that
  users see at every pixel of it, and the same pixels are drawn.
\<close>

theorem guac_display_plan_rewrite_as_rects_sound:
  assumes "plan_sound (pending_frame layers) L ops" "images_inside layers ops"
  shows "list_all (op_correct (pending_frame layers) L) (PFR_guac_display_plan_rewrite_as_rects layers ops) \<and>
    (\<forall>l. drawn ops l \<subseteq> drawn (PFR_guac_display_plan_rewrite_as_rects layers ops) l)"
  using rewrite_as_rects_sound [OF assms] by (simp add: plan_sound_def improves_def)

theorem guac_display_plan_rewrite_as_rects_witness:
  "PFR_guac_display_plan_rewrite_as_rects [example_layer]
     [(example_op GUAC_DISPLAY_PLAN_OPERATION_IMG (guac_rect_init 1 0 1 1) 1)\<lparr>op_layer := 3\<rparr>] =
     [(example_op GUAC_DISPLAY_PLAN_OPERATION_RECT (guac_rect_init 1 0 1 1) 1)\<lparr>op_layer := 3, op_src_color := 0xFF000007\<rparr>] \<and>
   list_all (op_correct (pending_frame [example_layer]) (\<lambda>_ _. 0))
     (PFR_guac_display_plan_rewrite_as_rects [example_layer]
       [(example_op GUAC_DISPLAY_PLAN_OPERATION_IMG (guac_rect_init 1 0 1 1) 1)\<lparr>op_layer := 3\<rparr>])"
proof
  let ?op = "(example_op GUAC_DISPLAY_PLAN_OPERATION_IMG (guac_rect_init 1 0 1 1) 1)\<lparr>op_layer := 3\<rparr>"
  have l: "layer_of [example_layer] 3 = Some example_layer" by (simp add: layer_of_def example_layer_def)
  have b: "buffer_ok (layer_pending_frame example_layer)" using example_layer_wf by (simp add: layer_wf_def)
  have i: "inside (op_dest ?op) (layer_pending_frame example_layer)"
    by (simp add: inside_def on_screen_def example_op_def guac_rect_init_def example_layer_def example_state_def)
  have "images_inside [example_layer] [?op]" using l b i by (simp add: images_inside_def)
  moreover have "plan_sound (pending_frame [example_layer]) (\<lambda>_ _. 0) [?op]"
    by (simp add: plan_sound_def op_wf_def on_screen_def op_correct_def copies_apart_def example_op_def guac_rect_init_def)
  ultimately show "list_all (op_correct (pending_frame [example_layer]) (\<lambda>_ _. 0))
     (PFR_guac_display_plan_rewrite_as_rects [example_layer] [?op])"
    using guac_display_plan_rewrite_as_rects_sound by blast
  have "guac_display_plan_is_rect_single_color (rows_of (layer_pending_frame example_layer)) (op_dest ?op) = Some 7"
    unfolding rect_single_color_iff [OF b i]
    by (auto simp: rect_area_def example_op_def guac_rect_init_def example_layer_def example_state_def rows_of_def box_def)
  then show "PFR_guac_display_plan_rewrite_as_rects [example_layer] [?op] =
     [(example_op GUAC_DISPLAY_PLAN_OPERATION_RECT (guac_rect_init 1 0 1 1) 1)\<lparr>op_layer := 3, op_src_color := 0xFF000007\<rparr>]"
    using l by (simp add: PFR_guac_display_plan_rewrite_as_rects_def rewrite_as_rect_def example_layer_def example_state_def
        rows_of_def example_op_def)
qed

end
