(* ===== verification/DisplaySearch.thy ===== *)
theory DisplaySearch
  imports DisplayRects
begin

text \<open>
  Finding image data of the last frame that reappears in the pending frame
  (\<open>libguac/display-plan-search.c\<close>): a rolling hash over all windows of 64 by 64 pixels, a table of
  operations by hash, and the replacement of images by copies. The theorems show that the rolling
  hash of a window depends on the pixels of the window only, and that replacing keeps a plan sound.
\<close>

section \<open>The table of operations\<close>

text \<open>
  \<open>ops_by_hash\<close>: a slot is empty or holds the index of an operation and its hash.
\<close>

type_synonym hash = "64 word"
type_synonym op_index = "nat \<Rightarrow> (nat \<times> hash) option"

definition GUAC_DISPLAY_PLAN_OPERATION_HASH :: "hash \<Rightarrow> nat" where
  "GUAC_DISPLAY_PLAN_OPERATION_HASH h = unat ((h AND 0xFFFF) XOR (drop_bit 16 h AND 0xFFFF) XOR
     (drop_bit 32 h AND 0xFFFF) XOR (drop_bit 48 h AND 0xFFFF))"

definition guac_display_plan_store_indexed_op :: "hash \<Rightarrow> nat \<Rightarrow> op_index \<Rightarrow> op_index" where
  "guac_display_plan_store_indexed_op h i table = (
    let index = GUAC_DISPLAY_PLAN_OPERATION_HASH h
    in if table index = None then table(index := Some (i, h)) else table)"

definition guac_display_plan_remove_indexed_op :: "hash \<Rightarrow> op_index \<Rightarrow> nat option \<times> op_index" where
  "guac_display_plan_remove_indexed_op h table = (
    let index = GUAC_DISPLAY_PLAN_OPERATION_HASH h
    in case table index of
        None \<Rightarrow> (None, table)
      | Some (i, h') \<Rightarrow> if h' = h then (Some i, table(index := None)) else (None, table))"

section \<open>The rolling hash\<close>

definition GUAC_DISPLAY_MAX_WIDTH :: nat where "GUAC_DISPLAY_MAX_WIDTH = 8192"

text \<open>
  The inner loop of \<open>guac_hash_foreach_image_rect\<close> over the pixels of a row, with the hashes of the
  columns (\<open>cell_hash\<close>) and the state that the callback changes. The array \<open>cell_hash\<close> has
  \<open>GUAC_DISPLAY_MAX_WIDTH\<close> elements; a longer row writes past its end.
\<close>

fun hash_row :: "(int \<Rightarrow> int \<Rightarrow> hash \<Rightarrow> 's \<Rightarrow> 's) \<Rightarrow> guac_rect \<Rightarrow> int \<Rightarrow> int \<Rightarrow> pixel list \<Rightarrow> hash list \<Rightarrow> hash \<Rightarrow> 's \<Rightarrow>
    (hash list \<times> 's) outcome" where
  "hash_row callback rect y x (pixel # row) (current_cell_hash # cell_hash) row_hash s = (
    let row_hash = push_bit 1 (row_hash * 31) + ucast pixel;
        current_cell_hash = push_bit 1 (current_cell_hash * 31) + row_hash;
        s = (if y \<ge> rect_top rect \<and> x \<ge> rect_left rect then callback x y current_cell_hash s else s)
    in case hash_row callback rect y (x + 1) row cell_hash row_hash s of
        Inl e \<Rightarrow> Inl e
      | Inr (cell_hash, s) \<Rightarrow> Inr (current_cell_hash # cell_hash, s))"
| "hash_row callback rect y x (pixel # row) [] row_hash s = Inl Undefined"
| "hash_row callback rect y x [] cell_hash row_hash s = Inr (cell_hash, s)"

definition guac_hash_foreach_image_rect ::
    "pixel list list \<Rightarrow> guac_rect \<Rightarrow> (int \<Rightarrow> int \<Rightarrow> hash \<Rightarrow> 's \<Rightarrow> 's) \<Rightarrow> 's \<Rightarrow> 's outcome" where
  "guac_hash_foreach_image_rect rows rect callback s = (
    let start_x = rect_left rect - GUAC_DISPLAY_CELL_SIZE + 1;
        end_x = rect_right rect - GUAC_DISPLAY_CELL_SIZE + 1;
        start_y = rect_top rect - GUAC_DISPLAY_CELL_SIZE + 1;
        end_y = rect_bottom rect - GUAC_DISPLAY_CELL_SIZE + 1
    in case fold_outcome (\<lambda>y (cell_hash, s).
          hash_row callback rect y start_x
            (take (nat (end_x - start_x)) (drop (nat (rect_left rect)) (rows ! nat (rect_top rect + (y - start_y)))))
            cell_hash 0 s)
        [start_y..end_y - 1] (replicate GUAC_DISPLAY_MAX_WIDTH 0, s) of
        Inl e \<Rightarrow> Inl e
      | Inr (cell_hash, s) \<Rightarrow> Inr s)"

section \<open>Indexing and searching\<close>

definition guac_display_cell_init_rect :: "int \<Rightarrow> int \<Rightarrow> guac_rect" where
  "guac_display_cell_init_rect x y = (
    let x = (x sdiv GUAC_DISPLAY_CELL_SIZE) * GUAC_DISPLAY_CELL_SIZE;
        y = (y sdiv GUAC_DISPLAY_CELL_SIZE) * GUAC_DISPLAY_CELL_SIZE
    in guac_rect_init x y GUAC_DISPLAY_CELL_SIZE GUAC_DISPLAY_CELL_SIZE)"

definition guac_display_layer_get_bounds :: "guac_display_layer \<Rightarrow> guac_rect" where
  "guac_display_layer_get_bounds l = \<lparr>rect_left = 0, rect_top = 0,
     rect_right = state_width (layer_pending_frame l), rect_bottom = state_height (layer_pending_frame l)\<rparr>"

definition guac_display_plan_index_op_for_cell :: "nat \<Rightarrow> int \<Rightarrow> int \<Rightarrow> hash \<Rightarrow> op_index \<Rightarrow> op_index" where
  "guac_display_plan_index_op_for_cell i x y h table = guac_display_plan_store_indexed_op h i table"

definition index_op :: "guac_display_layer list \<Rightarrow> guac_display_plan_operation list \<Rightarrow> nat \<Rightarrow> op_index \<Rightarrow> op_index outcome" where
  "index_op layers ops i table = (
    if op_type (ops ! i) = GUAC_DISPLAY_PLAN_OPERATION_IMG then
      (case layer_of layers (op_layer (ops ! i)) of
        None \<Rightarrow> Inr table
      | Some l \<Rightarrow>
          let cell = guac_display_cell_init_rect (rect_left (op_dest (ops ! i))) (rect_top (op_dest (ops ! i)));
              cell = guac_rect_constrain cell (guac_display_layer_get_bounds l)
          in if guac_rect_width cell = GUAC_DISPLAY_CELL_SIZE \<and> guac_rect_height cell = GUAC_DISPLAY_CELL_SIZE
             then guac_hash_foreach_image_rect (rows_of (layer_pending_frame l)) cell
               (guac_display_plan_index_op_for_cell i) table
             else Inr table)
    else Inr table)"

definition PFR_guac_display_plan_index_dirty_cells ::
    "guac_display_layer list \<Rightarrow> guac_display_plan_operation list \<Rightarrow> op_index outcome" where
  "PFR_guac_display_plan_index_dirty_cells layers ops =
    fold_outcome (index_op layers ops) [0..<length ops] (\<lambda>_. None)"

text \<open>
  \<open>guac_image_cmp\<close> for two regions of the same dimensions, given by the buffers and their upper-left
  corners: whether it returns 0.
\<close>

definition guac_image_cmp ::
    "pixel list list \<Rightarrow> int \<Rightarrow> int \<Rightarrow> pixel list list \<Rightarrow> int \<Rightarrow> int \<Rightarrow> int \<Rightarrow> int \<Rightarrow> bool" where
  "guac_image_cmp rows_a x_a y_a rows_b x_b y_b width height \<longleftrightarrow>
    list_all (\<lambda>y. take (nat width) (drop (nat x_a) (rows_a ! nat (y_a + y))) =
      take (nat width) (drop (nat x_b) (rows_b ! nat (y_b + y)))) [0..height - 1]"

type_synonym search_state = "op_index \<times> guac_display_plan_operation list"

definition PFR_LFR_guac_display_plan_find_copies ::
    "guac_display_layer list \<Rightarrow> guac_display_layer \<Rightarrow> int \<Rightarrow> int \<Rightarrow> hash \<Rightarrow> search_state \<Rightarrow> search_state" where
  "PFR_LFR_guac_display_plan_find_copies layers copy_from_layer x y h st = (case st of (table, ops) \<Rightarrow>
    (case guac_display_plan_remove_indexed_op h table of
      (None, table) \<Rightarrow> (table, ops)
    | (Some i, table) \<Rightarrow>
        (case layer_of layers (op_layer (ops ! i)) of
          None \<Rightarrow> (table, ops)
        | Some copy_to_layer \<Rightarrow>
            let src_rect = guac_rect_init x y GUAC_DISPLAY_CELL_SIZE GUAC_DISPLAY_CELL_SIZE;
                dst_rect = guac_display_cell_init_rect (rect_left (op_dest (ops ! i))) (rect_top (op_dest (ops ! i)))
            in if guac_image_cmp (rows_of (layer_last_frame copy_from_layer)) (rect_left src_rect) (rect_top src_rect)
                  (rows_of (layer_pending_frame copy_to_layer)) (rect_left dst_rect) (rect_top dst_rect)
                  GUAC_DISPLAY_CELL_SIZE GUAC_DISPLAY_CELL_SIZE
               then (table, ops[i := (ops ! i)\<lparr>op_type := GUAC_DISPLAY_PLAN_OPERATION_COPY,
                   op_src_layer := layer_last_frame_buffer copy_from_layer, op_src_rect := src_rect, op_dest := dst_rect\<rparr>])
               else (table, ops))))"

definition search_layer :: "guac_display_layer list \<Rightarrow> guac_display_layer \<Rightarrow> search_state \<Rightarrow> search_state outcome" where
  "search_layer layers current st = (
    if state_search_for_copies (layer_pending_frame current) then
      let search_region = guac_rect_init 0 0 (state_width (layer_last_frame current)) (state_height (layer_last_frame current));
          search_region = guac_rect_constrain search_region (layer_dirty current)
      in guac_hash_foreach_image_rect (rows_of (layer_last_frame current)) search_region
        (PFR_LFR_guac_display_plan_find_copies layers current) st
    else Inr st)"

text \<open>The layers of the pending frame, and those of the last frame, which are searched.\<close>

definition PFR_LFR_guac_display_plan_rewrite_as_copies ::
    "guac_display_layer list \<Rightarrow> guac_display_layer list \<Rightarrow> search_state \<Rightarrow> search_state outcome" where
  "PFR_LFR_guac_display_plan_rewrite_as_copies layers last_layers st =
    fold_outcome (search_layer layers) last_layers st"

section \<open>The rolling hash: specification\<close>

text \<open>The plain hash of a sequence, and of a window.\<close>

definition horner :: "hash \<Rightarrow> hash list \<Rightarrow> hash" where
  "horner h vs = foldl (\<lambda>h v. h * 62 + v) h vs"

definition window_hash :: "pixel list list \<Rightarrow> int \<Rightarrow> int \<Rightarrow> hash" where
  "window_hash rows x y = horner 0 (map (\<lambda>j. horner 0 (map ucast (take 64 (drop (nat x) (rows ! nat (y + int j)))))) [0..<64])"

lemma horner_append: "horner h (us @ vs) = horner (horner h us) vs"
  by (simp add: horner_def)

lemma horner_snoc: "horner h (vs @ [v]) = horner h vs * 62 + v"
  by (simp add: horner_def)

lemma horner_start: "horner h vs = h * 62 ^ length vs + horner 0 vs"
proof (induction vs rule: rev_induct)
  case Nil
  then show ?case by (simp add: horner_def)
next
  case (snoc v vs)
  have "horner h (vs @ [v]) = (h * 62 ^ length vs + horner 0 vs) * 62 + v" using snoc by (simp add: horner_snoc)
  also have "\<dots> = h * 62 ^ Suc (length vs) + (horner 0 vs * 62 + v)" by (simp add: algebra_simps)
  finally show ?case by (simp add: horner_snoc)
qed

text \<open>
  After 64 steps nothing is left of what came before: 62 is even, and \<open>62 ^ 64\<close> is a multiple of \<open>2 ^ 64\<close>.
\<close>

lemma word_62_power: "(62 :: hash) ^ 64 = 0"
proof -
  have "(62 :: hash) ^ 64 = (31 * 2) ^ 64" by simp
  also have "\<dots> = 31 ^ 64 * 2 ^ 64" by (rule power_mult_distrib)
  also have "(2 :: hash) ^ 64 = 0" by (simp add: exp_eq_zero_iff)
  finally show ?thesis by simp
qed

lemma horner_window:
  assumes "64 \<le> length vs"
  shows "horner h vs = horner 0 (drop (length vs - 64) vs)"
proof -
  have "horner h vs = horner (horner h (take (length vs - 64) vs)) (drop (length vs - 64) vs)"
    by (simp flip: horner_append)
  also have "\<dots> = horner 0 (drop (length vs - 64) vs)"
  proof -
    have len: "length (drop (length vs - 64) vs) = 64" using assms by simp
    show ?thesis
      unfolding horner_start [of "horner h (take (length vs - 64) vs)" "drop (length vs - 64) vs"] len word_62_power
      by (simp only: mult_zero_right add_0)
  qed
  finally show ?thesis .
qed

lemma hash_step: "push_bit 1 (h * 31) + v = h * 62 + v" for h v :: hash
  by (simp add: push_bit_eq_mult)

text \<open>One row: the new column hashes, and the calls of the callback.\<close>

definition row_hash_at :: "hash \<Rightarrow> pixel list \<Rightarrow> nat \<Rightarrow> hash" where
  "row_hash_at h row k = horner h (map ucast (take (Suc k) row))"

lemma hash_row_spec:
  "length row \<le> length hs \<Longrightarrow> hash_row callback rect y x row hs h s =
    (let hs' = map (\<lambda>k. hs ! k * 62 + row_hash_at h row k) [0..<length row] in
     Inr (hs' @ drop (length row) hs,
      foldl (\<lambda>s k. if y \<ge> rect_top rect \<and> x + int k \<ge> rect_left rect then callback (x + int k) y (hs' ! k) s else s)
        s [0..<length row]))"
proof (induction row arbitrary: x hs h s)
  case Nil
  then show ?case by (cases hs) simp_all
next
  case (Cons p row)
  then obtain c cs where hs: "hs = c # cs" "length row \<le> length cs" by (cases hs) auto
  let ?h = "h * 62 + ucast p"
  let ?s = "if y \<ge> rect_top rect \<and> x \<ge> rect_left rect then callback x y (c * 62 + ?h) s else s"
  let ?r = "map (\<lambda>k. cs ! k * 62 + row_hash_at ?h row k) [0..<length row]"
  have IH: "hash_row callback rect y (x + 1) row cs ?h ?s = Inr (?r @ drop (length row) cs,
      foldl (\<lambda>s k. if y \<ge> rect_top rect \<and> x + 1 + int k \<ge> rect_left rect then callback (x + 1 + int k) y (?r ! k) s else s)
        ?s [0..<length row])"
    using Cons.IH [OF hs(2), of "x + 1" ?h ?s] by (simp only: Let_def)
  have at: "row_hash_at h (p # row) 0 = ?h" "row_hash_at h (p # row) (Suc k) = row_hash_at ?h row k" for k
    by (simp_all add: row_hash_at_def horner_def)
  have up: "[0..<length (p # row)] = 0 # map Suc [0..<length row]" by (simp add: upt_conv_Cons map_Suc_upt del: upt_Suc)
  have "hash_row callback rect y x (p # row) (c # cs) h s = (case hash_row callback rect y (x + 1) row cs ?h ?s of
      Inl e \<Rightarrow> Inl e | Inr (hs', s') \<Rightarrow> Inr ((c * 62 + ?h) # hs', s'))"
    by (simp only: hash_row.simps Let_def hash_step)
  then show ?case
    unfolding up hs(1) IH Let_def
    by (simp only: list.map map_map comp_def foldl_map foldl.simps at nth_Cons_0 nth_Cons_Suc append_Cons drop_Suc_Cons
        list.size(4) Nat.add_0_right add_Suc_right prod.case sum.case of_nat_0 add_0_right of_nat_Suc add.assoc [symmetric]) simp
qed

text \<open>All rows: the hash of a column after \<open>m\<close> rows, and the callbacks so far.\<close>

definition column_hash :: "pixel list list \<Rightarrow> nat \<Rightarrow> nat \<Rightarrow> hash" where
  "column_hash rs m k = horner 0 (map (\<lambda>j. row_hash_at 0 (rs ! j) k) [0..<m])"

definition callbacks :: "(int \<Rightarrow> int \<Rightarrow> hash \<Rightarrow> 's \<Rightarrow> 's) \<Rightarrow> guac_rect \<Rightarrow> int \<Rightarrow> int \<Rightarrow> pixel list list \<Rightarrow> nat \<Rightarrow> nat \<Rightarrow> 's \<Rightarrow> 's" where
  "callbacks callback rect x0 y0 rs w m s = foldl (\<lambda>s j. foldl (\<lambda>s k.
      if y0 + int j \<ge> rect_top rect \<and> x0 + int k \<ge> rect_left rect
      then callback (x0 + int k) (y0 + int j) (column_hash rs (Suc j) k) s else s) s [0..<w]) s [0..<m]"

lemma fold_outcome_cong: "(\<And>x s. x \<in> set xs \<Longrightarrow> f x s = g x s) \<Longrightarrow> fold_outcome f xs s = fold_outcome g xs s"
  by (induction xs arbitrary: s) (auto split: sum.splits)

lemma fold_outcome_inv:
  assumes "I s" "\<And>x s. x \<in> set xs \<Longrightarrow> I s \<Longrightarrow> \<exists>s'. f x s = Inr s' \<and> I s'"
  shows "\<exists>s'. fold_outcome f xs s = Inr s' \<and> I s'"
  using assms
proof (induction xs arbitrary: s)
  case (Cons x xs)
  then obtain s1 where s1: "f x s = Inr s1" "I s1" by (metis list.set_intros(1))
  have "\<exists>s'. fold_outcome f xs s1 = Inr s' \<and> I s'" using Cons.prems(2) by (intro Cons.IH s1(2)) simp_all
  then show ?case using s1 by simp
qed simp

lemma hash_rows:
  assumes "w \<le> n" "\<forall>j < m. length (rs ! j) = w"
  shows "fold_outcome (\<lambda>j (hs, s). hash_row callback rect (y0 + int j) x0 (rs ! j) hs 0 s) [0..<m] (replicate n 0, s) =
    Inr (map (column_hash rs m) [0..<w] @ replicate (n - w) 0, callbacks callback rect x0 y0 rs w m s)"
  using assms(2)
proof (induction m)
  case 0
  have "map (column_hash rs 0) [0..<w] = replicate w 0"
    by (intro nth_equalityI) (simp_all add: column_hash_def horner_def)
  then show ?case using assms(1) by (simp add: callbacks_def flip: replicate_add)
next
  case (Suc m)
  let ?hs = "map (column_hash rs m) [0..<w] @ replicate (n - w) 0"
  have len: "length (rs ! m) = w" using Suc.prems by simp
  have new: "map (\<lambda>k. ?hs ! k * 62 + row_hash_at 0 (rs ! m) k) [0..<w] = map (column_hash rs (Suc m)) [0..<w]"
    by (intro nth_equalityI) (simp_all add: column_hash_def horner_snoc nth_append)
  have "hash_row callback rect (y0 + int m) x0 (rs ! m) ?hs 0 s' =
      Inr (map (column_hash rs (Suc m)) [0..<w] @ replicate (n - w) 0,
       foldl (\<lambda>s k. if y0 + int m \<ge> rect_top rect \<and> x0 + int k \<ge> rect_left rect
         then callback (x0 + int k) (y0 + int m) (map (column_hash rs (Suc m)) [0..<w] ! k) s else s) s' [0..<w])" for s'
    using hash_row_spec [of "rs ! m" ?hs callback rect "y0 + int m" x0 0 s'] len new by (simp add: Let_def)
  moreover have "foldl (\<lambda>s k. if y0 + int m \<ge> rect_top rect \<and> x0 + int k \<ge> rect_left rect
         then callback (x0 + int k) (y0 + int m) (map (column_hash rs (Suc m)) [0..<w] ! k) s else s) s' [0..<w] =
      foldl (\<lambda>s k. if y0 + int m \<ge> rect_top rect \<and> x0 + int k \<ge> rect_left rect
         then callback (x0 + int k) (y0 + int m) (column_hash rs (Suc m) k) s else s) s' [0..<w]" for s'
    by (rule foldl_cong) auto
  ultimately show ?case using Suc by (simp add: callbacks_def fold_outcome_append)
qed


lemma foldl_guarded: "foldl (\<lambda>s k. if P k then f k s else s) s ks = foldl (\<lambda>s k. f k s) s (filter P ks)"
  by (induction ks arbitrary: s) simp_all

lemma foldl_idle: "foldl (\<lambda>s k. s) s ks = s"
  by (induction ks) simp_all

lemma upto_upt: "[a..b] = map (\<lambda>j. a + int j) [0..<nat (b - a + 1)]"
  by (intro nth_equalityI) simp_all

lemma filter_upt_ge: "filter (\<lambda>k. n \<le> k) [0..<m] = [n..<m]"
proof (induction m)
  case (Suc m)
  then show ?case by (cases "n \<le> m") auto
qed simp

text \<open>The positions of the upper-left corners of the windows in an interval.\<close>

lemma foldl_windows:
  assumes "x0 = l - 63"
  shows "foldl (\<lambda>s k. if l \<le> x0 + int k then f (x0 + int k) s else s) s [0..<w] = foldl (\<lambda>s x. f x s) s [l..l + int w - 64]"
proof -
  have "filter (\<lambda>k. l \<le> x0 + int k) [0..<w] = [63..<w]"
    unfolding assms filter_upt_ge [of 63 w, symmetric] by (rule filter_cong) auto
  moreover have "map (\<lambda>k. x0 + int k) [63..<w] = [l..l + int w - 64]"
    by (intro nth_equalityI) (use assms in auto)
  moreover have "foldl (\<lambda>s k. if l \<le> x0 + int k then f (x0 + int k) s else s) s [0..<w] =
      foldl (\<lambda>s x. f x s) s (map (\<lambda>k. x0 + int k) (filter (\<lambda>k. l \<le> x0 + int k) [0..<w]))"
    by (simp add: foldl_guarded foldl_map)
  ultimately show ?thesis by simp
qed

lemma row_hash_window:
  assumes "63 \<le> k" "k < w" "w \<le> length (drop l row)"
  shows "row_hash_at 0 (take w (drop l row)) k = horner 0 (map ucast (take 64 (drop (l + k - 63) row)))"
proof -
  let ?vs = "map ucast (take (Suc k) (take w (drop l row))) :: hash list"
  have len: "length ?vs = Suc k" using assms by simp
  have "drop (k - 63) (take (Suc k) (drop l row)) = take 64 (drop (l + k - 63) row)"
    using assms(1) by (simp add: drop_take add.commute)
  then have "drop (length ?vs - 64) ?vs = map ucast (take 64 (drop (l + k - 63) row))"
    unfolding len using assms by (simp add: drop_map min_def)
  moreover have "horner 0 ?vs = horner 0 (drop (length ?vs - 64) ?vs)"
    by (rule horner_window) (unfold len, use assms(1) in simp)
  ultimately show ?thesis by (simp add: row_hash_at_def)
qed

lemma column_hash_window:
  assumes "63 \<le> j" "63 \<le> k" "k < w" "j < length rs" "0 \<le> l" "0 \<le> t"
    and "\<And>i. i < length rs \<Longrightarrow> rs ! i = take w (drop (nat l) (rows ! nat (t + int i))) \<and>
      w \<le> length (drop (nat l) (rows ! nat (t + int i)))"
  shows "column_hash rs (Suc j) k = window_hash rows (l - 63 + int k) (t - 63 + int j)"
proof -
  let ?vs = "map (\<lambda>i. row_hash_at 0 (rs ! i) k) [0..<Suc j]"
  have at: "row_hash_at 0 (rs ! (j - 63 + i)) k =
      horner 0 (map ucast (take 64 (drop (nat (l - 63 + int k)) (rows ! nat (t - 63 + int j + int i)))))" if "i < 64" for i
  proof -
    have i: "j - 63 + i < length rs" using that assms(1, 4) by simp
    have e: "nat l + k - 63 = nat (l - 63 + int k)" "t + int (j - 63 + i) = t - 63 + int j + int i"
      using assms(1, 2, 5) by (simp_all add: nat_diff_distrib of_nat_diff)
    show ?thesis
      using row_hash_window [OF assms(2, 3), of "nat l" "rows ! nat (t + int (j - 63 + i))"] assms(7) [OF i]
      unfolding e by simp
  qed
  have "column_hash rs (Suc j) k = horner 0 (drop (length ?vs - 64) ?vs)"
    unfolding column_hash_def using assms(1) by (intro horner_window) simp
  also have "drop (length ?vs - 64) ?vs = map (\<lambda>i. row_hash_at 0 (rs ! (j - 63 + i)) k) [0..<64]"
    by (intro nth_equalityI) (use assms(1) in \<open>auto simp: nth_upt less_Suc_eq_le simp del: upt_Suc\<close>)
  also have "\<dots> = map (\<lambda>i. horner 0 (map ucast (take 64 (drop (nat (l - 63 + int k)) (rows ! nat (t - 63 + int j + int i)))))) [0..<64]"
    by (intro map_cong refl at) simp
  finally show ?thesis by (simp add: window_hash_def)
qed

text \<open>The reference: every window of the rectangle, row by row, with the hash of its pixels.\<close>

definition foreach_window ::
    "pixel list list \<Rightarrow> guac_rect \<Rightarrow> (int \<Rightarrow> int \<Rightarrow> hash \<Rightarrow> 's \<Rightarrow> 's) \<Rightarrow> 's \<Rightarrow> 's" where
  "foreach_window rows rect callback s = foldl (\<lambda>s y. foldl (\<lambda>s x. callback x y (window_hash rows x y) s) s
     [rect_left rect..rect_right rect - 64]) s [rect_top rect..rect_bottom rect - 64]"

lemma hash_foreach_windows:
  assumes "0 \<le> rect_left rect" "0 \<le> rect_top rect" "rect_right rect - rect_left rect \<le> int GUAC_DISPLAY_MAX_WIDTH"
    and rows: "\<And>y. rect_top rect \<le> y \<Longrightarrow> y < rect_bottom rect \<Longrightarrow> rect_right rect \<le> int (length (rows ! nat y))"
  shows "guac_hash_foreach_image_rect rows rect callback s = Inr (foreach_window rows rect callback s)"
proof -
  let ?l = "rect_left rect" and ?t = "rect_top rect"
  define w where "w = nat (rect_right rect - ?l)"
  define h where "h = nat (rect_bottom rect - ?t)"
  define rs where "rs = map (\<lambda>j. take w (drop (nat ?l) (rows ! nat (?t + int j)))) [0..<h]"
  have rs: "rs ! j = take w (drop (nat ?l) (rows ! nat (?t + int j)))" "w \<le> length (drop (nat ?l) (rows ! nat (?t + int j)))"
    if "j < h" for j
  proof -
    have "rect_right rect \<le> int (length (rows ! nat (?t + int j)))" using that by (intro rows) (simp_all add: h_def)
    then show "w \<le> length (drop (nat ?l) (rows ! nat (?t + int j)))"
      using assms(1) by (simp add: w_def nat_le_iff)
  qed (use that in \<open>simp add: rs_def\<close>)
  have len: "length rs = h" by (simp add: rs_def)
  have steps: "nat (rect_bottom rect - 64 - (?t - 63) + 1) = h" by (simp add: h_def)
  have "fold_outcome (\<lambda>y (hs, s). hash_row callback rect y (?l - 63)
        (take w (drop (nat ?l) (rows ! nat (?t + (y - (?t - 63)))))) hs 0 s) [?t - 63..rect_bottom rect - 64] st =
      fold_outcome (\<lambda>j (hs, s). hash_row callback rect (?t - 63 + int j) (?l - 63) (rs ! j) hs 0 s) [0..<h] st" for st
    unfolding upto_upt steps fold_outcome_map by (rule fold_outcome_cong) (simp add: rs(1) split: prod.split)
  then have "guac_hash_foreach_image_rect rows rect callback s =
      (case fold_outcome (\<lambda>j (hs, s). hash_row callback rect (?t - 63 + int j) (?l - 63) (rs ! j) hs 0 s)
        [0..<h] (replicate GUAC_DISPLAY_MAX_WIDTH 0, s) of Inl e \<Rightarrow> Inl e | Inr (hs, s) \<Rightarrow> Inr s)"
    by (simp add: guac_hash_foreach_image_rect_def Let_def GUAC_DISPLAY_CELL_SIZE_def w_def)
  also have "\<dots> = Inr (callbacks callback rect (?l - 63) (?t - 63) rs w h s)"
    using hash_rows [of w GUAC_DISPLAY_MAX_WIDTH h rs callback rect "?t - 63" "?l - 63" s] rs assms(3)
    by (simp add: w_def)
  also have "callbacks callback rect (?l - 63) (?t - 63) rs w h s = foreach_window rows rect callback s"
  proof -
    have inner: "foldl (\<lambda>s k. if ?t - 63 + int j \<ge> ?t \<and> ?l - 63 + int k \<ge> ?l
          then callback (?l - 63 + int k) (?t - 63 + int j) (column_hash rs (Suc j) k) s else s) s [0..<w] =
        (if ?t \<le> ?t - 63 + int j then foldl (\<lambda>s x. callback x (?t - 63 + int j) (window_hash rows x (?t - 63 + int j)) s) s
          [?l..?l + int w - 64] else s)" if "j < h" for j s
    proof (cases "?t \<le> ?t - 63 + int j")
      case True
      have hash: "column_hash rs (Suc j) k = window_hash rows (?l - 63 + int k) (?t - 63 + int j)" if "63 \<le> k" "k < w" for k
        using True \<open>j < h\<close> that assms(1, 2)
        by (intro column_hash_window [where w = w] conjI rs) (simp_all add: len)
      have "foldl (\<lambda>s k. if ?t - 63 + int j \<ge> ?t \<and> ?l - 63 + int k \<ge> ?l
          then callback (?l - 63 + int k) (?t - 63 + int j) (column_hash rs (Suc j) k) s else s) s [0..<w] =
        foldl (\<lambda>s k. if ?l \<le> ?l - 63 + int k
          then callback (?l - 63 + int k) (?t - 63 + int j) (window_hash rows (?l - 63 + int k) (?t - 63 + int j)) s else s) s [0..<w]"
        using True hash by (intro foldl_cong) auto
      also have "\<dots> = foldl (\<lambda>s x. callback x (?t - 63 + int j) (window_hash rows x (?t - 63 + int j)) s) s [?l..?l + int w - 64]"
        by (rule foldl_windows) simp
      finally show ?thesis using True by simp
    next
      case False
      then show ?thesis by (simp add: foldl_idle)
    qed
    have "callbacks callback rect (?l - 63) (?t - 63) rs w h s = foldl (\<lambda>s j. if ?t \<le> ?t - 63 + int j then
        foldl (\<lambda>s x. callback x (?t - 63 + int j) (window_hash rows x (?t - 63 + int j)) s) s [?l..?l + int w - 64] else s) s [0..<h]"
      unfolding callbacks_def by (rule foldl_cong [OF refl refl], rule inner) simp
    also have "\<dots> = foldl (\<lambda>s y. foldl (\<lambda>s x. callback x y (window_hash rows x y) s) s [?l..?l + int w - 64]) s [?t..?t + int h - 64]"
      by (rule foldl_windows) simp
    also have "[?l..?l + int w - 64] = [?l..rect_right rect - 64]"
      by (cases "?l \<le> rect_right rect") (simp_all add: w_def)
    also have "[?t..?t + int h - 64] = [?t..rect_bottom rect - 64]"
      by (cases "?t \<le> rect_bottom rect") (simp_all add: h_def)
    finally show ?thesis unfolding foreach_window_def .
  qed
  finally show ?thesis .
qed

lemma foreach_window_inv:
  assumes "I s"
    and "\<And>x y h s. rect_left rect \<le> x \<Longrightarrow> x + 64 \<le> rect_right rect \<Longrightarrow> rect_top rect \<le> y \<Longrightarrow> y + 64 \<le> rect_bottom rect \<Longrightarrow>
      I s \<Longrightarrow> I (callback x y h s)"
  shows "I (foreach_window rows rect callback s)"
proof -
  have fold: "I (foldl f s ks)" if "I s" "\<And>k s. k \<in> set ks \<Longrightarrow> I s \<Longrightarrow> I (f s k)" for f :: "'a \<Rightarrow> int \<Rightarrow> 'a" and s ks
    using that by (induction ks arbitrary: s) auto
  show ?thesis unfolding foreach_window_def by (intro fold assms) auto
qed

section \<open>Copies: specification\<close>

definition cell_of :: "guac_display_plan_operation \<Rightarrow> guac_rect" where
  "cell_of oper = guac_display_cell_init_rect (rect_left (op_dest oper)) (rect_top (op_dest oper))"

text \<open>
  The comparison of image data includes the alpha bytes that opaque layers ignore; a source layer
  must agree with the layers it is copied to about what they mean.
\<close>

definition alpha_agree :: "guac_display_layer \<Rightarrow> guac_display_layer \<Rightarrow> bool" where
  "alpha_agree l l' \<longleftrightarrow> layer_opaque l = layer_opaque l' \<or>
     (\<forall>row \<in> set (rows_of (layer_last_frame l')). \<forall>p \<in> set row. p OR 0xFF000000 = p)"

text \<open>
  The frame \<open>L\<close> holds, by the numbers of their buffers, what the layers looked like in the last frame.
\<close>

definition shows_last :: "frame \<Rightarrow> guac_display_layer \<Rightarrow> bool" where
  "shows_last L l \<longleftrightarrow> (\<forall>x y. (x, y) \<in> box 0 0 (state_width (layer_last_frame l)) (state_height (layer_last_frame l)) \<longrightarrow>
     L (layer_last_frame_buffer l) (x, y) = visible l (rows_of (layer_last_frame l) ! nat y ! nat x))"

text \<open>
  The layers that are searched for the operations \<open>ops\<close>. Only layers that an operation draws to have
  to agree with them about alpha.
\<close>

definition sources_ok ::
    "frame \<Rightarrow> guac_display_layer list \<Rightarrow> guac_display_layer list \<Rightarrow> guac_display_plan_operation list \<Rightarrow> bool" where
  "sources_ok L layers last_layers ops \<longleftrightarrow>
     (\<forall>l' \<in> set last_layers. state_search_for_copies (layer_pending_frame l') \<longrightarrow>
        buffer_ok (layer_last_frame l') \<and> state_width (layer_last_frame l') \<le> 8192 \<and>
        state_height (layer_last_frame l') \<le> 8192 \<and> shows_last L l' \<and>
        (\<forall>l \<in> set layers. layer_number l \<in> op_layer ` set ops \<longrightarrow> alpha_agree l l'))"

text \<open>
  What the search itself relies on. A layer whose last frame is smaller than a cell has no window, and
  one whose pending frame is smaller no cell that could become a copy: only larger ones matter. \<open>K\<close> says
  that there may be copies, and \<open>C\<close> that they must be correct, for which the meaning of the alpha bytes
  has to be the same where equal pixels occur.
\<close>

definition holds_cell :: "guac_display_layer_state \<Rightarrow> bool" where
  "holds_cell st \<longleftrightarrow> 64 \<le> state_width st \<and> 64 \<le> state_height st"

definition state_pixels :: "guac_display_layer_state \<Rightarrow> pixel set" where
  "state_pixels st = {rows_of st ! nat y ! nat x | x y. (x, y) \<in> box 0 0 (state_width st) (state_height st)}"

definition alpha_fits :: "guac_display_layer \<Rightarrow> guac_display_layer \<Rightarrow> bool" where
  "alpha_fits l l' \<longleftrightarrow> (\<forall>p \<in> state_pixels (layer_last_frame l') \<inter> state_pixels (layer_pending_frame l). visible l p = visible l' p)"

definition sources_fit ::
    "bool \<Rightarrow> bool \<Rightarrow> frame \<Rightarrow> guac_display_layer list \<Rightarrow> guac_display_layer list \<Rightarrow> guac_display_plan_operation list \<Rightarrow> bool" where
  "sources_fit C K L layers last_layers ops \<longleftrightarrow>
     (\<forall>l' \<in> set last_layers. state_search_for_copies (layer_pending_frame l') \<longrightarrow>
        buffer_ok (layer_last_frame l') \<and> state_width (layer_last_frame l') \<le> 8192 \<and> state_height (layer_last_frame l') \<le> 8192 \<and>
        (holds_cell (layer_last_frame l') \<longrightarrow> K \<and> (C \<longrightarrow> shows_last L l' \<and>
          (\<forall>l \<in> set layers. layer_number l \<in> op_layer ` set ops \<and> holds_cell (layer_pending_frame l) \<longrightarrow> alpha_fits l l'))))"

lemma state_pixelsI: "(x, y) \<in> box 0 0 (state_width st) (state_height st) \<Longrightarrow> rows_of st ! nat y ! nat x \<in> state_pixels st"
  by (auto simp: state_pixels_def)

lemma state_pixels_rows:
  assumes "buffer_ok st" "p \<in> state_pixels st"
  shows "\<exists>row \<in> set (rows_of st). p \<in> set row"
proof -
  obtain x y where p: "p = rows_of st ! nat y ! nat x" "(x, y) \<in> box 0 0 (state_width st) (state_height st)"
    using assms(2) by (auto simp: state_pixels_def)
  then have y: "nat y < length (rows_of st)" using assms(1) by (auto simp: buffer_ok_def box_def)
  then have "state_width st \<le> int (length (rows_of st ! nat y))" using assms(1) by (simp add: buffer_ok_def)
  then have "nat x < length (rows_of st ! nat y)" using p(2) by (auto simp: box_def)
  then show ?thesis using p(1) y by (meson nth_mem)
qed

lemma sources_ok_fit:
  assumes "sources_ok L layers last_layers ops"
  shows "sources_fit True True L layers last_layers ops"
proof -
  have "alpha_fits l l'" if "alpha_agree l l'" "buffer_ok (layer_last_frame l')" for l l'
    using that state_pixels_rows [OF that(2)] by (fastforce simp: alpha_fits_def alpha_agree_def visible_def)
  then show ?thesis using assms by (auto simp: sources_fit_def sources_ok_def)
qed

text \<open>Operations that lie in one cell each, no two in the same one.\<close>

definition ops_in_cells :: "guac_display_plan_operation list \<Rightarrow> bool" where
  "ops_in_cells ops \<longleftrightarrow> distinct (map op_key ops) \<and>
     (\<forall>oper \<in> set ops. within (op_dest oper) (cell_of oper) \<and> 0 \<le> rect_left (op_dest oper) \<and> 0 \<le> rect_top (op_dest oper) \<and>
        rect_left (op_dest oper) < 8192 \<and> rect_top (op_dest oper) < 8192 \<and>
        uint (op_dirty_size oper) \<le> 4096 \<and>
        (op_type oper = GUAC_DISPLAY_PLAN_OPERATION_COPY \<longrightarrow> op_dest oper = cell_of oper))"

definition indexed_ok :: "guac_display_layer list \<Rightarrow> guac_display_plan_operation \<Rightarrow> bool" where
  "indexed_ok layers oper \<longleftrightarrow> op_type oper \<noteq> GUAC_DISPLAY_PLAN_OPERATION_NOP \<and>
     (\<exists>l \<in> set layers. layer_of layers (op_layer oper) = Some l \<and> buffer_ok (layer_pending_frame l) \<and>
        inside (cell_of oper) (layer_pending_frame l))"

definition table_ok :: "guac_display_layer list \<Rightarrow> op_index \<Rightarrow> guac_display_plan_operation list \<Rightarrow> bool" where
  "table_ok layers table ops \<longleftrightarrow> (\<forall>k i h. table k = Some (i, h) \<longrightarrow> i < length ops \<and> indexed_ok layers (ops ! i))"

lemma cell_init_rect_eq:
  assumes "0 \<le> x" "x < 8192" "0 \<le> y" "y < 8192"
  shows "guac_display_cell_init_rect x y = \<lparr>rect_left = 64 * (x div 64), rect_top = 64 * (y div 64),
    rect_right = 64 * (x div 64) + 64, rect_bottom = 64 * (y div 64) + 64\<rparr>"
proof -
  have "64 * (x div 64) \<le> x" "64 * (y div 64) \<le> y" "0 \<le> x div 64" "0 \<le> y div 64" using assms by auto
  then show ?thesis using assms
    by (simp add: guac_display_cell_init_rect_def GUAC_DISPLAY_CELL_SIZE_def Let_def sdiv_pos guac_rect_init_def wrap32_eq)
qed

lemma cell_of_eq:
  assumes "0 \<le> rect_left (op_dest oper)" "0 \<le> rect_top (op_dest oper)" "rect_left (op_dest oper) < 8192" "rect_top (op_dest oper) < 8192"
  shows "cell_of oper = (case op_key oper of (_, x, y) \<Rightarrow> \<lparr>rect_left = 64 * x, rect_top = 64 * y,
    rect_right = 64 * x + 64, rect_bottom = 64 * y + 64\<rparr>)"
  using cell_init_rect_eq [of "rect_left (op_dest oper)" "rect_top (op_dest oper)"] assms
  by (simp add: cell_of_def op_key_def)

text \<open>Comparing two regions compares their pixels.\<close>

lemma image_cmp_pixels:
  assumes "guac_image_cmp rows_a x_a y_a rows_b x_b y_b 64 64"
    and "0 \<le> x_a" "0 \<le> x_b" "0 \<le> dx" "dx < 64" "0 \<le> dy" "dy < 64"
    and "x_a + 64 \<le> int (length (rows_a ! nat (y_a + dy)))" "x_b + 64 \<le> int (length (rows_b ! nat (y_b + dy)))"
  shows "rows_a ! nat (y_a + dy) ! nat (x_a + dx) = rows_b ! nat (y_b + dy) ! nat (x_b + dx)"
proof -
  have "take 64 (drop (nat x_a) (rows_a ! nat (y_a + dy))) = take 64 (drop (nat x_b) (rows_b ! nat (y_b + dy)))"
    using assms(1, 6, 7) by (simp add: guac_image_cmp_def list_all_iff)
  then have "take 64 (drop (nat x_a) (rows_a ! nat (y_a + dy))) ! nat dx = take 64 (drop (nat x_b) (rows_b ! nat (y_b + dy))) ! nat dx"
    by simp
  then show ?thesis using assms(2-5, 8, 9) by (simp add: nat_add_distrib)
qed


lemma find_unique_key: "distinct (map f xs) \<Longrightarrow> x \<in> set xs \<Longrightarrow> find (\<lambda>y. f y = f x) xs = Some x"
  by (induction xs) auto

lemma row_length:
  assumes "buffer_ok st" "0 \<le> y" "y < state_height st"
  shows "nat y < length (rows_of st)" "state_width st \<le> int (length (rows_of st ! nat y))"
proof -
  show "nat y < length (rows_of st)" using assms by (auto simp: buffer_ok_def)
  then show "state_width st \<le> int (length (rows_of st ! nat y))" using assms(1) by (simp add: buffer_ok_def)
qed

lemma op_in_cell:
  assumes "ops_in_cells ops" "oper \<in> set ops"
  shows "cell_of oper = (case op_key oper of (_, x, y) \<Rightarrow> \<lparr>rect_left = 64 * x, rect_top = 64 * y,
      rect_right = 64 * x + 64, rect_bottom = 64 * y + 64\<rparr>)"
    and "within (op_dest oper) (cell_of oper)" "uint (op_dirty_size oper) \<le> 4096"
    and "op_type oper = GUAC_DISPLAY_PLAN_OPERATION_COPY \<Longrightarrow> op_dest oper = cell_of oper"
  using assms cell_of_eq [of oper] by (auto simp: ops_in_cells_def)

definition copy_of :: "guac_display_layer \<Rightarrow> int \<Rightarrow> int \<Rightarrow> guac_display_plan_operation \<Rightarrow> guac_display_plan_operation" where
  "copy_of source x y oper = oper\<lparr>op_type := GUAC_DISPLAY_PLAN_OPERATION_COPY,
     op_src_layer := layer_last_frame_buffer source,
     op_src_rect := \<lparr>rect_left = x, rect_top = y, rect_right = x + 64, rect_bottom = y + 64\<rparr>, op_dest := cell_of oper\<rparr>"

lemma copy_of_fields [simp]:
  "op_type (copy_of source x y oper) = GUAC_DISPLAY_PLAN_OPERATION_COPY" "op_dest (copy_of source x y oper) = cell_of oper"
  "op_layer (copy_of source x y oper) = op_layer oper" "op_dirty_size (copy_of source x y oper) = op_dirty_size oper"
  by (simp_all add: copy_of_def)

lemma copy_of_key:
  assumes "ops_in_cells ops" "oper \<in> set ops"
  shows "op_key (copy_of source x y oper) = op_key oper" "cell_of (copy_of source x y oper) = cell_of oper"
proof -
  obtain l a b where k: "op_key oper = (l, a, b)" by (cases "op_key oper") auto
  note c = op_in_cell(1) [OF assms, unfolded k prod.case]
  show key: "op_key (copy_of source x y oper) = op_key oper" using c k by (simp add: op_key_def)
  have "0 \<le> rect_left (op_dest oper)" "0 \<le> rect_top (op_dest oper)" "rect_left (op_dest oper) < 8192" "rect_top (op_dest oper) < 8192"
    "within (op_dest oper) (cell_of oper)"
    using assms by (auto simp: ops_in_cells_def)
  moreover from this(1-4) have "0 \<le> a" "0 \<le> b" "64 * a < 8192" "64 * b < 8192" using k by (auto simp: op_key_def)
  ultimately show "cell_of (copy_of source x y oper) = cell_of oper"
    using cell_of_eq [of "copy_of source x y oper"] c key k by simp
qed

text \<open>Operations in different cells do not overlap.\<close>

lemma cells_disjoint:
  assumes "ops_in_cells ops" "a \<in> set ops" "b \<in> set ops" "op_key a \<noteq> op_key b" "op_layer a = op_layer b"
  shows "rect_area (cell_of a) \<inter> rect_area (cell_of b) = {}"
  using op_in_cell(1) [OF assms(1, 2)] op_in_cell(1) [OF assms(1, 3)] assms(4, 5)
  by (auto simp: op_key_def rect_area_def box_def)

lemma copy_correct:
  assumes cells: "ops_in_cells ops" "oper \<in> set ops" "op_layer oper \<in> op_layer ` set ops0" and ix: "indexed_ok layers oper"
    and src: "sources_fit True K L layers last_layers ops0" "source \<in> set last_layers" "state_search_for_copies (layer_pending_frame source)"
    and win: "0 \<le> x" "x + 64 \<le> state_width (layer_last_frame source)" "0 \<le> y" "y + 64 \<le> state_height (layer_last_frame source)"
    and cmp: "\<And>l. layer_of layers (op_layer oper) = Some l \<Longrightarrow> guac_image_cmp (rows_of (layer_last_frame source)) x y
      (rows_of (layer_pending_frame l)) (rect_left (cell_of oper)) (rect_top (cell_of oper)) 64 64"
  shows "op_correct (pending_frame layers) L (copy_of source x y oper)"
proof -
  obtain l where l: "l \<in> set layers" "layer_of layers (op_layer oper) = Some l" "buffer_ok (layer_pending_frame l)"
    "inside (cell_of oper) (layer_pending_frame l)" using ix by (auto simp: indexed_ok_def)
  obtain k a b where k: "op_key oper = (k, a, b)" by (cases "op_key oper") auto
  note c = op_in_cell(1) [OF cells(1, 2), unfolded k prod.case]
  have in_l: "0 \<le> a" "0 \<le> b" "64 * a + 64 \<le> state_width (layer_pending_frame l)" "64 * b + 64 \<le> state_height (layer_pending_frame l)"
    using l(4) c by (auto simp: inside_def on_screen_def)
  have "layer_number l = op_layer oper" using l(2) by (auto simp: layer_of_def find_Some_iff)
  moreover have "holds_cell (layer_last_frame source)" "holds_cell (layer_pending_frame l)" using win in_l by (simp_all add: holds_cell_def)
  ultimately have ok: "buffer_ok (layer_last_frame source)" "alpha_fits l source" "shows_last L source"
    using src l(1) cells(3) by (auto simp: sources_fit_def)
  have "pending_frame layers (op_layer oper) (u, v) = L (layer_last_frame_buffer source)
      (u - (64 * a - x), v - (64 * b - y))" if "(u, v) \<in> rect_area (cell_of oper)" for u v
  proof -
    define dx dy where "dx = u - 64 * a" and "dy = v - 64 * b"
    have d: "0 \<le> dx" "dx < 64" "0 \<le> dy" "dy < 64" using that c by (auto simp: dx_def dy_def rect_area_def box_def)
    have row: "x + 64 \<le> int (length (rows_of (layer_last_frame source) ! nat (y + dy)))"
      "64 * a + 64 \<le> int (length (rows_of (layer_pending_frame l) ! nat (64 * b + dy)))"
      "nat (y + dy) < length (rows_of (layer_last_frame source))"
      using row_length [OF ok(1), of "y + dy"] row_length [OF l(3), of "64 * b + dy"] win in_l d by auto
    have eq: "rows_of (layer_last_frame source) ! nat (y + dy) ! nat (x + dx) =
        rows_of (layer_pending_frame l) ! nat (64 * b + dy) ! nat (64 * a + dx)"
      using image_cmp_pixels [OF cmp [OF l(2)] win(1)] c in_l d row by simp
    have "rows_of (layer_last_frame source) ! nat (y + dy) ! nat (x + dx) \<in> state_pixels (layer_last_frame source)"
      "rows_of (layer_pending_frame l) ! nat (64 * b + dy) ! nat (64 * a + dx) \<in> state_pixels (layer_pending_frame l)"
      using win in_l d by (auto intro!: state_pixelsI simp: box_def)
    then have "visible l (rows_of (layer_last_frame source) ! nat (y + dy) ! nat (x + dx)) =
        visible source (rows_of (layer_last_frame source) ! nat (y + dy) ! nat (x + dx))"
      using ok(2) eq by (auto simp: alpha_fits_def)
    moreover have "L (layer_last_frame_buffer source) (x + dx, y + dy) =
        visible source (rows_of (layer_last_frame source) ! nat (y + dy) ! nat (x + dx))"
      using ok(3) win d by (simp add: shows_last_def box_def)
    ultimately show ?thesis using l(2) eq by (simp add: pending_frame_def dx_def dy_def algebra_simps)
  qed
  then show ?thesis using c by (auto simp: op_correct_def copy_of_def)
qed

text \<open>One operation becomes a copy: the plan stays sound and draws at least as much.\<close>

definition search_good ::
    "bool \<Rightarrow> bool \<Rightarrow> frame \<Rightarrow> guac_display_layer list \<Rightarrow> guac_display_plan_operation list \<Rightarrow> search_state \<Rightarrow> bool" where
  "search_good C K L layers ops0 st = (case st of (table, ops) \<Rightarrow>
     table_ok layers table ops \<and> ops_in_cells ops \<and> list_all op_wf ops \<and>
     (C \<longrightarrow> list_all (op_correct (pending_frame layers) L) ops) \<and>
     list_all (\<lambda>oper. op_type oper = GUAC_DISPLAY_PLAN_OPERATION_COPY \<longrightarrow> K) ops \<and>
     improves ops0 ops \<and> live ops = live ops0 \<and> map op_layer ops = map op_layer ops0 \<and>
     (\<forall>i < length ops. op_dest (ops ! i) = op_dest (ops0 ! i) \<or> indexed_ok layers (ops ! i) \<and> op_dest (ops ! i) = cell_of (ops ! i)))"

lemma list_all_update: "list_all P xs \<Longrightarrow> P x \<Longrightarrow> list_all P (xs[i := x])"
  using set_update_subset_insert [of xs i x] by (auto simp: list_all_iff)

lemma update_op_improves:
  assumes "i < length ops" "op_type (ops ! i) \<noteq> GUAC_DISPLAY_PLAN_OPERATION_NOP" "op_type oper \<noteq> GUAC_DISPLAY_PLAN_OPERATION_NOP"
    and "op_layer oper = op_layer (ops ! i)" "rect_area (op_dest (ops ! i)) \<subseteq> rect_area (op_dest oper)"
  shows "live (ops[i := oper]) = live ops" "improves ops (ops[i := oper])"
proof -
  show live: "live (ops[i := oper]) = live ops" using assms(1-3) by (auto simp: live_def nth_list_update)
  have "drawn ops l \<subseteq> drawn (ops[i := oper]) l" for l
    unfolding drawn_def live using assms(1, 4, 5) by (fastforce simp: nth_list_update)
  then show "improves ops (ops[i := oper])" using live by (simp add: improves_def)
qed

lemma copies_apart_cells:
  assumes "ops_in_cells ops"
  shows "copies_apart ops"
proof -
  have "rect_area (op_dest (ops ! i)) \<inter> rect_area (op_dest (ops ! j)) = {}"
    if "i < length ops" "j < length ops" "i \<noteq> j" "op_type (ops ! i) = GUAC_DISPLAY_PLAN_OPERATION_COPY"
      "op_type (ops ! j) = GUAC_DISPLAY_PLAN_OPERATION_COPY" "op_layer (ops ! i) = op_layer (ops ! j)" for i j
  proof -
    have "op_key (ops ! i) \<noteq> op_key (ops ! j)"
      using assms that(1-3) by (auto simp: ops_in_cells_def distinct_conv_nth)
    then show ?thesis
      using cells_disjoint [OF assms nth_mem [OF that(1)] nth_mem [OF that(2)]] that op_in_cell(4) [OF assms nth_mem] by simp
  qed
  then show ?thesis by (simp add: copies_apart_def)
qed

lemma ops_in_cells_copy:
  assumes "ops_in_cells ops" "i < length ops"
  shows "ops_in_cells (ops[i := copy_of source x y (ops ! i)])"
proof -
  let ?c = "copy_of source x y (ops ! i)"
  have mem: "ops ! i \<in> set ops" using assms(2) by simp
  note k = copy_of_key [OF assms(1) mem, of source x y]
  obtain l a b where key: "op_key (ops ! i) = (l, a, b)" by (cases "op_key (ops ! i)") auto
  note c = op_in_cell(1) [OF assms(1) mem, unfolded key prod.case]
  have "map op_key (ops[i := ?c]) = map op_key ops" using k(1) assms(2) by (simp add: map_update list_update_same_conv)
  then have "distinct (map op_key (ops[i := ?c]))" using assms(1) by (simp add: ops_in_cells_def)
  moreover have "0 \<le> a" "0 \<le> b" "64 * a < 8192" "64 * b < 8192"
    using assms(1) mem key by (auto simp: ops_in_cells_def op_key_def)
  then have "within (op_dest ?c) (cell_of ?c) \<and> 0 \<le> rect_left (op_dest ?c) \<and> 0 \<le> rect_top (op_dest ?c) \<and>
      rect_left (op_dest ?c) < 8192 \<and> rect_top (op_dest ?c) < 8192"
    using k(2) c by (simp add: within_def)
  ultimately show ?thesis
    using assms(1) k(2) op_in_cell(3) [OF assms(1) mem] set_update_subset_insert [of ops i ?c]
    unfolding ops_in_cells_def by (auto dest!: subsetD)
qed

lemma copy_wf:
  assumes "ops_in_cells ops" "oper \<in> set ops" "indexed_ok layers oper"
    and "0 \<le> x" "x + 64 \<le> 8192" "0 \<le> y" "y + 64 \<le> 8192"
  shows "op_wf (copy_of source x y oper)"
proof -
  obtain l a b where key: "op_key oper = (l, a, b)" by (cases "op_key oper") auto
  note c = op_in_cell(1) [OF assms(1, 2), unfolded key prod.case]
  have "on_screen (cell_of oper)" using assms(3) by (auto simp: indexed_ok_def inside_def)
  then show ?thesis using assms(4-) op_in_cell(3) [OF assms(1, 2)] c
    by (simp add: op_wf_def on_screen_def copy_of_def)
qed

lemma copy_step:
  assumes good: "search_good C K L layers ops0 (table, ops)" and i: "i < length ops" "indexed_ok layers (ops ! i)"
    and src: "sources_fit C K L layers last_layers ops0" "source \<in> set last_layers" "state_search_for_copies (layer_pending_frame source)"
    and win: "0 \<le> x" "x + 64 \<le> state_width (layer_last_frame source)" "0 \<le> y" "y + 64 \<le> state_height (layer_last_frame source)"
    and cmp: "\<And>l. layer_of layers (op_layer (ops ! i)) = Some l \<Longrightarrow> guac_image_cmp (rows_of (layer_last_frame source)) x y
      (rows_of (layer_pending_frame l)) (rect_left (cell_of (ops ! i))) (rect_top (cell_of (ops ! i))) 64 64"
  shows "search_good C K L layers ops0 (table, ops[i := copy_of source x y (ops ! i)])"
proof -
  let ?c = "copy_of source x y (ops ! i)" and ?ops = "ops[i := copy_of source x y (ops ! i)]"
  have g: "table_ok layers table ops" "ops_in_cells ops" "list_all op_wf ops"
    "improves ops0 ops" "live ops = live ops0" "map op_layer ops = map op_layer ops0"
    "\<forall>i < length ops. op_dest (ops ! i) = op_dest (ops0 ! i) \<or> indexed_ok layers (ops ! i) \<and> op_dest (ops ! i) = cell_of (ops ! i)"
    "C \<longrightarrow> list_all (op_correct (pending_frame layers) L) ops"
    "list_all (\<lambda>oper. op_type oper = GUAC_DISPLAY_PLAN_OPERATION_COPY \<longrightarrow> K) ops"
    using good by (simp_all add: search_good_def)
  have mem: "ops ! i \<in> set ops" using i(1) by simp
  have layer: "op_layer (ops ! i) \<in> op_layer ` set ops0" using g(6) mem by (metis image_set imageI)
  have nop: "op_type (ops ! i) \<noteq> GUAC_DISPLAY_PLAN_OPERATION_NOP" using i(2) by (simp add: indexed_ok_def)
  have cells: "ops_in_cells ?ops" by (rule ops_in_cells_copy [OF g(2) i(1)])
  have "rect_area (op_dest (ops ! i)) \<subseteq> rect_area (op_dest ?c)"
    using op_in_cell(2) [OF g(2) mem] by (auto simp: within_def rect_area_def box_def)
  note upd = update_op_improves [OF i(1) nop _ _ this]
  have ix: "indexed_ok layers ?c" "op_dest ?c = cell_of ?c"
    using i(2) copy_of_key(2) [OF g(2) mem] by (simp_all add: indexed_ok_def)
  then have "table_ok layers table ?ops"
    using g(1) i(1) by (fastforce simp: table_ok_def nth_list_update)
  moreover have "\<forall>j < length ?ops. op_dest (?ops ! j) = op_dest (ops0 ! j) \<or> indexed_ok layers (?ops ! j) \<and> op_dest (?ops ! j) = cell_of (?ops ! j)"
    using g(7) ix i(1) by (simp add: nth_list_update)
  moreover have "op_wf ?c" using win src by (intro copy_wf [OF g(2) mem i(2)]) (auto simp: sources_fit_def)
  moreover have "op_correct (pending_frame layers) L ?c" if C
    by (rule copy_correct [OF g(2) mem layer i(2) _ src(2, 3) win cmp]) (use src(1) that in simp)
  moreover have K using src win by (auto simp: sources_fit_def holds_cell_def)
  moreover have "map op_layer ?ops = map op_layer ops" using i(1) by (simp add: map_update list_update_same_conv)
  ultimately show ?thesis
    using g cells upd improves_trans [OF g(4)]
    by (simp add: search_good_def list_all_update)
qed

lemma find_copies_good:
  assumes good: "search_good C K L layers ops0 st"
    and src: "sources_fit C K L layers last_layers ops0" "source \<in> set last_layers" "state_search_for_copies (layer_pending_frame source)"
    and win: "0 \<le> x" "x + 64 \<le> state_width (layer_last_frame source)" "0 \<le> y" "y + 64 \<le> state_height (layer_last_frame source)"
  shows "search_good C K L layers ops0 (PFR_LFR_guac_display_plan_find_copies layers source x y h st)"
proof -
  obtain table ops where st: "st = (table, ops)" by (cases st) auto
  obtain found table' where r: "guac_display_plan_remove_indexed_op h table = (found, table')"
    by (cases "guac_display_plan_remove_indexed_op h table") auto
  have table: "table_ok layers table ops" using good by (simp add: st search_good_def)
  have sub: "table k = Some e" if "table' k = Some e" for k e
    using r that by (auto simp: guac_display_plan_remove_indexed_op_def Let_def split: option.splits if_splits)
  then have "table_ok layers table' ops" using table unfolding table_ok_def by blast
  then have good': "search_good C K L layers ops0 (table', ops)"
    using good by (simp add: st search_good_def)
  have "state_width (layer_last_frame source) \<le> 8192" "state_height (layer_last_frame source) \<le> 8192"
    using src by (auto simp: sources_fit_def)
  then have rect: "guac_rect_init x y GUAC_DISPLAY_CELL_SIZE GUAC_DISPLAY_CELL_SIZE =
      \<lparr>rect_left = x, rect_top = y, rect_right = x + 64, rect_bottom = y + 64\<rparr>"
    using win by (simp add: guac_rect_init_def GUAC_DISPLAY_CELL_SIZE_def wrap32_eq)
  show ?thesis
  proof (cases found)
    case None
    then show ?thesis using good' r by (simp add: PFR_LFR_guac_display_plan_find_copies_def st)
  next
    case (Some i)
    have "\<exists>k h. table k = Some (i, h)"
      using r Some by (auto simp: guac_display_plan_remove_indexed_op_def Let_def split: option.splits if_splits) blast
    then have i: "i < length ops" "indexed_ok layers (ops ! i)" using table by (auto simp: table_ok_def)
    then obtain l where l: "layer_of layers (op_layer (ops ! i)) = Some l" by (auto simp: indexed_ok_def)
    have "PFR_LFR_guac_display_plan_find_copies layers source x y h st =
        (if guac_image_cmp (rows_of (layer_last_frame source)) x y (rows_of (layer_pending_frame l))
            (rect_left (cell_of (ops ! i))) (rect_top (cell_of (ops ! i))) 64 64
         then (table', ops[i := copy_of source x y (ops ! i)]) else (table', ops))"
      using r Some l by (simp add: PFR_LFR_guac_display_plan_find_copies_def st rect cell_of_def copy_of_def
          GUAC_DISPLAY_CELL_SIZE_def [symmetric] Let_def)
    then show ?thesis using good' copy_step [OF good' i src win] l by simp
  qed
qed

lemma search_layer_good:
  assumes good: "search_good C K L layers ops0 st" and src: "sources_fit C K L layers last_layers ops0" "source \<in> set last_layers"
  shows "\<exists>st'. search_layer layers source st = Inr st' \<and> search_good C K L layers ops0 st'"
proof (cases "state_search_for_copies (layer_pending_frame source)")
  case search: True
  let ?f = "layer_last_frame source"
  have f: "buffer_ok ?f" "0 \<le> state_width ?f" "0 \<le> state_height ?f" "state_width ?f \<le> 8192" "state_height ?f \<le> 8192"
    using src search by (auto simp: sources_fit_def buffer_ok_def)
  define region where "region = guac_rect_constrain (guac_rect_init 0 0 (state_width ?f) (state_height ?f)) (layer_dirty source)"
  have region: "0 \<le> rect_left region" "0 \<le> rect_top region" "rect_right region \<le> state_width ?f" "rect_bottom region \<le> state_height ?f"
    using f by (simp_all add: region_def guac_rect_constrain_def guac_rect_init_def wrap32_eq Let_def)
  have "guac_hash_foreach_image_rect (rows_of ?f) region (PFR_LFR_guac_display_plan_find_copies layers source) st =
      Inr (foreach_window (rows_of ?f) region (PFR_LFR_guac_display_plan_find_copies layers source) st)"
  proof (rule hash_foreach_windows)
    show "rect_right region - rect_left region \<le> int GUAC_DISPLAY_MAX_WIDTH"
      using region f by (simp add: GUAC_DISPLAY_MAX_WIDTH_def)
    show "rect_right region \<le> int (length (rows_of ?f ! nat y))" if "rect_top region \<le> y" "y < rect_bottom region" for y
      using row_length(2) [OF f(1), of y] that region by simp
  qed (use region in simp_all)
  moreover have "search_good C K L layers ops0
      (foreach_window (rows_of ?f) region (PFR_LFR_guac_display_plan_find_copies layers source) st)"
    using good by (rule foreach_window_inv) (use region in \<open>auto intro!: find_copies_good src search\<close>)
  ultimately show ?thesis using search by (simp add: search_layer_def region_def Let_def)
qed (use good in \<open>simp add: search_layer_def\<close>)

lemma rewrite_as_copies_good:
  assumes "sources_fit C K L layers last_layers ops0" "search_good C K L layers ops0 st"
  shows "\<exists>st'. PFR_LFR_guac_display_plan_rewrite_as_copies layers last_layers st = Inr st' \<and>
    search_good C K L layers ops0 st'"
  unfolding PFR_LFR_guac_display_plan_rewrite_as_copies_def
  using assms by (intro fold_outcome_inv search_layer_good)

section \<open>The index: specification\<close>

text \<open>Only full cells inside the pending frame are indexed, each under the hash of its pixels.\<close>

lemma store_indexed_ok:
  assumes "table_ok layers table ops" "i < length ops" "indexed_ok layers (ops ! i)"
  shows "table_ok layers (guac_display_plan_store_indexed_op h i table) ops"
  using assms by (auto simp: table_ok_def guac_display_plan_store_indexed_op_def Let_def)

lemma index_op_ok:
  assumes wf: "\<And>l. l \<in> set layers \<Longrightarrow> buffer_ok (layer_pending_frame l) \<and> state_width (layer_pending_frame l) \<le> 8192 \<and>
      state_height (layer_pending_frame l) \<le> 8192"
    and "table_ok layers table ops" "ops_in_cells ops" "i < length ops"
  shows "\<exists>table'. index_op layers ops i table = Inr table' \<and> table_ok layers table' ops"
proof (cases "op_type (ops ! i) = GUAC_DISPLAY_PLAN_OPERATION_IMG \<and> (\<exists>l. layer_of layers (op_layer (ops ! i)) = Some l)")
  case False
  then show ?thesis using assms(2) by (auto simp: index_op_def split: option.splits)
next
  case True
  then obtain l where l: "layer_of layers (op_layer (ops ! i)) = Some l" by auto
  then have mem: "l \<in> set layers" by (auto simp: layer_of_def find_Some_iff)
  let ?f = "layer_pending_frame l"
  have f: "buffer_ok ?f" "0 \<le> state_width ?f" "0 \<le> state_height ?f" "state_width ?f \<le> 8192" "state_height ?f \<le> 8192"
    using wf [OF mem] by (auto simp: buffer_ok_def)
  define cell where "cell = guac_rect_constrain (cell_of (ops ! i)) (guac_display_layer_get_bounds l)"
  obtain k a b where key: "op_key (ops ! i) = (k, a, b)" by (cases "op_key (ops ! i)") auto
  note c = op_in_cell(1) [OF assms(3) nth_mem [OF assms(4)], unfolded key prod.case]
  have "0 \<le> a" "0 \<le> b" "64 * a < 8192" "64 * b < 8192"
    using assms(3) nth_mem [OF assms(4)] key by (auto simp: ops_in_cells_def op_key_def)
  note ab = this
  show ?thesis
  proof (cases "guac_rect_width cell = 64 \<and> guac_rect_height cell = 64")
    case False
    then show ?thesis using assms(2) l
      by (auto simp: index_op_def cell_def cell_of_def GUAC_DISPLAY_CELL_SIZE_def Let_def)
  next
    case full: True
    have bounds: "64 * a + 64 \<le> state_width ?f" "64 * b + 64 \<le> state_height ?f"
      using full ab f c by (auto simp: cell_def guac_rect_constrain_def guac_display_layer_get_bounds_def guac_rect_width_def
          guac_rect_height_def wrap32_eq Let_def split: if_splits)
    then have cell: "cell = cell_of (ops ! i)"
      using c ab by (simp add: cell_def guac_rect_constrain_def guac_display_layer_get_bounds_def)
    have "inside (cell_of (ops ! i)) ?f" using bounds ab c f by (simp add: inside_def on_screen_def)
    then have ix: "indexed_ok layers (ops ! i)" using True l mem f by (auto simp: indexed_ok_def)
    have "guac_hash_foreach_image_rect (rows_of ?f) cell (guac_display_plan_index_op_for_cell i) table =
        Inr (foreach_window (rows_of ?f) cell (guac_display_plan_index_op_for_cell i) table)"
    proof (rule hash_foreach_windows)
      show "rect_right cell \<le> int (length (rows_of ?f ! nat y))" if "rect_top cell \<le> y" "y < rect_bottom cell" for y
        using row_length(2) [OF f(1), of y] that ab bounds c cell by simp
    qed (use ab c cell in \<open>simp_all add: GUAC_DISPLAY_MAX_WIDTH_def\<close>)
    moreover have "table_ok layers (foreach_window (rows_of ?f) cell (guac_display_plan_index_op_for_cell i) table) ops"
      by (rule foreach_window_inv [where I = "\<lambda>t. table_ok layers t ops", OF assms(2)])
        (simp add: guac_display_plan_index_op_for_cell_def store_indexed_ok assms(4) ix)
    ultimately show ?thesis using True l full
      by (simp add: index_op_def cell_def cell_of_def GUAC_DISPLAY_CELL_SIZE_def Let_def)
  qed
qed

lemma index_dirty_cells_ok:
  assumes "\<And>l. l \<in> set layers \<Longrightarrow> buffer_ok (layer_pending_frame l) \<and> state_width (layer_pending_frame l) \<le> 8192 \<and>
      state_height (layer_pending_frame l) \<le> 8192"
    and "ops_in_cells ops"
  shows "\<exists>table. PFR_guac_display_plan_index_dirty_cells layers ops = Inr table \<and> table_ok layers table ops"
  unfolding PFR_guac_display_plan_index_dirty_cells_def
proof (rule fold_outcome_inv)
  show "table_ok layers (\<lambda>_. None) ops" by (simp add: table_ok_def)
  show "\<exists>table'. index_op layers ops i table = Inr table' \<and> table_ok layers table' ops"
    if "i \<in> set [0..<length ops]" "table_ok layers table ops" for i table
    using that assms by (intro index_op_ok) auto
qed

text \<open>The two passes of the search.\<close>

definition search_pass ::
    "guac_display_layer list \<Rightarrow> guac_display_layer list \<Rightarrow> guac_display_plan_operation list \<Rightarrow> guac_display_plan_operation list outcome" where
  "search_pass layers last_layers ops = (case PFR_guac_display_plan_index_dirty_cells layers ops of
      Inl e \<Rightarrow> Inl e
    | Inr table \<Rightarrow> map_sum id snd (PFR_LFR_guac_display_plan_rewrite_as_copies layers last_layers (table, ops)))"

lemma rewrite_as_copies_fit:
  assumes wf: "\<And>l. l \<in> set layers \<Longrightarrow> buffer_ok (layer_pending_frame l) \<and> state_width (layer_pending_frame l) \<le> 8192 \<and>
      state_height (layer_pending_frame l) \<le> 8192"
    and "sources_fit C K L layers last_layers ops" "ops_in_cells ops" "list_all op_wf ops"
    and "C \<longrightarrow> list_all (op_correct (pending_frame layers) L) ops"
    and "list_all (\<lambda>oper. op_type oper = GUAC_DISPLAY_PLAN_OPERATION_COPY \<longrightarrow> K) ops"
  shows "\<exists>table st. PFR_guac_display_plan_index_dirty_cells layers ops = Inr table \<and>
    PFR_LFR_guac_display_plan_rewrite_as_copies layers last_layers (table, ops) = Inr st \<and>
    search_pass layers last_layers ops = Inr (snd st) \<and> search_good C K L layers ops st"
proof -
  obtain table where t: "PFR_guac_display_plan_index_dirty_cells layers ops = Inr table" "table_ok layers table ops"
    using index_dirty_cells_ok [OF wf assms(3)] by auto
  then have "search_good C K L layers ops (table, ops)" using assms(3-) by (simp add: search_good_def)
  from rewrite_as_copies_good [OF assms(2) this] obtain st where
    "PFR_LFR_guac_display_plan_rewrite_as_copies layers last_layers (table, ops) = Inr st"
    "search_good C K L layers ops st" by auto
  then show ?thesis using t(1) by (cases st) (auto simp: search_pass_def)
qed

text \<open>
  Operations in cells of their own are always sound for some frame: none depends on what another draws.
\<close>

lemma cells_sound:
  assumes cells: "ops_in_cells ops" and wf: "list_all op_wf ops"
  shows "\<exists>P L. plan_sound P L ops"
proof -
  let ?rect = "\<lambda>n p oper. oper \<in> set ops \<and> op_type oper = GUAC_DISPLAY_PLAN_OPERATION_RECT \<and> op_layer oper = n \<and> p \<in> rect_area (op_dest oper)"
  define P :: frame where "P = (\<lambda>n p. if \<exists>oper. ?rect n p oper then op_src_color (SOME oper. ?rect n p oper) else 0)"
  have sub: "rect_area (op_dest oper) \<subseteq> rect_area (cell_of oper)" if "oper \<in> set ops" for oper
    using op_in_cell(2) [OF cells that] by (auto simp: within_def rect_area_def box_def)
  have same: "oper = oper'" if "oper \<in> set ops" "oper' \<in> set ops" "op_layer oper = op_layer oper'"
    "p \<in> rect_area (op_dest oper)" "p \<in> rect_area (op_dest oper')" for p oper oper'
  proof (rule ccontr)
    assume "oper \<noteq> oper'"
    then have "op_key oper \<noteq> op_key oper'" using cells that(1, 2) by (auto simp: ops_in_cells_def distinct_map inj_on_def)
    then show False using cells_disjoint [OF cells that(1, 2)] sub that by blast
  qed
  have "op_correct P (\<lambda>_ _. 0) oper" if o: "oper \<in> set ops" for oper
  proof (cases "op_type oper")
    case GUAC_DISPLAY_PLAN_OPERATION_RECT
    have "P (op_layer oper) p = op_src_color oper" if p: "p \<in> rect_area (op_dest oper)" for p
    proof -
      have r: "?rect (op_layer oper) p oper" using o p GUAC_DISPLAY_PLAN_OPERATION_RECT by simp
      then have "?rect (op_layer oper) p (SOME oper'. ?rect (op_layer oper) p oper')" by (rule someI)
      then have "(SOME oper'. ?rect (op_layer oper) p oper') = oper" using same o p by blast
      then show ?thesis using r by (auto simp: P_def)
    qed
    then show ?thesis using GUAC_DISPLAY_PLAN_OPERATION_RECT by (simp add: op_correct_def)
  next
    case GUAC_DISPLAY_PLAN_OPERATION_COPY
    have "P (op_layer oper) p = 0" if p: "p \<in> rect_area (op_dest oper)" for p
    proof -
      have "\<not> (\<exists>oper'. ?rect (op_layer oper) p oper')"
        using same [of oper _ p] o p GUAC_DISPLAY_PLAN_OPERATION_COPY by fastforce
      then show ?thesis by (simp only: P_def if_False)
    qed
    then show ?thesis using GUAC_DISPLAY_PLAN_OPERATION_COPY by (auto simp: op_correct_def)
  qed (simp_all add: op_correct_def)
  then have "plan_sound P (\<lambda>_ _. 0) ops" using wf copies_apart_cells [OF cells] by (simp add: plan_sound_def list_all_iff)
  then show ?thesis by blast
qed

section \<open>Properties\<close>

text \<open>
  C26: the rolling hash. The loop passes to its callback exactly the windows of 64 by 64 pixels of the
  rectangle, row by row, each with a hash that is a function of the pixels of that window alone:
  what the running sums of rows and columns took in before has been shifted out of the 64 bits.
\<close>

theorem guac_hash_foreach_image_rect_windows:
  assumes "0 \<le> rect_left rect" "0 \<le> rect_top rect" "rect_right rect - rect_left rect \<le> int GUAC_DISPLAY_MAX_WIDTH"
    and "\<And>y. rect_top rect \<le> y \<Longrightarrow> y < rect_bottom rect \<Longrightarrow> rect_right rect \<le> int (length (rows ! nat y))"
  shows "guac_hash_foreach_image_rect rows rect callback s = Inr (
    foldl (\<lambda>s y. foldl (\<lambda>s x. callback x y (window_hash rows x y) s) s [rect_left rect..rect_right rect - 64]) s
      [rect_top rect..rect_bottom rect - 64])"
  using hash_foreach_windows [OF assms] by (simp add: foreach_window_def)

theorem guac_hash_foreach_image_rect_windows_witness:
  "guac_hash_foreach_image_rect (replicate 64 (replicate 65 7)) (guac_rect_init 0 0 65 64) (\<lambda>x y h s. s @ [(x, y)]) [] =
     Inr [(0, 0), (1, 0)]"
proof -
  have r: "guac_rect_init 0 0 65 64 = \<lparr>rect_left = 0, rect_top = 0, rect_right = 65, rect_bottom = 64\<rparr>"
    by (simp add: guac_rect_init_def wrap32_eq)
  have "[0..1 :: int] = [0, 1]" "[0..0 :: int] = [0]" by code_simp+
  then show ?thesis
    using guac_hash_foreach_image_rect_windows [of "guac_rect_init 0 0 65 64" "replicate 64 (replicate 65 7)" "\<lambda>x y h s. s @ [(x, y)]" "[]"]
    by (simp add: r GUAC_DISPLAY_MAX_WIDTH_def)
qed

text \<open>
  C25: copies. For a plan with at most one operation per cell, indexing the changed cells and searching
  the last frame keeps the plan sound: a hash match alone never makes a copy, every copy finds at
  its source the pixels that the pending frame has at its destination, no two copies overlap, and
  everything that was drawn is still drawn.
\<close>

theorem guac_display_plan_rewrite_as_copies_sound:
  assumes "\<And>l. l \<in> set layers \<Longrightarrow> buffer_ok (layer_pending_frame l) \<and> state_width (layer_pending_frame l) \<le> 8192 \<and>
      state_height (layer_pending_frame l) \<le> 8192"
    and "sources_ok L layers last_layers ops" "ops_in_cells ops" "plan_sound (pending_frame layers) L ops"
  shows "\<exists>table table' ops'. PFR_guac_display_plan_index_dirty_cells layers ops = Inr table \<and>
    PFR_LFR_guac_display_plan_rewrite_as_copies layers last_layers (table, ops) = Inr (table', ops') \<and>
    list_all (op_correct (pending_frame layers) L) ops' \<and> copies_apart ops' \<and>
    (\<forall>l. drawn ops l \<subseteq> drawn ops' l) \<and> length ops' = length ops"
proof -
  obtain table st where "PFR_guac_display_plan_index_dirty_cells layers ops = Inr table"
    "PFR_LFR_guac_display_plan_rewrite_as_copies layers last_layers (table, ops) = Inr st" "search_good True True L layers ops st"
    using rewrite_as_copies_fit [OF assms(1) sources_ok_fit [OF assms(2)] assms(3)] assms(4) by (auto simp: plan_sound_def list_all_iff)
  then show ?thesis using copies_apart_cells by (cases st) (auto simp: search_good_def improves_def)
qed

text \<open>
  A layer of one cell whose content was shifted: the pending frame is white, and so was the last
  frame, in which the change is searched.
\<close>

definition white_state :: "bool \<Rightarrow> guac_display_layer_state" where
  "white_state search = \<lparr>state_width = 64, state_height = 64,
     state_parent = 0, state_x = 0, state_y = 0, state_z = 0, state_opacity = 255, state_touches = 0, state_lossless = False,
     state_buffer = Some (replicate 64 (replicate 64 0xFFFFFFFF)), state_buffer_width = 64, state_buffer_height = 64,
     state_buffer_stride = 256, state_buffer_is_external = False, state_search_for_copies = search\<rparr>"

definition white_layer :: guac_display_layer where
  "white_layer = \<lparr>layer_dirty = guac_rect_init 0 0 64 64, layer_cells = [], layer_cells_width = 1, layer_cells_height = 1,
     layer_number = 0, layer_layer = 0, layer_opaque = True, layer_last_frame = white_state False, layer_last_frame_buffer = 5,
     layer_last_dirty = guac_rect_init 0 0 0 0, layer_pending_frame = white_state True\<rparr>"

lemma white_layer_ok: "buffer_ok (layer_pending_frame white_layer)" "buffer_ok (layer_last_frame white_layer)"
  "sources_ok (\<lambda>_ _. 0xFFFFFFFF) [white_layer] [white_layer] ops"
  by (simp_all add: white_layer_def white_state_def buffer_ok_def rows_of_def sources_ok_def alpha_agree_def shows_last_def visible_def box_def nat_less_iff)

theorem guac_display_plan_rewrite_as_copies_witness:
  "\<exists>table table' ops'.
     PFR_guac_display_plan_index_dirty_cells [white_layer] [example_op GUAC_DISPLAY_PLAN_OPERATION_IMG (guac_rect_init 0 0 64 64) 9] =
       Inr table \<and>
     PFR_LFR_guac_display_plan_rewrite_as_copies [white_layer] [white_layer]
       (table, [example_op GUAC_DISPLAY_PLAN_OPERATION_IMG (guac_rect_init 0 0 64 64) 9]) = Inr (table', ops') \<and>
     list_all (op_correct (pending_frame [white_layer]) (\<lambda>_ _. 0xFFFFFFFF)) ops' \<and> length ops' = 1"
proof -
  let ?op = "example_op GUAC_DISPLAY_PLAN_OPERATION_IMG (guac_rect_init 0 0 64 64) 9"
  have r: "guac_rect_init 0 0 64 64 = \<lparr>rect_left = 0, rect_top = 0, rect_right = 64, rect_bottom = 64\<rparr>"
    by (simp add: guac_rect_init_def wrap32_eq)
  have cell: "cell_of ?op = guac_rect_init 0 0 64 64"
    by (simp add: cell_of_def example_op_def r cell_init_rect_eq)
  have "ops_in_cells [?op]" unfolding ops_in_cells_def by (simp add: cell) (simp add: example_op_def r within_def)
  moreover have "plan_sound (pending_frame [white_layer]) (\<lambda>_ _. 0xFFFFFFFF) [?op]"
    by (simp add: plan_sound_def op_wf_def on_screen_def op_correct_def copies_apart_def example_op_def r)
  moreover have "state_width (layer_pending_frame white_layer) \<le> 8192" "state_height (layer_pending_frame white_layer) \<le> 8192"
    by (simp_all add: white_layer_def white_state_def)
  ultimately show ?thesis
    using guac_display_plan_rewrite_as_copies_sound [OF _ white_layer_ok(3), of "[?op]"] white_layer_ok(1) by fastforce
qed


lemma hash_row_overflow:
  "length cell_hash < length row \<Longrightarrow> hash_row callback rect y x row cell_hash h s = Inl Undefined"
proof (induction row arbitrary: cell_hash x h s)
  case (Cons p row)
  then show ?case by (cases cell_hash) (simp_all add: Let_def)
qed simp

text \<open>
  C32: the array of column hashes has room for \<open>GUAC_DISPLAY_MAX_WIDTH\<close> columns and nothing in the
  search limits the width of the region: in a layer that is wider, the search writes past the end
  of the array.
\<close>

theorem guac_display_search_overflow:
  assumes "state_search_for_copies (layer_pending_frame source)" "buffer_ok (layer_last_frame source)"
    and "8192 < state_width (layer_last_frame source)" "state_width (layer_last_frame source) < 2 ^ 15"
    and "0 < state_height (layer_last_frame source)" "state_height (layer_last_frame source) < 2 ^ 15"
    and "layer_dirty source = guac_rect_init 0 0 (state_width (layer_last_frame source)) (state_height (layer_last_frame source))"
  shows "search_layer layers source st = Inl Undefined"
proof -
  let ?f = "layer_last_frame source"
  let ?rect = "\<lparr>rect_left = 0, rect_top = 0, rect_right = state_width ?f, rect_bottom = state_height ?f\<rparr>"
  have init: "guac_rect_init 0 0 (state_width ?f) (state_height ?f) = ?rect"
    using assms(3-6) by (simp add: guac_rect_init_def wrap32_eq)
  then have region: "guac_rect_constrain (guac_rect_init 0 0 (state_width ?f) (state_height ?f)) (layer_dirty source) = ?rect"
    using assms(7) by (simp add: guac_rect_constrain_def)
  have "8192 < length (take (nat (state_width ?f)) (rows_of ?f ! 0))"
    using row_length(2) [OF assms(2), of 0] assms(3, 5) by auto
  moreover have "[- 63..state_height ?f - 64] = - 63 # [- 62..state_height ?f - 64]"
    using assms(5) by (subst upto_rec1) simp_all
  ultimately have "guac_hash_foreach_image_rect (rows_of ?f) ?rect callback st = Inl Undefined" for callback
    by (simp add: guac_hash_foreach_image_rect_def GUAC_DISPLAY_CELL_SIZE_def GUAC_DISPLAY_MAX_WIDTH_def hash_row_overflow Let_def)
  then show ?thesis using assms(1) region by (simp add: search_layer_def Let_def)
qed

theorem guac_display_search_overflow_witness:
  "search_layer [] (white_layer\<lparr>layer_dirty := guac_rect_init 0 0 8193 1, layer_last_frame := (white_state False)\<lparr>state_width := 8193,
     state_height := 1, state_buffer := Some [replicate 8193 0]\<rparr>\<rparr>) (\<lambda>_. None, []) = Inl Undefined"
  by (rule guac_display_search_overflow) (simp_all add: white_layer_def white_state_def buffer_ok_def rows_of_def)

end
