(* ===== verification/DisplayLayer.thy ===== *)
theory DisplayLayer
  imports DisplaySearch Pool "HOL-Library.Multiset"
begin

text \<open>
  The layers of a display: allocation, resizing and removal (\<open>libguac/display-layer-list.c\<close>), changes of
  their properties and drawing into their buffers (\<open>libguac/display-layer.c\<close>). The theorems show that
  every sequence of these calls leaves layers that the display plan accepts.
\<close>

section \<open>Copying and resizing buffers\<close>

text \<open>
  \<open>guac_imgcpy\<close> on buffers given as lists of rows: the part that both have is copied.
\<close>

definition guac_imgcpy :: "'a list list \<Rightarrow> int \<Rightarrow> int \<Rightarrow> 'a list list \<Rightarrow> int \<Rightarrow> int \<Rightarrow> 'a list list outcome" where
  "guac_imgcpy dst dst_width dst_height src src_width src_height = (
    let width = (if src_width < dst_width then src_width else dst_width);
        height = (if src_height < dst_height then src_height else dst_height)
    in guac_assert (width \<ge> 0) (guac_assert (height \<ge> 0) (
      Inr (map (\<lambda>i. if i < nat height then take (nat width) (src ! i) @ drop (nat width) (dst ! i) else dst ! i)
        [0..<length dst]))))"

definition GUAC_DISPLAY_MAX_HEIGHT :: int where "GUAC_DISPLAY_MAX_HEIGHT = 8192"

definition GUAC_DISPLAY_RESIZE_FACTOR :: int where "GUAC_DISPLAY_RESIZE_FACTOR = 64"

definition resize_round :: "int \<Rightarrow> int" where
  "resize_round v = wrap32 (wrap32 (v + GUAC_DISPLAY_RESIZE_FACTOR - 1) sdiv GUAC_DISPLAY_RESIZE_FACTOR * GUAC_DISPLAY_RESIZE_FACTOR)"

text \<open>
  \<open>cairo_stride\<close> stands for \<open>cairo_format_stride_for_width\<close> for pixels of 32 bits. An allocation of no
  bytes returns a null pointer, and so does one whose size overflows; other allocations succeed.
\<close>

definition XFW_guac_display_layer_buffer_resize ::
    "(int \<Rightarrow> int) \<Rightarrow> guac_display_layer_state \<Rightarrow> int \<Rightarrow> int \<Rightarrow> guac_display_layer_state outcome" where
  "XFW_guac_display_layer_buffer_resize cairo_stride frame_state width height =
    guac_assert (\<not> state_buffer_is_external frame_state) (
      let width = resize_round width; height = resize_round height
      in if width = state_buffer_width frame_state \<and> height = state_buffer_height frame_state then Inr frame_state
      else
        let stride = cairo_stride width;
            buffer = (if height > 0 \<and> stride > 0 then Some (replicate (nat height) (replicate (nat stride div 4) 0)) else None);
            copied = (case state_buffer frame_state of
                None \<Rightarrow> Inr buffer
              | Some old \<Rightarrow>
                  if buffer = None \<and> width > 0 \<and> height > 0 then Inl Undefined
                  else (case guac_imgcpy (case buffer of None \<Rightarrow> [] | Some rows \<Rightarrow> rows) width height
                        old (state_buffer_width frame_state) (state_buffer_height frame_state) of
                      Inl e \<Rightarrow> Inl e
                    | Inr rows \<Rightarrow> Inr (map_option (\<lambda>_. rows) buffer)))
        in case copied of
            Inl e \<Rightarrow> Inl e
          | Inr buffer \<Rightarrow> Inr (frame_state\<lparr>state_buffer := buffer, state_buffer_width := width,
              state_buffer_height := height, state_buffer_stride := stride\<rparr>))"

definition zero_rect :: guac_rect where
  "zero_rect = \<lparr>rect_left = 0, rect_top = 0, rect_right = 0, rect_bottom = 0\<rparr>"

definition zero_cell :: guac_display_layer_cell where
  "zero_cell = \<lparr>cell_last_frame = 0, cell_dirty = zero_rect, cell_dirty_size = 0, cell_related_op = None\<rparr>"

definition zero_state :: guac_display_layer_state where
  "zero_state = \<lparr>state_width = 0, state_height = 0, state_parent = 0, state_x = 0, state_y = 0, state_z = 0, state_opacity = 0,
     state_touches = 0, state_lossless = False, state_buffer = None, state_buffer_width = 0, state_buffer_height = 0,
     state_buffer_stride = 0, state_buffer_is_external = False, state_search_for_copies = False\<rparr>"

text \<open>
  \<open>PFW_LFW_guac_display_layer_state_init\<close>, for the last frame and the pending frame; the parent is the
  default layer, of index 0.
\<close>

definition PFW_LFW_guac_display_layer_state_init ::
    "(int \<Rightarrow> int) \<Rightarrow> guac_display_layer_state \<Rightarrow> guac_display_layer_state \<Rightarrow>
     (guac_display_layer_state \<times> guac_display_layer_state) outcome" where
  "PFW_LFW_guac_display_layer_state_init cairo_stride last_state pending_state = (
    let init = (\<lambda>st. st\<lparr>state_width := GUAC_DISPLAY_RESIZE_FACTOR, state_height := GUAC_DISPLAY_RESIZE_FACTOR,
          state_opacity := 0xFF, state_parent := 0\<rparr>)
    in case XFW_guac_display_layer_buffer_resize cairo_stride (init last_state)
          (state_width (init last_state)) (state_height (init last_state)) of
        Inl e \<Rightarrow> Inl e
      | Inr last_state \<Rightarrow>
          (case XFW_guac_display_layer_buffer_resize cairo_stride (init pending_state)
              (state_width (init pending_state)) (state_height (init pending_state)) of
            Inl e \<Rightarrow> Inl e
          | Inr pending_state \<Rightarrow> Inr (last_state, pending_state)))"

text \<open>The array of cells as rows.\<close>

definition cell_rows :: "nat \<Rightarrow> nat \<Rightarrow> 'a list \<Rightarrow> 'a list list" where
  "cell_rows width height cells = map (\<lambda>y. take width (drop (y * width) cells)) [0..<height]"

text \<open>An array of cells that has not been allocated is the empty list.\<close>

definition PFW_guac_display_layer_pending_frame_cells_resize ::
    "guac_display_layer \<Rightarrow> int \<Rightarrow> int \<Rightarrow> guac_display_layer outcome" where
  "PFW_guac_display_layer_pending_frame_cells_resize layer width height = (
    let new_width = GUAC_DISPLAY_CELL_DIMENSION width; new_height = GUAC_DISPLAY_CELL_DIMENSION height
    in if new_width = int (layer_cells_width layer) \<and> new_height = int (layer_cells_height layer) then Inr layer
    else
      let cells = replicate (nat new_height) (replicate (nat new_width) zero_cell)
      in case (if layer_cells layer \<noteq> [] then guac_imgcpy cells new_width new_height
            (cell_rows (layer_cells_width layer) (layer_cells_height layer) (layer_cells layer))
            (int (layer_cells_width layer)) (int (layer_cells_height layer))
          else if new_width < 0 \<or> new_height < 0 then Inl Undefined else Inr cells) of
        Inl e \<Rightarrow> Inl e
      | Inr cells \<Rightarrow> Inr (layer\<lparr>layer_cells := concat cells, layer_cells_width := nat new_width,
          layer_cells_height := nat new_height\<rparr>))"

definition PFW_guac_display_layer_resize ::
    "(int \<Rightarrow> int) \<Rightarrow> guac_display_layer \<Rightarrow> int \<Rightarrow> int \<Rightarrow> guac_display_layer outcome" where
  "PFW_guac_display_layer_resize cairo_stride layer width height = (
    case (if \<not> state_buffer_is_external (layer_pending_frame layer)
        then XFW_guac_display_layer_buffer_resize cairo_stride (layer_pending_frame layer) width height
        else Inr (layer_pending_frame layer)) of
      Inl e \<Rightarrow> Inl e
    | Inr pending \<Rightarrow>
        (case PFW_guac_display_layer_pending_frame_cells_resize (layer\<lparr>layer_pending_frame := pending\<rparr>) width height of
          Inl e \<Rightarrow> Inl e
        | Inr layer \<Rightarrow> Inr (layer\<lparr>layer_pending_frame := (layer_pending_frame layer)\<lparr>state_width := width, state_height := height\<rparr>\<rparr>)))"

section \<open>Displays\<close>

text \<open>
  The layers of the pending frame, most recent first; the layers removed from it that await
  destruction; and the layers of the last frame, which are among these. Layers are found by their
  number where the source follows a pointer; \<open>display_next\<close> is the number of the next allocation.
\<close>

record guac_display_state =
  frame_timestamp :: int
  frame_cursor_hotspot_x :: int
  frame_cursor_hotspot_y :: int
  frame_cursor_user :: "nat option"
  frame_cursor_x :: int
  frame_cursor_y :: int
  frame_cursor_mask :: int
  frame_frames :: nat

record guac_display =
  display_client :: guac_client
  display_last_frame :: guac_display_state
  display_pending_frame :: guac_display_state
  display_layers :: "guac_display_layer list"
  display_removed :: "guac_display_layer list"
  display_last_layers :: "nat list"
  display_next :: nat
  display_default_layer :: nat
  display_cursor_buffer :: nat
  display_dirty_excluding_mouse :: bool
  display_frame_deferred :: bool

definition guac_display_add_layer ::
    "(int \<Rightarrow> int) \<Rightarrow> guac_display \<Rightarrow> int \<Rightarrow> bool \<Rightarrow> (nat \<times> guac_display) outcome" where
  "guac_display_add_layer cairo_stride display layer is_opaque = (
    case PFW_LFW_guac_display_layer_state_init cairo_stride zero_state zero_state of
      Inl e \<Rightarrow> Inl e
    | Inr (last_state, pending_state) \<Rightarrow>
        (case guac_client_alloc_buffer (display_client display) of
          Inl e \<Rightarrow> Inl e
        | Inr (buffer, client) \<Rightarrow>
            (case PFW_guac_display_layer_pending_frame_cells_resize
                \<lparr>layer_dirty = zero_rect, layer_cells = [], layer_cells_width = 0, layer_cells_height = 0,
                 layer_number = display_next display, layer_layer = layer, layer_opaque = is_opaque,
                 layer_last_frame = last_state, layer_last_frame_buffer = nat (- buffer - 1), layer_last_dirty = zero_rect,
                 layer_pending_frame = pending_state\<rparr>
                (state_width pending_state) (state_height pending_state) of
              Inl e \<Rightarrow> Inl e
            | Inr display_layer \<Rightarrow> Inr (display_next display, display\<lparr>display_client := client,
                display_layers := display_layer # display_layers display, display_next := display_next display + 1\<rparr>))))"

definition guac_display_alloc_layer :: "(int \<Rightarrow> int) \<Rightarrow> guac_display \<Rightarrow> bool \<Rightarrow> (nat \<times> guac_display) outcome" where
  "guac_display_alloc_layer cairo_stride display is_opaque = (
    case guac_client_alloc_layer (display_client display) of
      Inl e \<Rightarrow> Inl e
    | Inr (layer, client) \<Rightarrow> guac_display_add_layer cairo_stride (display\<lparr>display_client := client\<rparr>) layer is_opaque)"

definition guac_display_alloc_buffer :: "(int \<Rightarrow> int) \<Rightarrow> guac_display \<Rightarrow> bool \<Rightarrow> (nat \<times> guac_display) outcome" where
  "guac_display_alloc_buffer cairo_stride display is_opaque = (
    case guac_client_alloc_buffer (display_client display) of
      Inl e \<Rightarrow> Inl e
    | Inr (layer, client) \<Rightarrow> guac_display_add_layer cairo_stride (display\<lparr>display_client := client\<rparr>) layer is_opaque)"

text \<open>A new display, without its worker threads and their queue.\<close>

definition guac_display_alloc :: "(int \<Rightarrow> int) \<Rightarrow> int \<Rightarrow> guac_client \<Rightarrow> guac_display outcome" where
  "guac_display_alloc cairo_stride now client = (
    let state = \<lparr>frame_timestamp = now, frame_cursor_hotspot_x = 0, frame_cursor_hotspot_y = 0, frame_cursor_user = None,
          frame_cursor_x = 0, frame_cursor_y = 0, frame_cursor_mask = 0, frame_frames = 0\<rparr>;
        display = \<lparr>display_client = client, display_last_frame = state, display_pending_frame = state, display_layers = [],
          display_removed = [], display_last_layers = [], display_next = 0, display_default_layer = 0, display_cursor_buffer = 0,
          display_dirty_excluding_mouse = False, display_frame_deferred = False\<rparr>
    in case guac_display_add_layer cairo_stride display 0 True of
        Inl e \<Rightarrow> Inl e
      | Inr (default_layer, display) \<Rightarrow>
          (case guac_display_alloc_buffer cairo_stride display False of
            Inl e \<Rightarrow> Inl e
          | Inr (cursor_buffer, display) \<Rightarrow> Inr (display\<lparr>display_default_layer := default_layer, display_cursor_buffer := cursor_buffer\<rparr>)))"

text \<open>
  A layer that is no longer in the list has null list pointers, and its second removal is caught by
  an assertion unless the list is empty; then it would be linked to itself in the list of removed
  layers.
\<close>

definition guac_display_remove_layer :: "guac_display \<Rightarrow> nat \<Rightarrow> guac_display outcome" where
  "guac_display_remove_layer display n = (
    case layer_of (display_layers display) n of
      None \<Rightarrow> Inl (if display_layers display = [] then Undefined else Assertion)
    | Some layer \<Rightarrow>
        let pending = layer_pending_frame layer;
            pending = (if state_buffer_is_external pending then pending\<lparr>state_buffer := None\<rparr> else pending)
        in Inr (display\<lparr>display_layers := filter (\<lambda>l. layer_number l \<noteq> n) (display_layers display),
            display_removed := layer\<lparr>layer_pending_frame := pending\<rparr> # display_removed display\<rparr>))"

section \<open>Changing a layer\<close>

definition PFW_guac_display_layer_touch :: "nat \<Rightarrow> guac_display \<Rightarrow> guac_display" where
  "PFW_guac_display_layer_touch n display =
    (if n \<noteq> display_cursor_buffer display then display\<lparr>display_dirty_excluding_mouse := True\<rparr> else display)"

definition update_layer :: "nat \<Rightarrow> (guac_display_layer \<Rightarrow> guac_display_layer) \<Rightarrow> guac_display \<Rightarrow> guac_display" where
  "update_layer n f display =
    display\<lparr>display_layers := map (\<lambda>l. if layer_number l = n then f l else l) (display_layers display)\<rparr>"

definition update_pending :: "nat \<Rightarrow> (guac_display_layer_state \<Rightarrow> guac_display_layer_state) \<Rightarrow> guac_display \<Rightarrow> guac_display" where
  "update_pending n f = update_layer n (\<lambda>l. l\<lparr>layer_pending_frame := f (layer_pending_frame l)\<rparr>)"

definition guac_display_layer_move :: "nat \<Rightarrow> int \<Rightarrow> int \<Rightarrow> guac_display \<Rightarrow> guac_display" where
  "guac_display_layer_move n x y display =
    PFW_guac_display_layer_touch n (update_pending n (\<lambda>st. st\<lparr>state_x := x, state_y := y\<rparr>) display)"

definition guac_display_layer_stack :: "nat \<Rightarrow> int \<Rightarrow> guac_display \<Rightarrow> guac_display" where
  "guac_display_layer_stack n z display =
    PFW_guac_display_layer_touch n (update_pending n (\<lambda>st. st\<lparr>state_z := z\<rparr>) display)"

text \<open>The parent is given by the index of its \<open>guac_layer\<close>.\<close>

definition guac_display_layer_set_parent :: "nat \<Rightarrow> int \<Rightarrow> guac_display \<Rightarrow> guac_display" where
  "guac_display_layer_set_parent n parent display =
    PFW_guac_display_layer_touch n (update_pending n (\<lambda>st. st\<lparr>state_parent := parent\<rparr>) display)"

definition guac_display_layer_set_opacity :: "nat \<Rightarrow> int \<Rightarrow> guac_display \<Rightarrow> guac_display" where
  "guac_display_layer_set_opacity n opacity display =
    PFW_guac_display_layer_touch n (update_pending n (\<lambda>st. st\<lparr>state_opacity := opacity\<rparr>) display)"

definition guac_display_layer_set_lossless :: "nat \<Rightarrow> bool \<Rightarrow> guac_display \<Rightarrow> guac_display" where
  "guac_display_layer_set_lossless n lossless display =
    PFW_guac_display_layer_touch n (update_pending n (\<lambda>st. st\<lparr>state_lossless := lossless\<rparr>) display)"

definition guac_display_layer_set_multitouch :: "nat \<Rightarrow> int \<Rightarrow> guac_display \<Rightarrow> guac_display" where
  "guac_display_layer_set_multitouch n touches display =
    PFW_guac_display_layer_touch n (update_pending n (\<lambda>st. st\<lparr>state_touches := touches\<rparr>) display)"

definition guac_display_layer_resize :: "(int \<Rightarrow> int) \<Rightarrow> nat \<Rightarrow> int \<Rightarrow> int \<Rightarrow> guac_display \<Rightarrow> guac_display outcome" where
  "guac_display_layer_resize cairo_stride n width height display = (
    case layer_of (display_layers display) n of
      None \<Rightarrow> Inl Undefined
    | Some layer \<Rightarrow>
        (case PFW_guac_display_layer_resize cairo_stride layer width height of
          Inl e \<Rightarrow> Inl e
        | Inr layer \<Rightarrow> Inr (PFW_guac_display_layer_touch n (update_layer n (\<lambda>_. layer) display))))"

section \<open>Drawing\<close>

text \<open>
  The raw context of a layer: \<open>context_replaced\<close> says that the buffer pointer differs from the
  buffer of the layer; otherwise both are the same memory.
\<close>

record guac_display_layer_raw_context =
  context_buffer :: "pixel list list option"
  context_replaced :: bool
  context_stride :: int
  context_dirty :: guac_rect
  context_hint_from :: "nat option"
  context_bounds :: guac_rect

definition in_rows :: "guac_rect \<Rightarrow> pixel list list \<Rightarrow> bool" where
  "in_rows r rows \<longleftrightarrow> 0 \<le> rect_left r \<and> 0 \<le> rect_top r \<and> rect_bottom r \<le> int (length rows) \<and>
     list_all (\<lambda>row. rect_right r \<le> int (length row)) rows"

text \<open>The lines of a rectangle are replaced by \<open>new\<close>; writes outside of the buffer are undefined.\<close>

definition draw_rows :: "guac_rect \<Rightarrow> (nat \<Rightarrow> pixel list) \<Rightarrow> pixel list list \<Rightarrow> pixel list list" where
  "draw_rows r new rows = map (\<lambda>y. if rect_top r \<le> int y \<and> int y < rect_bottom r \<and> rect_left r < rect_right r
     then take (nat (rect_left r)) (rows ! y) @ new y @ drop (nat (rect_right r)) (rows ! y) else rows ! y) [0..<length rows]"

text \<open>
  The address of a rectangle within a buffer is computed with \<open>guac_mem_ckd_mul_or_die\<close>, for empty
  rectangles too: a negative coordinate becomes a \<open>size_t\<close> close to \<open>2 ^ 64\<close>, whose product with four
  bytes, or with a stride of two bytes or more, overflows, and the process aborts. Coordinates that are
  not negative are below \<open>2 ^ 31\<close>, as is the stride, so that their product does not overflow.
\<close>

definition raw_address_overflows :: "guac_display_layer_raw_context \<Rightarrow> guac_rect \<Rightarrow> bool" where
  "raw_address_overflows context dst \<longleftrightarrow> rect_left dst < 0 \<or> rect_top dst < 0 \<and> 2 \<le> context_stride context"

definition guac_display_layer_raw_context_set ::
    "guac_display_layer_raw_context \<Rightarrow> guac_rect \<Rightarrow> pixel \<Rightarrow> guac_display_layer_raw_context outcome" where
  "guac_display_layer_raw_context_set context dst color = (
    if raw_address_overflows context dst then Inl Assertion
    else case context_buffer context of
      None \<Rightarrow> Inl Undefined
    | Some rows \<Rightarrow>
        if \<not> guac_rect_is_empty dst \<and> \<not> in_rows dst rows then Inl Undefined
        else Inr (context\<lparr>context_buffer := Some (draw_rows dst (\<lambda>y. replicate (nat (rect_right dst - rect_left dst)) color) rows),
            context_dirty := guac_rect_extend (context_dirty context) dst\<rparr>))"

text \<open>The source buffer is given from the line of its first byte on.\<close>

definition guac_display_layer_raw_context_put ::
    "guac_display_layer_raw_context \<Rightarrow> guac_rect \<Rightarrow> pixel list list \<Rightarrow> guac_display_layer_raw_context outcome" where
  "guac_display_layer_raw_context_put context dst src = (
    if raw_address_overflows context dst then Inl Assertion
    else case context_buffer context of
      None \<Rightarrow> Inl Undefined
    | Some rows \<Rightarrow>
        if \<not> guac_rect_is_empty dst \<and> \<not> (in_rows dst rows \<and>
            in_rows \<lparr>rect_left = 0, rect_top = 0, rect_right = guac_rect_width dst, rect_bottom = guac_rect_height dst\<rparr> src)
        then Inl Undefined
        else Inr (context\<lparr>context_buffer := Some (draw_rows dst
              (\<lambda>y. take (nat (guac_rect_width dst)) (src ! nat (int y - rect_top dst))) rows),
            context_dirty := guac_rect_extend (context_dirty context) dst\<rparr>))"

definition guac_display_layer_open_raw :: "guac_display_layer \<Rightarrow> guac_display_layer_raw_context" where
  "guac_display_layer_open_raw layer = (
    let st = layer_pending_frame layer
    in \<lparr>context_buffer = state_buffer st, context_replaced = False, context_stride = state_buffer_stride st,
        context_dirty = zero_rect, context_hint_from = Some (layer_number layer),
        context_bounds = \<lparr>rect_left = 0, rect_top = 0, rect_right = state_buffer_width st, rect_bottom = state_buffer_height st\<rparr>\<rparr>)"

text \<open>The part of \<open>guac_display_layer_close_raw\<close> that concerns the layer itself.\<close>

definition close_raw_layer ::
    "(int \<Rightarrow> int) \<Rightarrow> guac_display_layer \<Rightarrow> guac_display_layer_raw_context \<Rightarrow> guac_display_layer outcome" where
  "close_raw_layer cairo_stride layer context = (
    let st = (layer_pending_frame layer)\<lparr>state_buffer := context_buffer context,
          state_buffer_is_external := state_buffer_is_external (layer_pending_frame layer) \<or> context_replaced context\<rparr>
    in case (if state_buffer_is_external st then
          let width = guac_rect_width (context_bounds context);
              width = (if width > int GUAC_DISPLAY_MAX_WIDTH then int GUAC_DISPLAY_MAX_WIDTH else width);
              height = guac_rect_height (context_bounds context);
              height = (if height > GUAC_DISPLAY_MAX_HEIGHT then GUAC_DISPLAY_MAX_HEIGHT else height)
          in PFW_guac_display_layer_resize cairo_stride
            (layer\<lparr>layer_pending_frame := st\<lparr>state_buffer_width := width, state_buffer_height := height,
               state_buffer_stride := context_stride context\<rparr>\<rparr>) width height
        else Inr (layer\<lparr>layer_pending_frame := st\<rparr>)) of
      Inl e \<Rightarrow> Inl e
    | Inr layer \<Rightarrow> Inr (layer\<lparr>layer_dirty := guac_rect_extend (layer_dirty layer) (context_dirty context)\<rparr>))"

definition guac_display_layer_close_raw ::
    "(int \<Rightarrow> int) \<Rightarrow> nat \<Rightarrow> guac_display_layer_raw_context \<Rightarrow> guac_display \<Rightarrow> guac_display outcome" where
  "guac_display_layer_close_raw cairo_stride n context display = (
    case layer_of (display_layers display) n of
      None \<Rightarrow> Inl Undefined
    | Some layer \<Rightarrow>
        (case close_raw_layer cairo_stride layer context of
          Inl e \<Rightarrow> Inl e
        | Inr layer \<Rightarrow>
            let display = PFW_guac_display_layer_touch n (update_layer n (\<lambda>_. layer) display)
            in Inr (case context_hint_from context of
                None \<Rightarrow> display
              | Some m \<Rightarrow> update_pending m (\<lambda>st. st\<lparr>state_search_for_copies := True\<rparr>) display)))"


section \<open>Copying: specification\<close>

lemma imgcpy_spec:
  assumes "0 \<le> dw" "0 \<le> dh" "0 \<le> sw" "0 \<le> sh" "sh \<le> int (length src)" "\<forall>row \<in> set src. sw \<le> int (length row)"
  obtains rows where "guac_imgcpy dst dw dh src sw sh = Inr rows" "length rows = length dst"
    "\<And>i. i < length dst \<Longrightarrow> dw \<le> int (length (dst ! i)) \<Longrightarrow> length (rows ! i) = length (dst ! i)"
    "\<And>i. i < length dst \<Longrightarrow> set (rows ! i) \<subseteq> set (dst ! i) \<union> \<Union> (set ` set src)"
    "\<And>x y. y < length dst \<Longrightarrow> dw \<le> int (length (dst ! y)) \<Longrightarrow> int x < dw \<Longrightarrow> int y < dh \<Longrightarrow> int x < sw \<Longrightarrow> int y < sh \<Longrightarrow>
      rows ! y ! x = src ! y ! x"
proof -
  define w where "w = nat (min dw sw)"
  define h where "h = nat (min dh sh)"
  define rows where "rows = map (\<lambda>i. if i < h then take w (src ! i) @ drop w (dst ! i) else dst ! i) [0..<length dst]"
  have eq: "guac_imgcpy dst dw dh src sw sh = Inr rows"
    using assms(1-4) by (simp add: guac_imgcpy_def rows_def w_def h_def min_def Let_def)
  have row: "rows ! i = (if i < h then take w (src ! i) @ drop w (dst ! i) else dst ! i)" if "i < length dst" for i
    using that by (simp add: rows_def)
  have src: "i < length src \<and> w \<le> length (src ! i)" if "i < h" for i
  proof -
    have "i < length src" using that assms(5) by (simp add: h_def)
    moreover from this have "sw \<le> int (length (src ! i))" using assms(6) by simp
    ultimately show ?thesis by (simp add: w_def)
  qed
  show thesis
  proof (rule that [OF eq])
    show "length rows = length dst" by (simp add: rows_def)
    show "length (rows ! i) = length (dst ! i)" if "i < length dst" "dw \<le> int (length (dst ! i))" for i
      using that src [of i] by (simp add: row) (simp add: w_def)
    show "set (rows ! i) \<subseteq> set (dst ! i) \<union> \<Union> (set ` set src)" if "i < length dst" for i
      using that src [of i] by (auto simp: row split: if_splits dest: in_set_takeD in_set_dropD)
    show "rows ! y ! x = src ! y ! x"
      if "y < length dst" "dw \<le> int (length (dst ! y))" "int x < dw" "int y < dh" "int x < sw" "int y < sh" for x y
    proof -
      have "y < h" "x < w" using that by (simp_all add: h_def w_def)
      then show ?thesis using that src [of y] by (simp add: row nth_append)
    qed
  qed
qed

section \<open>The invariant of a layer\<close>

text \<open>
  What the code relies on of \<open>cairo_format_stride_for_width\<close>: a row is a whole number of pixels and
  holds at least the given width.
\<close>

definition stride_ok :: "(int \<Rightarrow> int) \<Rightarrow> bool" where
  "stride_ok cairo_stride \<longleftrightarrow> (\<forall>w. 0 < w \<longrightarrow> w \<le> 8192 \<longrightarrow> 4 * w \<le> cairo_stride w)"

definition extent_ok :: "int \<Rightarrow> bool" where
  "extent_ok v \<longleftrightarrow> 0 < v \<and> v \<le> 8192"

definition state_ok :: "guac_display_layer_state \<Rightarrow> bool" where
  "state_ok st \<longleftrightarrow> extent_ok (state_width st) \<and> extent_ok (state_height st) \<and>
     state_width st \<le> state_buffer_width st \<and> state_height st \<le> state_buffer_height st \<and>
     (\<exists>rows. state_buffer st = Some rows \<and> state_buffer_height st \<le> int (length rows) \<and>
        (\<forall>row \<in> set rows. state_buffer_width st \<le> int (length row)))"

definition cells_wf :: "guac_display_layer \<Rightarrow> bool" where
  "cells_wf l \<longleftrightarrow> length (layer_cells l) = layer_cells_width l * layer_cells_height l \<and>
     list_all (\<lambda>c. cell_dirty_size c = 0) (layer_cells l)"

definition layer_inv :: "guac_display_layer \<Rightarrow> bool" where
  "layer_inv l \<longleftrightarrow> state_ok (layer_last_frame l) \<and> state_ok (layer_pending_frame l) \<and> cells_wf l \<and>
     int (layer_cells_width l) = GUAC_DISPLAY_CELL_DIMENSION (state_width (layer_pending_frame l)) \<and>
     int (layer_cells_height l) = GUAC_DISPLAY_CELL_DIMENSION (state_height (layer_pending_frame l)) \<and>
     (guac_rect_is_empty (layer_dirty l) \<or> rect_ok (layer_dirty l))"

lemma state_ok_buffer: "state_ok st \<Longrightarrow> buffer_ok st"
  by (fastforce simp: state_ok_def buffer_ok_def rows_of_def extent_ok_def)

lemma layer_inv_wf: "layer_inv l \<Longrightarrow> layer_wf l"
  by (auto simp: layer_inv_def layer_wf_def state_ok_buffer cells_wf_def) (auto simp: state_ok_def extent_ok_def)

lemma cell_dimension_eq: "extent_ok v \<Longrightarrow> GUAC_DISPLAY_CELL_DIMENSION v = (v + 63) div 64 \<and> 0 < GUAC_DISPLAY_CELL_DIMENSION v"
  by (auto simp: extent_ok_def GUAC_DISPLAY_CELL_DIMENSION_def GUAC_DISPLAY_CELL_SIZE_def sdiv_pos)

lemma resize_round_eq:
  assumes "extent_ok v"
  shows "resize_round v = (v + 63) div 64 * 64" "v \<le> resize_round v" "extent_ok (resize_round v)"
proof -
  have b: "0 < v" "v \<le> 8192" using assms by (simp_all add: extent_ok_def)
  have q: "(v + 63) div 64 \<le> 128" "0 < (v + 63) div 64" using b by linarith+
  then show r: "resize_round v = (v + 63) div 64 * 64"
    using b by (simp add: resize_round_def GUAC_DISPLAY_RESIZE_FACTOR_def sdiv_pos wrap32_eq)
  show "v \<le> resize_round v" using r by linarith
  show "extent_ok (resize_round v)" using q by (simp add: r extent_ok_def)
qed

text \<open>Resizing keeps what both sizes show and clears the rest.\<close>

lemma buffer_resize_spec:
  assumes "stride_ok cs" "\<not> state_buffer_is_external st" "extent_ok w" "extent_ok h"
    and old: "0 \<le> state_buffer_width st" "0 \<le> state_buffer_height st"
      "\<And>rows. state_buffer st = Some rows \<Longrightarrow> state_buffer_height st \<le> int (length rows) \<and> (\<forall>row \<in> set rows. state_buffer_width st \<le> int (length row))"
      "state_buffer st = None \<Longrightarrow> state_buffer_width st = 0 \<or> state_buffer_height st = 0"
  obtains st' where "XFW_guac_display_layer_buffer_resize cs st w h = Inr st'"
    "state_ok (st'\<lparr>state_width := w, state_height := h\<rparr>)"
    "st' = st\<lparr>state_buffer := state_buffer st', state_buffer_width := state_buffer_width st',
       state_buffer_height := state_buffer_height st', state_buffer_stride := state_buffer_stride st'\<rparr>"
    "\<And>x y. int x < state_buffer_width st \<Longrightarrow> int y < state_buffer_height st \<Longrightarrow> int x < w \<Longrightarrow> int y < h \<Longrightarrow>
      rows_of st' ! y ! x = rows_of st ! y ! x"
proof -
  let ?w = "resize_round w" and ?h = "resize_round h"
  note rw = resize_round_eq [OF assms(3)] and rh = resize_round_eq [OF assms(4)]
  have pos: "0 < ?w" "?w \<le> 8192" "0 < ?h" "?h \<le> 8192" using rw(3) rh(3) by (simp_all add: extent_ok_def)
  have stride: "4 * ?w \<le> cs ?w" using assms(1) pos by (simp add: stride_ok_def)
  show thesis
  proof (cases "?w = state_buffer_width st \<and> ?h = state_buffer_height st")
    case True
    then obtain rows where "state_buffer st = Some rows" using old(4) pos by (cases "state_buffer st") auto
    moreover have "XFW_guac_display_layer_buffer_resize cs st w h = Inr st"
      using True assms(2) by (simp add: XFW_guac_display_layer_buffer_resize_def)
    ultimately show thesis using True old(3) rw rh assms(3, 4) by (intro that [of st]) (auto simp: state_ok_def)
  next
    case False
    define blank where "blank = replicate (nat ?h) (replicate (nat (cs ?w) div 4) (0 :: pixel))"
    have blank: "length blank = nat ?h" "\<And>i. i < nat ?h \<Longrightarrow> ?w \<le> int (length (blank ! i))"
      using stride pos by (auto simp: blank_def)
    obtain rows where rows: "XFW_guac_display_layer_buffer_resize cs st w h = Inr (st\<lparr>state_buffer := Some rows,
        state_buffer_width := ?w, state_buffer_height := ?h, state_buffer_stride := cs ?w\<rparr>)"
      "length rows = nat ?h" "\<And>i. i < nat ?h \<Longrightarrow> ?w \<le> int (length (rows ! i))"
      "\<And>x y. int x < state_buffer_width st \<Longrightarrow> int y < state_buffer_height st \<Longrightarrow> int x < ?w \<Longrightarrow> int y < ?h \<Longrightarrow>
        rows ! y ! x = rows_of st ! y ! x"
    proof (cases "state_buffer st")
      case None
      then show ?thesis using False assms(2) pos stride blank old(4)
        by (intro that [of blank]) (auto simp: XFW_guac_display_layer_buffer_resize_def Let_def blank_def [symmetric])
    next
      case (Some src)
      obtain rows where c: "guac_imgcpy blank ?w ?h src (state_buffer_width st) (state_buffer_height st) = Inr rows"
        "length rows = length blank"
        "\<And>i. i < length blank \<Longrightarrow> ?w \<le> int (length (blank ! i)) \<Longrightarrow> length (rows ! i) = length (blank ! i)"
        "\<And>x y. y < length blank \<Longrightarrow> ?w \<le> int (length (blank ! y)) \<Longrightarrow> int x < ?w \<Longrightarrow> int y < ?h \<Longrightarrow>
           int x < state_buffer_width st \<Longrightarrow> int y < state_buffer_height st \<Longrightarrow> rows ! y ! x = src ! y ! x"
        using imgcpy_spec [of ?w ?h "state_buffer_width st" "state_buffer_height st" src blank] old Some pos by (metis less_imp_le)
      have "XFW_guac_display_layer_buffer_resize cs st w h = Inr (st\<lparr>state_buffer := Some rows,
          state_buffer_width := ?w, state_buffer_height := ?h, state_buffer_stride := cs ?w\<rparr>)"
        using False assms(2) pos stride Some c(1)
        by (auto simp: XFW_guac_display_layer_buffer_resize_def Let_def blank_def [symmetric])
      then show ?thesis using c blank Some by (intro that [of rows]) (auto simp: rows_of_def)
    qed
    have "\<forall>row \<in> set rows. ?w \<le> int (length row)" using rows(2, 3) by (auto simp: in_set_conv_nth)
    then show thesis using rows rw rh assms(3, 4) pos
      by (intro that [OF rows(1)]) (auto simp: state_ok_def rows_of_def)
  qed
qed

lemma cell_rows_spec:
  assumes "length cells = w * h"
  shows "length (cell_rows w h cells) = h" "row \<in> set (cell_rows w h cells) \<Longrightarrow> length row = w \<and> set row \<subseteq> set cells"
proof -
  show "length row = w \<and> set row \<subseteq> set cells" if row: "row \<in> set (cell_rows w h cells)"
  proof -
    from row obtain y where y: "y < h" "row = take w (drop (y * w) cells)" by (auto simp: cell_rows_def)
    have "y * w + w \<le> h * w" using y(1) by (metis Suc_leI add.commute mult_Suc mult_le_mono1)
    then show ?thesis using y assms by (auto simp: mult.commute dest: in_set_takeD in_set_dropD)
  qed
qed (simp add: cell_rows_def)

lemma length_concat_equal: "\<forall>row \<in> set rows. length row = n \<Longrightarrow> length (concat rows) = n * length rows"
  by (induction rows) simp_all

lemma cells_resize_spec:
  assumes "cells_wf l" "extent_ok w" "extent_ok h"
  obtains l' where "PFW_guac_display_layer_pending_frame_cells_resize l w h = Inr l'" "cells_wf l'"
    "int (layer_cells_width l') = GUAC_DISPLAY_CELL_DIMENSION w" "int (layer_cells_height l') = GUAC_DISPLAY_CELL_DIMENSION h"
    "l' = l\<lparr>layer_cells := layer_cells l', layer_cells_width := layer_cells_width l', layer_cells_height := layer_cells_height l'\<rparr>"
proof -
  let ?w = "GUAC_DISPLAY_CELL_DIMENSION w" and ?h = "GUAC_DISPLAY_CELL_DIMENSION h"
  have pos: "0 < ?w" "0 < ?h" using cell_dimension_eq assms(2, 3) by blast+
  show thesis
  proof (cases "?w = int (layer_cells_width l) \<and> ?h = int (layer_cells_height l)")
    case True
    then show thesis using assms(1)
      by (intro that [of l]) (simp_all add: PFW_guac_display_layer_pending_frame_cells_resize_def)
  next
    case False
    define blank where "blank = replicate (nat ?h) (replicate (nat ?w) zero_cell)"
    have len: "length (layer_cells l) = layer_cells_width l * layer_cells_height l"
      and clean: "\<forall>c \<in> set (layer_cells l). cell_dirty_size c = 0"
      using assms(1) by (simp_all add: cells_wf_def list_all_iff)
    let ?old = "cell_rows (layer_cells_width l) (layer_cells_height l) (layer_cells l)"
    note old = cell_rows_spec [OF len]
    have zero: "cell_dirty_size zero_cell = 0" by (simp add: zero_cell_def)
    obtain rows where rows: "guac_imgcpy blank ?w ?h ?old (int (layer_cells_width l)) (int (layer_cells_height l)) = Inr rows"
      "length rows = length blank" "\<And>i. i < length blank \<Longrightarrow> ?w \<le> int (length (blank ! i)) \<Longrightarrow> length (rows ! i) = length (blank ! i)"
      "\<And>i. i < length blank \<Longrightarrow> set (rows ! i) \<subseteq> set (blank ! i) \<union> \<Union> (set ` set ?old)"
      using imgcpy_spec [of ?w ?h "int (layer_cells_width l)" "int (layer_cells_height l)" ?old blank] old pos
      by (metis less_imp_le of_nat_0_le_iff order_refl)
    define new where "new = (if layer_cells l \<noteq> [] then rows else blank)"
    have eq: "PFW_guac_display_layer_pending_frame_cells_resize l w h = Inr (l\<lparr>layer_cells := concat new,
        layer_cells_width := nat ?w, layer_cells_height := nat ?h\<rparr>)"
      using False rows(1) pos
      by (auto simp: PFW_guac_display_layer_pending_frame_cells_resize_def Let_def blank_def [symmetric] new_def)
    have n: "length new = nat ?h" "\<forall>row \<in> set new. length row = nat ?w \<and> (\<forall>c \<in> set row. cell_dirty_size c = 0)"
    proof -
      show "length new = nat ?h" using rows(2) by (simp add: new_def blank_def)
      have "length (rows ! i) = nat ?w \<and> (\<forall>c \<in> set (rows ! i). cell_dirty_size c = 0)" if "i < nat ?h" for i
      proof
        show "length (rows ! i) = nat ?w" using rows(3) [of i] that pos by (simp add: blank_def)
        have "set (rows ! i) \<subseteq> insert zero_cell (set (layer_cells l))"
          using rows(4) [of i] that old(2) by (force simp: blank_def)
        then show "\<forall>c \<in> set (rows ! i). cell_dirty_size c = 0" using clean zero by blast
      qed
      then show "\<forall>row \<in> set new. length row = nat ?w \<and> (\<forall>c \<in> set row. cell_dirty_size c = 0)"
        using rows(2) zero by (simp add: new_def blank_def all_set_conv_all_nth)
    qed
    then have "length (concat new) = nat ?w * nat ?h" using length_concat_equal [of new "nat ?w"] by simp
    then show thesis using n pos by (intro that [OF eq]) (auto simp: cells_wf_def list_all_iff)
  qed
qed

section \<open>Every operation keeps the invariant\<close>

lemma layer_resize_fields:
  assumes "cells_wf l" "extent_ok w" "extent_ok h"
    and "(if \<not> state_buffer_is_external (layer_pending_frame l)
      then XFW_guac_display_layer_buffer_resize cs (layer_pending_frame l) w h else Inr (layer_pending_frame l)) = Inr st'"
  obtains l' where "PFW_guac_display_layer_resize cs l w h = Inr l'" "cells_wf l'"
    "int (layer_cells_width l') = GUAC_DISPLAY_CELL_DIMENSION w" "int (layer_cells_height l') = GUAC_DISPLAY_CELL_DIMENSION h"
    "layer_pending_frame l' = st'\<lparr>state_width := w, state_height := h\<rparr>"
    "l' = l\<lparr>layer_cells := layer_cells l', layer_cells_width := layer_cells_width l', layer_cells_height := layer_cells_height l',
       layer_pending_frame := layer_pending_frame l'\<rparr>"
proof -
  have "cells_wf (l\<lparr>layer_pending_frame := st'\<rparr>)" using assms(1) by (simp add: cells_wf_def)
  then obtain l2 where l2: "PFW_guac_display_layer_pending_frame_cells_resize (l\<lparr>layer_pending_frame := st'\<rparr>) w h = Inr l2" "cells_wf l2"
    "int (layer_cells_width l2) = GUAC_DISPLAY_CELL_DIMENSION w" "int (layer_cells_height l2) = GUAC_DISPLAY_CELL_DIMENSION h"
    and l2': "l2 = (l\<lparr>layer_pending_frame := st'\<rparr>)\<lparr>layer_cells := layer_cells l2, layer_cells_width := layer_cells_width l2, layer_cells_height := layer_cells_height l2\<rparr>"
    by (rule cells_resize_spec [OF _ assms(2, 3)])
  have pending: "layer_pending_frame l2 = st'" by (subst l2', simp)
  show thesis
  proof (rule that)
    show "PFW_guac_display_layer_resize cs l w h = Inr (l2\<lparr>layer_pending_frame := st'\<lparr>state_width := w, state_height := h\<rparr>\<rparr>)"
      using assms(4) l2(1) pending by (simp add: PFW_guac_display_layer_resize_def)
    show "l2\<lparr>layer_pending_frame := st'\<lparr>state_width := w, state_height := h\<rparr>\<rparr> = l\<lparr>layer_cells := layer_cells (l2\<lparr>layer_pending_frame := st'\<lparr>state_width := w, state_height := h\<rparr>\<rparr>),
        layer_cells_width := layer_cells_width (l2\<lparr>layer_pending_frame := st'\<lparr>state_width := w, state_height := h\<rparr>\<rparr>),
        layer_cells_height := layer_cells_height (l2\<lparr>layer_pending_frame := st'\<lparr>state_width := w, state_height := h\<rparr>\<rparr>),
        layer_pending_frame := layer_pending_frame (l2\<lparr>layer_pending_frame := st'\<lparr>state_width := w, state_height := h\<rparr>\<rparr>)\<rparr>"
      by (subst l2') simp
  qed (use l2 in \<open>simp_all add: cells_wf_def\<close>)
qed

text \<open>The fields of a layer that only its allocation sets, and the last frame.\<close>

definition same_layer :: "guac_display_layer \<Rightarrow> guac_display_layer \<Rightarrow> bool" where
  "same_layer l l' \<longleftrightarrow> layer_number l' = layer_number l \<and> layer_layer l' = layer_layer l \<and> layer_opaque l' = layer_opaque l \<and>
     layer_last_frame_buffer l' = layer_last_frame_buffer l \<and> layer_last_frame l' = layer_last_frame l"

lemma layer_resize_inv:
  assumes "stride_ok cs" "layer_inv l" "extent_ok w" "extent_ok h"
    and ext: "state_buffer_is_external (layer_pending_frame l) \<Longrightarrow>
      w \<le> state_buffer_width (layer_pending_frame l) \<and> h \<le> state_buffer_height (layer_pending_frame l)"
  obtains l' where "PFW_guac_display_layer_resize cs l w h = Inr l'" "layer_inv l'" "same_layer l l'"
    "state_width (layer_pending_frame l') = w" "state_height (layer_pending_frame l') = h"
    "state_buffer_is_external (layer_pending_frame l') = state_buffer_is_external (layer_pending_frame l)"
    "\<And>x y. int x < min w (state_width (layer_pending_frame l)) \<Longrightarrow> int y < min h (state_height (layer_pending_frame l)) \<Longrightarrow>
      rows_of (layer_pending_frame l') ! y ! x = rows_of (layer_pending_frame l) ! y ! x"
proof -
  let ?st = "layer_pending_frame l"
  have inv: "state_ok ?st" "cells_wf l" "state_ok (layer_last_frame l)"
    "guac_rect_is_empty (layer_dirty l) \<or> rect_ok (layer_dirty l)"
    using assms(2) by (simp_all add: layer_inv_def)
  obtain st' where st': "(if \<not> state_buffer_is_external ?st then XFW_guac_display_layer_buffer_resize cs ?st w h else Inr ?st) = Inr st'"
    "state_ok (st'\<lparr>state_width := w, state_height := h\<rparr>)"
    "\<And>x y. int x < state_buffer_width ?st \<Longrightarrow> int y < state_buffer_height ?st \<Longrightarrow> int x < w \<Longrightarrow> int y < h \<Longrightarrow>
      rows_of st' ! y ! x = rows_of ?st ! y ! x"
    "state_buffer_is_external st' = state_buffer_is_external ?st"
  proof (cases "state_buffer_is_external ?st")
    case True
    then show ?thesis using inv(1) ext assms(3, 4) by (intro that [of ?st]) (auto simp: state_ok_def)
  next
    case False
    obtain st' where "XFW_guac_display_layer_buffer_resize cs ?st w h = Inr st'"
      "state_ok (st'\<lparr>state_width := w, state_height := h\<rparr>)"
      and e: "st' = ?st\<lparr>state_buffer := state_buffer st', state_buffer_width := state_buffer_width st',
        state_buffer_height := state_buffer_height st', state_buffer_stride := state_buffer_stride st'\<rparr>"
      and "\<forall>x y. int x < state_buffer_width ?st \<longrightarrow> int y < state_buffer_height ?st \<longrightarrow> int x < w \<longrightarrow> int y < h \<longrightarrow>
        rows_of st' ! y ! x = rows_of ?st ! y ! x"
      by (rule buffer_resize_spec [OF assms(1) False assms(3, 4)])
        (use inv(1) in \<open>auto simp: state_ok_def extent_ok_def\<close>)
    moreover have "state_buffer_is_external st' = state_buffer_is_external ?st" by (subst e, simp)
    ultimately show ?thesis using False by (intro that [of st']) auto
  qed
  obtain l' where l': "PFW_guac_display_layer_resize cs l w h = Inr l'" "cells_wf l'"
    "int (layer_cells_width l') = GUAC_DISPLAY_CELL_DIMENSION w" "int (layer_cells_height l') = GUAC_DISPLAY_CELL_DIMENSION h"
    "layer_pending_frame l' = st'\<lparr>state_width := w, state_height := h\<rparr>"
    and e: "l' = l\<lparr>layer_cells := layer_cells l', layer_cells_width := layer_cells_width l', layer_cells_height := layer_cells_height l',
       layer_pending_frame := layer_pending_frame l'\<rparr>"
    by (rule layer_resize_fields [OF inv(2) assms(3, 4) st'(1)])
  have f: "layer_last_frame l' = layer_last_frame l" "layer_dirty l' = layer_dirty l" by (subst e, simp)+
  show thesis
  proof (rule that [OF l'(1)])
    show "layer_inv l'" using inv l' st'(2) f by (simp add: layer_inv_def)
    show "same_layer l l'" unfolding same_layer_def by (subst (1 2 3 4 5) e) simp
    show "rows_of (layer_pending_frame l') ! y ! x = rows_of ?st ! y ! x"
      if "int x < min w (state_width ?st)" "int y < min h (state_height ?st)" for x y
      using st'(3) [of x y] that inv(1) l'(5) by (simp add: rows_of_def state_ok_def)
  qed (simp_all add: l'(5) st'(4))
qed

lemma draw_rows_spec:
  assumes "in_rows r rows" "\<And>y. length (new y) = nat (rect_right r - rect_left r)" "rect_left r < rect_right r"
  shows "length (draw_rows r new rows) = length rows"
    "y < length rows \<Longrightarrow> length (draw_rows r new rows ! y) = length (rows ! y)"
    "y < length rows \<Longrightarrow> x < length (rows ! y) \<Longrightarrow> draw_rows r new rows ! y ! x =
      (if (int x, int y) \<in> rect_area r then new y ! nat (int x - rect_left r) else rows ! y ! x)"
proof -
  show "length (draw_rows r new rows) = length rows" by (simp add: draw_rows_def)
  have r: "0 \<le> rect_left r" "y < length rows \<Longrightarrow> rect_right r \<le> int (length (rows ! y))"
    using assms(1) by (simp_all add: in_rows_def list_all_length)
  show "length (draw_rows r new rows ! y) = length (rows ! y)" if "y < length rows"
    using that r assms(2, 3) by (auto simp: draw_rows_def)
  show "draw_rows r new rows ! y ! x =
      (if (int x, int y) \<in> rect_area r then new y ! nat (int x - rect_left r) else rows ! y ! x)"
    if y: "y < length rows" "x < length (rows ! y)"
  proof (cases "rect_top r \<le> int y \<and> int y < rect_bottom r")
    case False
    then show ?thesis using y by (auto simp: draw_rows_def rect_area_def box_def)
  next
    case True
    then have d: "draw_rows r new rows ! y = take (nat (rect_left r)) (rows ! y) @ new y @ drop (nat (rect_right r)) (rows ! y)"
      using y assms(3) by (simp add: draw_rows_def)
    consider "int x < rect_left r" | "rect_left r \<le> int x" "int x < rect_right r" | "rect_right r \<le> int x" by linarith
    then show ?thesis
    proof cases
      case 1
      then have "x < nat (rect_left r)" "(int x, int y) \<notin> rect_area r" by (auto simp: rect_area_def box_def)
      then show ?thesis using d y r by (simp add: nth_append)
    next
      case 2
      have "x - nat (rect_left r) = nat (int x - rect_left r)" "\<not> x < nat (rect_left r)" using 2 r by (simp_all add: nat_diff_distrib)
      moreover have "(int x, int y) \<in> rect_area r" using 2 True by (simp add: rect_area_def box_def)
      ultimately show ?thesis using 2 d y r assms(2) by (simp add: nth_append)
    next
      case 3
      define a b where "a = nat (rect_left r)" and "b = nat (rect_right r)"
      have ab: "a < b" "b \<le> x" "length (new y) = b - a" "a \<le> length (rows ! y)"
        using 3 r(1) y assms(2, 3) by (simp_all add: a_def b_def nat_diff_distrib)
      then have "x - a - (b - a) = x - b" "\<not> x < a" "\<not> x - a < b - a" by simp_all
      then have "draw_rows r new rows ! y ! x = rows ! y ! x"
        using ab y d by (simp add: a_def [symmetric] b_def [symmetric] nth_append)
      moreover have "(int x, int y) \<notin> rect_area r" using 3 by (auto simp: rect_area_def box_def)
      ultimately show ?thesis by simp
    qed
  qed
qed

text \<open>
  A context that a layer can be closed with: it has a buffer, which is large enough for the
  layer or, for an external buffer, for the bounds that the caller has set.
\<close>

definition context_for :: "guac_display_layer \<Rightarrow> guac_display_layer_raw_context \<Rightarrow> bool" where
  "context_for l context \<longleftrightarrow> rect_ok (context_dirty context) \<and> (\<exists>rows. context_buffer context = Some rows \<and>
     (if state_buffer_is_external (layer_pending_frame l) \<or> context_replaced context
      then 0 < guac_rect_width (context_bounds context) \<and> 0 < guac_rect_height (context_bounds context) \<and>
        min (guac_rect_height (context_bounds context)) 8192 \<le> int (length rows) \<and>
        (\<forall>row \<in> set rows. min (guac_rect_width (context_bounds context)) 8192 \<le> int (length row))
      else state_buffer_height (layer_pending_frame l) \<le> int (length rows) \<and>
        (\<forall>row \<in> set rows. state_buffer_width (layer_pending_frame l) \<le> int (length row))))"

lemma rect_ok_extend: "guac_rect_is_empty a \<or> rect_ok a \<Longrightarrow> rect_ok b \<Longrightarrow> rect_ok (guac_rect_extend a b)"
  by (auto simp: rect_ok_def guac_rect_extend_def Let_def)

lemma close_raw_inv:
  assumes "layer_inv l" "context_for l context"
  obtains l' where "close_raw_layer cs l context = Inr l'" "layer_inv l'" "same_layer l l'"
    "layer_dirty l' = guac_rect_extend (layer_dirty l) (context_dirty context)"
    "state_buffer (layer_pending_frame l') = context_buffer context"
proof -
  let ?ext = "state_buffer_is_external (layer_pending_frame l) \<or> context_replaced context"
  define st where "st = (layer_pending_frame l)\<lparr>state_buffer := context_buffer context, state_buffer_is_external := ?ext\<rparr>"
  have inv: "state_ok (layer_pending_frame l)" "cells_wf l" "state_ok (layer_last_frame l)"
    "guac_rect_is_empty (layer_dirty l) \<or> rect_ok (layer_dirty l)"
    using assms(1) by (simp_all add: layer_inv_def)
  obtain rows where rows: "context_buffer context = Some rows" using assms(2) by (auto simp: context_for_def)
  have dirty: "rect_ok (guac_rect_extend (layer_dirty l) (context_dirty context))"
    using inv(4) assms(2) by (simp add: rect_ok_extend context_for_def)
  show thesis
  proof (cases ?ext)
    case False
    then have "state_ok st" using inv(1) assms(2) rows by (auto simp: state_ok_def st_def context_for_def)
    then show thesis using False assms(1) dirty
      by (intro that [of "l\<lparr>layer_pending_frame := st, layer_dirty := guac_rect_extend (layer_dirty l) (context_dirty context)\<rparr>"])
        (auto simp: close_raw_layer_def st_def layer_inv_def same_layer_def cells_wf_def)
  next
    case True
    define w where "w = min (guac_rect_width (context_bounds context)) 8192"
    define h where "h = min (guac_rect_height (context_bounds context)) 8192"
    define l1 where "l1 = l\<lparr>layer_pending_frame := st\<lparr>state_buffer_width := w, state_buffer_height := h,
      state_buffer_stride := context_stride context\<rparr>\<rparr>"
    have wh: "extent_ok w" "extent_ok h" "h \<le> int (length rows)" "\<forall>row \<in> set rows. w \<le> int (length row)"
      using assms(2) True rows by (auto simp: extent_ok_def w_def h_def context_for_def)
    have cells: "cells_wf l1" using inv(2) by (simp add: cells_wf_def l1_def)
    have "(if \<not> state_buffer_is_external (layer_pending_frame l1)
        then XFW_guac_display_layer_buffer_resize cs (layer_pending_frame l1) w h else Inr (layer_pending_frame l1)) = Inr (layer_pending_frame l1)"
      using True by (simp add: l1_def st_def)
    then obtain l' where l': "PFW_guac_display_layer_resize cs l1 w h = Inr l'" "cells_wf l'"
      "int (layer_cells_width l') = GUAC_DISPLAY_CELL_DIMENSION w" "int (layer_cells_height l') = GUAC_DISPLAY_CELL_DIMENSION h"
      "layer_pending_frame l' = (layer_pending_frame l1)\<lparr>state_width := w, state_height := h\<rparr>"
      and e: "l' = l1\<lparr>layer_cells := layer_cells l', layer_cells_width := layer_cells_width l', layer_cells_height := layer_cells_height l',
         layer_pending_frame := layer_pending_frame l'\<rparr>"
      by (rule layer_resize_fields [OF cells wh(1, 2)])
    have f: "layer_last_frame l' = layer_last_frame l" "layer_dirty l' = layer_dirty l" "same_layer l l'"
      unfolding same_layer_def by (subst e, simp add: l1_def)+
    have eq: "close_raw_layer cs l context = Inr (l'\<lparr>layer_dirty := guac_rect_extend (layer_dirty l) (context_dirty context)\<rparr>)"
    proof -
      have wd: "(if guac_rect_width (context_bounds context) > int GUAC_DISPLAY_MAX_WIDTH then int GUAC_DISPLAY_MAX_WIDTH
          else guac_rect_width (context_bounds context)) = w"
        "(if guac_rect_height (context_bounds context) > GUAC_DISPLAY_MAX_HEIGHT then GUAC_DISPLAY_MAX_HEIGHT
          else guac_rect_height (context_bounds context)) = h"
        by (simp_all add: w_def h_def GUAC_DISPLAY_MAX_WIDTH_def GUAC_DISPLAY_MAX_HEIGHT_def)
      show ?thesis unfolding close_raw_layer_def Let_def wd
        using True l'(1) f(2) by (simp add: l1_def st_def)
    qed
    have "state_ok (layer_pending_frame l')"
      using wh rows by (simp add: l'(5) l1_def st_def state_ok_def)
    then show thesis using l' inv(3) f dirty rows
      by (intro that [OF eq]) (auto simp: layer_inv_def cells_wf_def same_layer_def l1_def st_def)
  qed
qed


section \<open>The invariant of a display\<close>

text \<open>The integers of the buffer pool that a layer holds.\<close>

definition layer_buffers :: "guac_display_layer \<Rightarrow> int list" where
  "layer_buffers l = int (layer_last_frame_buffer l) # (if layer_layer l < 0 then [- layer_layer l - 1] else [])"

abbreviation all_layers :: "guac_display \<Rightarrow> guac_display_layer list" where
  "all_layers d \<equiv> display_layers d @ display_removed d"

definition display_inv :: "guac_display \<Rightarrow> bool" where
  "display_inv d \<longleftrightarrow> list_all layer_inv (display_layers d) \<and> list_all (\<lambda>l. state_ok (layer_last_frame l)) (display_removed d) \<and>
     distinct (map layer_number (all_layers d)) \<and> (\<forall>l \<in> set (all_layers d). layer_number l < display_next d) \<and>
     distinct (display_last_layers d) \<and> set (display_last_layers d) \<subseteq> layer_number ` set (all_layers d) \<and>
     distinct (concat (map layer_buffers (all_layers d))) \<and>
     (\<exists>U. pool_ok (client_buffer_pool (display_client d)) U \<and> set (concat (map layer_buffers (all_layers d))) \<subseteq> U) \<and>
     int (length (filter (\<lambda>l. layer_layer l > 0) (all_layers d))) \<le> active (client_layer_pool (display_client d))"

lemma pool_next_int_fresh:
  assumes "pool_next_int p = Inr (v, p')" "pool_ok p U"
  shows "0 \<le> v \<and> v \<notin> U \<and> pool_ok p' (insert v U)"
proof -
  have "next_value p < INT_MAX" using assms(1) by (auto simp: pool_next_int_def guac_assert_def split: if_splits)
  from pool_next_int_ok [OF assms(2) this] show ?thesis using assms(1) by (metis Inr_inject prod.inject)
qed

lemma add_layer_inv:
  assumes cs: "stride_ok cs" and inv: "display_inv d" and r: "guac_display_add_layer cs d idx op = Inr (n, d')"
    and idx: "idx < 0 \<Longrightarrow> - idx - 1 \<notin> set (concat (map layer_buffers (all_layers d))) \<and>
      (\<exists>U. pool_ok (client_buffer_pool (display_client d)) U \<and> insert (- idx - 1) (set (concat (map layer_buffers (all_layers d)))) \<subseteq> U)"
      "0 < idx \<Longrightarrow> int (length (filter (\<lambda>l. layer_layer l > 0) (all_layers d))) + 1 \<le> active (client_layer_pool (display_client d))"
  shows "display_inv d' \<and> n = display_next d"
proof -
  have e64: "extent_ok 64" by (simp add: extent_ok_def)
  let ?z = "zero_state\<lparr>state_width := 64, state_height := 64, state_opacity := 0xFF, state_parent := 0\<rparr>"
  obtain st where st: "XFW_guac_display_layer_buffer_resize cs ?z 64 64 = Inr st"
    "state_ok (st\<lparr>state_width := 64, state_height := 64\<rparr>)"
    "st = ?z\<lparr>state_buffer := state_buffer st, state_buffer_width := state_buffer_width st,
       state_buffer_height := state_buffer_height st, state_buffer_stride := state_buffer_stride st\<rparr>"
    by (rule buffer_resize_spec [OF cs _ e64 e64, of ?z]) (simp_all add: zero_state_def)
  have wh: "state_width st = 64" "state_height st = 64" by (subst st(3), simp)+
  then have sok: "state_ok st" using st(2) by (simp add: state_ok_def)
  have init: "PFW_LFW_guac_display_layer_state_init cs zero_state zero_state = Inr (st, st)"
    using st(1) by (simp add: PFW_LFW_guac_display_layer_state_init_def GUAC_DISPLAY_RESIZE_FACTOR_def)
  obtain b c where b: "guac_client_alloc_buffer (display_client d) = Inr (b, c)"
    using r init by (auto simp: guac_display_add_layer_def split: sum.splits)
  then obtain v p where v: "pool_next_int (client_buffer_pool (display_client d)) = Inr (v, p)" "b = - v - 1"
    "c = (display_client d)\<lparr>client_buffer_pool := p\<rparr>"
    by (auto simp: guac_client_alloc_buffer_def guac_pool_next_int_def split: sum.splits)
  let ?used = "set (concat (map layer_buffers (all_layers d)))"
  let ?own = "if idx < 0 then {- idx - 1} else {}"
  obtain U where U: "pool_ok (client_buffer_pool (display_client d)) U" "?used \<union> ?own \<subseteq> U"
    using inv idx(1) unfolding display_inv_def by (cases "idx < 0") auto
  note fresh = pool_next_int_fresh [OF v(1) U(1)]
  define l0 where "l0 = \<lparr>layer_dirty = zero_rect, layer_cells = [], layer_cells_width = 0, layer_cells_height = 0,
    layer_number = display_next d, layer_layer = idx, layer_opaque = op, layer_last_frame = st,
    layer_last_frame_buffer = nat v, layer_last_dirty = zero_rect, layer_pending_frame = st\<rparr>"
  have "cells_wf l0" by (simp add: cells_wf_def l0_def)
  then obtain l where l: "PFW_guac_display_layer_pending_frame_cells_resize l0 64 64 = Inr l" "cells_wf l"
    "int (layer_cells_width l) = GUAC_DISPLAY_CELL_DIMENSION 64" "int (layer_cells_height l) = GUAC_DISPLAY_CELL_DIMENSION 64"
    and lf: "l = l0\<lparr>layer_cells := layer_cells l, layer_cells_width := layer_cells_width l, layer_cells_height := layer_cells_height l\<rparr>"
    by (rule cells_resize_spec [OF _ e64 e64])
  have f: "layer_number l = display_next d" "layer_layer l = idx" "layer_last_frame_buffer l = nat v"
    "layer_last_frame l = st" "layer_pending_frame l = st" "layer_dirty l = zero_rect"
    by (subst lf, simp add: l0_def)+
  have d': "d' = d\<lparr>display_client := c, display_layers := l # display_layers d, display_next := display_next d + 1\<rparr>"
    "n = display_next d"
    using r init b l(1) wh v(2) by (auto simp: guac_display_add_layer_def l0_def [symmetric])
  have "layer_inv l" using sok l wh f by (simp add: layer_inv_def rect_ok_def zero_rect_def coord_def)
  moreover have bufs: "layer_buffers l = v # (if idx < 0 then [- idx - 1] else [])"
    using fresh f by (simp add: layer_buffers_def)
  moreover have "v \<notin> ?used" "idx < 0 \<Longrightarrow> v \<noteq> - idx - 1" using fresh U(2) by auto
  moreover have "insert v U \<supseteq> ?used \<union> set (layer_buffers l)" using U(2) bufs by (auto split: if_splits)
  ultimately show ?thesis
    using inv d' f idx fresh v(3) unfolding display_inv_def by (auto simp: less_Suc_eq image_subset_iff)
qed

lemma alloc_layer_inv:
  assumes "stride_ok cs" "display_inv d" "guac_display_alloc_layer cs d op = Inr (n, d')"
  shows "display_inv d'"
proof -
  obtain i c where i: "guac_client_alloc_layer (display_client d) = Inr (i, c)"
    "guac_display_add_layer cs (d\<lparr>display_client := c\<rparr>) i op = Inr (n, d')"
    using assms(3) by (auto simp: guac_display_alloc_layer_def split: sum.splits)
  then obtain v p where v: "pool_next_int (client_layer_pool (display_client d)) = Inr (v, p)" "i = v + 1"
    "c = (display_client d)\<lparr>client_layer_pool := p\<rparr>"
    by (auto simp: guac_client_alloc_layer_def guac_pool_next_int_def split: sum.splits)
  then have p: "active p = active (client_layer_pool (display_client d)) + 1" "0 \<le> v"
    by (auto simp: pool_next_int_def guac_assert_def Let_def split: if_splits list.splits)
  have "display_inv (d\<lparr>display_client := c\<rparr>)" using assms(2) p v(3) unfolding display_inv_def by auto
  then show ?thesis using assms(2) p v
    by (intro conjunct1 [OF add_layer_inv [OF assms(1) _ i(2)]]) (auto simp: display_inv_def)
qed

lemma alloc_buffer_inv:
  assumes "stride_ok cs" "display_inv d" "guac_display_alloc_buffer cs d op = Inr (n, d')"
  shows "display_inv d'"
proof -
  obtain i c where i: "guac_client_alloc_buffer (display_client d) = Inr (i, c)"
    "guac_display_add_layer cs (d\<lparr>display_client := c\<rparr>) i op = Inr (n, d')"
    using assms(3) by (auto simp: guac_display_alloc_buffer_def split: sum.splits)
  then obtain v p where v: "pool_next_int (client_buffer_pool (display_client d)) = Inr (v, p)" "i = - v - 1"
    "c = (display_client d)\<lparr>client_buffer_pool := p\<rparr>"
    by (auto simp: guac_client_alloc_buffer_def guac_pool_next_int_def split: sum.splits)
  let ?used = "set (concat (map layer_buffers (all_layers d)))"
  obtain U where U: "pool_ok (client_buffer_pool (display_client d)) U" "?used \<subseteq> U"
    using assms(2) unfolding display_inv_def by blast
  note fresh = pool_next_int_fresh [OF v(1) U(1)]
  have pool: "pool_ok (client_buffer_pool c) (insert v U)" using fresh v(3) by simp
  have "display_inv (d\<lparr>display_client := c\<rparr>)"
    using assms(2) pool U(2) v(3) unfolding display_inv_def by (auto intro!: exI [of _ "insert v U"])
  moreover have "v \<notin> ?used" using fresh U(2) by blast
  ultimately show ?thesis using pool U(2) v fresh
    by (intro conjunct1 [OF add_layer_inv [OF assms(1) _ i(2)]]) (auto intro!: exI [of _ "insert v U"])
qed

lemma layer_of_split:
  assumes "layer_of ls n = Some l" "distinct (map layer_number ls)"
  obtains xs ys where "ls = xs @ l # ys" "filter (\<lambda>l. layer_number l \<noteq> n) ls = xs @ ys"
    "\<forall>f. map (\<lambda>k. if layer_number k = n then f k else k) ls = xs @ f l # ys" "layer_number l = n"
proof -
  have l: "l \<in> set ls" "layer_number l = n" using assms(1) by (auto simp: layer_of_def find_Some_iff)
  then obtain xs ys where ls: "ls = xs @ l # ys" by (auto simp: in_set_conv_decomp)
  have "distinct (map layer_number (xs @ l # ys))" using assms(2) ls by simp
  then have other: "\<forall>k \<in> set (xs @ ys). layer_number k \<noteq> n" unfolding l(2) [symmetric] by (simp add: image_iff) (metis Un_iff)
  have keep: "map (\<lambda>k. if layer_number k = n then f k else k) xs = xs \<and> map (\<lambda>k. if layer_number k = n then f k else k) ys = ys" for f
    using other by (simp add: map_idI)
  show thesis
  proof (rule that [OF ls])
    show "filter (\<lambda>l. layer_number l \<noteq> n) ls = xs @ ys" using other l(2) by (simp add: ls filter_id_conv)
    show "\<forall>f. map (\<lambda>k. if layer_number k = n then f k else k) ls = xs @ f l # ys"
    proof
      show "map (\<lambda>k. if layer_number k = n then f k else k) ls = xs @ f l # ys" for f
        using keep [of f] l(2) by (simp add: ls)
    qed
  qed (rule l(2))
qed

lemma display_inv_distinct: "display_inv d \<Longrightarrow> distinct (map layer_number (display_layers d))"
  by (simp add: display_inv_def)

text \<open>The invariant does not depend on the order of the layers.\<close>

definition layer_summary :: "guac_display_layer \<Rightarrow> nat \<times> int list \<times> bool" where
  "layer_summary l = (layer_number l, layer_buffers l, layer_layer l > 0)"

lemma summary_part:
  assumes "mset (map layer_summary xs) = mset (map layer_summary ys)" "\<And>l. f l = g (layer_summary l)"
  shows "mset (map f xs) = mset (map f ys)"
proof -
  have "f = g \<circ> layer_summary" using assms(2) by (simp add: fun_eq_iff)
  then have "mset (map f ls) = image_mset g (mset (map layer_summary ls))" for ls
    by (simp add: multiset.map_comp)
  then show ?thesis using assms(1) by metis
qed

lemma display_inv_summary:
  assumes "display_inv d" "mset (map layer_summary (all_layers d')) = mset (map layer_summary (all_layers d))"
    and same: "display_client d' = display_client d" "display_next d' = display_next d" "display_last_layers d' = display_last_layers d"
    and "list_all layer_inv (display_layers d')" "list_all (\<lambda>l. state_ok (layer_last_frame l)) (display_removed d')"
  shows "display_inv d'"
proof -
  note part = summary_part [OF assms(2)]
  have n: "mset (map layer_number (all_layers d')) = mset (map layer_number (all_layers d))"
    by (rule part [where g = fst]) (simp add: layer_summary_def)
  have b: "mset (concat (map layer_buffers (all_layers d'))) = mset (concat (map layer_buffers (all_layers d)))"
  proof -
    have "mset (map (mset \<circ> layer_buffers) (all_layers d')) = mset (map (mset \<circ> layer_buffers) (all_layers d))"
      by (rule part [where g = "\<lambda>s. mset (fst (snd s))"]) (simp add: layer_summary_def)
    then have "sum_mset (mset (map (mset \<circ> layer_buffers) (all_layers d'))) = sum_mset (mset (map (mset \<circ> layer_buffers) (all_layers d)))"
      by (rule arg_cong)
    then show ?thesis by (simp only: mset_concat map_map sum_mset_sum_list)
  qed
  have c: "length (filter (\<lambda>l. layer_layer l > 0) (all_layers d')) = length (filter (\<lambda>l. layer_layer l > 0) (all_layers d))"
  proof -
    have "size (filter_mset (\<lambda>s. snd (snd s)) (mset (map layer_summary ls))) = length (filter (\<lambda>l. layer_layer l > 0) ls)" for ls
      by (induction ls) (simp_all add: layer_summary_def)
    then show ?thesis using assms(2) by metis
  qed
  have ns: "layer_number ` set (all_layers d') = layer_number ` set (all_layers d)"
    using mset_eq_setD [OF n] by (simp only: set_map)
  have "\<forall>n \<in> layer_number ` set (all_layers d). n < display_next d" using assms(1) unfolding display_inv_def by blast
  then have "\<forall>n \<in> layer_number ` set (all_layers d'). n < display_next d'" unfolding ns same(2) .
  then have "\<forall>l \<in> set (all_layers d'). layer_number l < display_next d'" by blast
  moreover have "distinct (map layer_number (all_layers d'))" "distinct (concat (map layer_buffers (all_layers d')))"
    using assms(1) mset_eq_imp_distinct_iff [OF n] mset_eq_imp_distinct_iff [OF b] unfolding display_inv_def by blast+
  ultimately show ?thesis
    using assms(1, 6, 7) unfolding display_inv_def same c ns mset_eq_setD [OF b] by blast
qed

lemma remove_layer_inv:
  assumes "display_inv d" "guac_display_remove_layer d n = Inr d'"
  shows "display_inv d'"
proof -
  obtain l where l: "layer_of (display_layers d) n = Some l" using assms(2)
    by (auto simp: guac_display_remove_layer_def split: option.splits)
  then obtain xs ys where ls: "display_layers d = xs @ l # ys" "filter (\<lambda>l. layer_number l \<noteq> n) (display_layers d) = xs @ ys"
    "\<forall>f. map (\<lambda>k. if layer_number k = n then f k else k) (display_layers d) = xs @ f l # ys" "layer_number l = n"
    by (rule layer_of_split [OF _ display_inv_distinct [OF assms(1)]])
  define st where "st = (if state_buffer_is_external (layer_pending_frame l)
    then (layer_pending_frame l)\<lparr>state_buffer := None\<rparr> else layer_pending_frame l)"
  have d': "d' = d\<lparr>display_layers := xs @ ys, display_removed := l\<lparr>layer_pending_frame := st\<rparr> # display_removed d\<rparr>"
    using assms(2) l ls(2) by (simp add: guac_display_remove_layer_def st_def Let_def)
  have b: "layer_buffers (l\<lparr>layer_pending_frame := st\<rparr>) = layer_buffers l" by (simp add: layer_buffers_def)
  show ?thesis
  proof (rule display_inv_summary [OF assms(1)])
    show "list_all layer_inv (display_layers d')" "list_all (\<lambda>l. state_ok (layer_last_frame l)) (display_removed d')"
      using assms(1) by (auto simp: display_inv_def d' ls(1) layer_inv_def)
  qed (simp_all add: d' ls(1) layer_summary_def b)
qed

lemma update_layer_inv:
  assumes "display_inv d" "layer_of (display_layers d) n = Some l" "layer_inv (f l)" "same_layer l (f l)"
  shows "display_inv (update_layer n f d)"
proof -
  obtain xs ys where ls: "display_layers d = xs @ l # ys" "filter (\<lambda>l. layer_number l \<noteq> n) (display_layers d) = xs @ ys"
    "\<forall>f. map (\<lambda>k. if layer_number k = n then f k else k) (display_layers d) = xs @ f l # ys" "layer_number l = n"
    by (rule layer_of_split [OF assms(2) display_inv_distinct [OF assms(1)]])
  have s: "layer_number (f l) = layer_number l" "layer_layer (f l) = layer_layer l"
    "layer_buffers (f l) = layer_buffers l" "layer_last_frame (f l) = layer_last_frame l"
    using assms(4) by (simp_all add: same_layer_def layer_buffers_def)
  show ?thesis
  proof (rule display_inv_summary [OF assms(1)])
    show "list_all layer_inv (display_layers (update_layer n f d))"
      using assms(1, 3) by (simp add: display_inv_def update_layer_def ls(3) [rule_format]) (simp add: ls(1))
    show "list_all (\<lambda>l. state_ok (layer_last_frame l)) (display_removed (update_layer n f d))"
      using assms(1) by (simp add: display_inv_def update_layer_def)
  qed (simp_all add: update_layer_def ls(3) [rule_format] layer_summary_def s, simp_all add: ls(1) layer_summary_def)
qed

lemma update_layer_none: "layer_of (display_layers d) n = None \<Longrightarrow> update_layer n f d = d"
proof -
  assume "layer_of (display_layers d) n = None"
  then have "map (\<lambda>l. if layer_number l = n then f l else l) (display_layers d) = display_layers d"
    by (intro map_idI) (auto simp: layer_of_def find_None_iff)
  then show ?thesis by (simp add: update_layer_def)
qed

lemma touch_inv [simp]: "display_inv (PFW_guac_display_layer_touch n d) = display_inv d"
  by (simp add: PFW_guac_display_layer_touch_def display_inv_def)

lemma update_pending_inv:
  assumes "display_inv d" "\<And>st. state_ok st \<Longrightarrow> state_ok (f st) \<and> state_width (f st) = state_width st \<and> state_height (f st) = state_height st"
  shows "display_inv (update_pending n f d)"
proof (cases "layer_of (display_layers d) n")
  case None
  then show ?thesis using assms(1) by (simp add: update_pending_def update_layer_none)
next
  case (Some l)
  then have "layer_inv l" using assms(1) by (auto simp: display_inv_def list_all_iff layer_of_def find_Some_iff)
  then show ?thesis unfolding update_pending_def using assms
    by (intro update_layer_inv [OF assms(1) Some]) (auto simp: layer_inv_def same_layer_def cells_wf_def)
qed

lemma setters_inv:
  assumes "display_inv d"
  shows "display_inv (guac_display_layer_move n x y d)" "display_inv (guac_display_layer_stack n z d)"
    "display_inv (guac_display_layer_set_parent n i d)" "display_inv (guac_display_layer_set_opacity n a d)"
    "display_inv (guac_display_layer_set_lossless n b d)" "display_inv (guac_display_layer_set_multitouch n t d)"
  unfolding guac_display_layer_move_def guac_display_layer_stack_def guac_display_layer_set_parent_def
    guac_display_layer_set_opacity_def guac_display_layer_set_lossless_def guac_display_layer_set_multitouch_def touch_inv
  by (rule update_pending_inv [OF assms], simp add: state_ok_def)+

lemma resize_inv:
  assumes "stride_ok cs" "display_inv d" "layer_of (display_layers d) n = Some l" "extent_ok w" "extent_ok h"
    and "state_buffer_is_external (layer_pending_frame l) \<Longrightarrow>
      w \<le> state_buffer_width (layer_pending_frame l) \<and> h \<le> state_buffer_height (layer_pending_frame l)"
  obtains d' where "guac_display_layer_resize cs n w h d = Inr d'" "display_inv d'"
proof -
  have "layer_inv l" using assms(2, 3) by (auto simp: display_inv_def list_all_iff layer_of_def find_Some_iff)
  then obtain l' where l': "PFW_guac_display_layer_resize cs l w h = Inr l'" "layer_inv l'" "same_layer l l'"
    by (rule layer_resize_inv [OF assms(1) _ assms(4-6)])
  show thesis using assms(3) l' update_layer_inv [OF assms(2, 3), of "\<lambda>_. l'"]
    by (intro that [of "PFW_guac_display_layer_touch n (update_layer n (\<lambda>_. l') d)"]) (simp_all add: guac_display_layer_resize_def)
qed

lemma close_inv:
  assumes "display_inv d" "layer_of (display_layers d) n = Some l" "context_for l context"
  obtains d' where "guac_display_layer_close_raw cs n context d = Inr d'" "display_inv d'"
proof -
  have "layer_inv l" using assms(1, 2) by (auto simp: display_inv_def list_all_iff layer_of_def find_Some_iff)
  then obtain l' where l': "close_raw_layer cs l context = Inr l'" "layer_inv l'" "same_layer l l'"
    by (rule close_raw_inv [OF _ assms(3)])
  let ?d = "PFW_guac_display_layer_touch n (update_layer n (\<lambda>_. l') d)"
  have "display_inv ?d" using update_layer_inv [OF assms(1, 2), of "\<lambda>_. l'"] l' by simp
  moreover from this have "display_inv (update_pending m (\<lambda>st. st\<lparr>state_search_for_copies := True\<rparr>) ?d)" for m
    by (rule update_pending_inv) (simp add: state_ok_def)
  ultimately show thesis using assms(2) l'
    by (cases "context_hint_from context") (auto intro!: that simp: guac_display_layer_close_raw_def Let_def)
qed

section \<open>Drawing: specification\<close>

text \<open>All differences between the two frames lie in the rectangle reported as modified.\<close>

definition reported :: "guac_display_layer \<Rightarrow> bool" where
  "reported l \<longleftrightarrow> (\<forall>x y. (x, y) \<in> box 0 0 (state_width (layer_pending_frame l)) (state_height (layer_pending_frame l)) \<longrightarrow>
     differs (layer_last_frame l) (layer_pending_frame l) x y \<longrightarrow> (x, y) \<in> rect_area (layer_dirty l))"

lemma reported_changed:
  assumes "reported l" "(x, y) \<in> box 0 0 (state_width (layer_pending_frame l)) (state_height (layer_pending_frame l))" "(x, y) \<notin> changed l"
  shows "\<not> differs (layer_last_frame l) (layer_pending_frame l) x y"
  using assms by (auto simp: reported_def changed_def)

text \<open>
  A raw context after drawing: its buffer shows \<open>p\<close> within \<open>dst\<close> and is as before elsewhere, and \<open>dst\<close>
  is reported.
\<close>

definition drew :: "guac_display_layer_raw_context \<Rightarrow> guac_rect \<Rightarrow> (int \<Rightarrow> int \<Rightarrow> pixel) \<Rightarrow> guac_display_layer_raw_context \<Rightarrow> bool" where
  "drew context dst p context' \<longleftrightarrow> (\<exists>rows rows'. context_buffer context = Some rows \<and> length rows' = length rows \<and>
     (\<forall>y < length rows. length (rows' ! y) = length (rows ! y) \<and> (\<forall>x < length (rows ! y). rows' ! y ! x =
        (if (int x, int y) \<in> rect_area dst then p (int x) (int y) else rows ! y ! x))) \<and>
     context' = context\<lparr>context_buffer := Some rows', context_dirty := guac_rect_extend (context_dirty context) dst\<rparr>)"

lemma in_rows_address [simp]: "in_rows dst rows \<Longrightarrow> \<not> raw_address_overflows context dst"
  by (simp add: in_rows_def raw_address_overflows_def)

lemma raw_set_drew:
  assumes "context_buffer context = Some rows" "in_rows dst rows" "rect_left dst < rect_right dst"
  obtains context' where "guac_display_layer_raw_context_set context dst color = Inr context'" "drew context dst (\<lambda>x y. color) context'"
proof -
  let ?new = "\<lambda>y :: nat. replicate (nat (rect_right dst - rect_left dst)) color"
  let ?c = "context\<lparr>context_buffer := Some (draw_rows dst ?new rows), context_dirty := guac_rect_extend (context_dirty context) dst\<rparr>"
  have "\<forall>y < length rows. length (draw_rows dst ?new rows ! y) = length (rows ! y) \<and> (\<forall>x < length (rows ! y). draw_rows dst ?new rows ! y ! x =
        (if (int x, int y) \<in> rect_area dst then color else rows ! y ! x))"
    using draw_rows_spec [OF assms(2) _ assms(3), of ?new] by (auto simp: rect_area_def box_def)
  moreover have "length (draw_rows dst ?new rows) = length rows" by (simp add: draw_rows_def)
  ultimately have "drew context dst (\<lambda>x y. color) ?c" using assms(1) unfolding drew_def by blast
  then show thesis using assms by (intro that [of ?c]) (simp_all add: guac_display_layer_raw_context_set_def)
qed

lemma raw_put_drew:
  assumes "context_buffer context = Some rows" "in_rows dst rows" "on_screen dst"
    and src: "rect_bottom dst - rect_top dst \<le> int (length src)" "\<forall>row \<in> set src. rect_right dst - rect_left dst \<le> int (length row)"
  obtains context' where "guac_display_layer_raw_context_put context dst src = Inr context'"
    "drew context dst (\<lambda>x y. src ! nat (y - rect_top dst) ! nat (x - rect_left dst)) context'"
proof -
  note size = on_screen_size [OF assms(3)]
  have lr: "rect_left dst < rect_right dst" using assms(3) by (simp add: on_screen_def)
  let ?w = "nat (rect_right dst - rect_left dst)"
  let ?new = "\<lambda>y. take ?w (src ! nat (int y - rect_top dst) @ replicate ?w 0)"
  have same: "draw_rows dst (\<lambda>y. take ?w (src ! nat (int y - rect_top dst))) rows = draw_rows dst ?new rows"
  proof -
    have "?w \<le> length (src ! nat (int y - rect_top dst))" if "rect_top dst \<le> int y" "int y < rect_bottom dst" for y
    proof -
      have "nat (int y - rect_top dst) < length src" using that src(1) by linarith
      then have "src ! nat (int y - rect_top dst) \<in> set src" by simp
      then show ?thesis using src(2) by fastforce
    qed
    then show ?thesis unfolding draw_rows_def by (intro map_cong refl) auto
  qed
  let ?c = "context\<lparr>context_buffer := Some (draw_rows dst ?new rows), context_dirty := guac_rect_extend (context_dirty context) dst\<rparr>"
  have pixel: "?new y ! nat (int x - rect_left dst) = src ! nat (int y - rect_top dst) ! nat (int x - rect_left dst)"
    if "(int x, int y) \<in> rect_area dst" for x y
  proof -
    have "nat (int y - rect_top dst) < length src" using that src(1) by (auto simp: rect_area_def box_def)
    then have "src ! nat (int y - rect_top dst) \<in> set src" by simp
    then have "nat (int x - rect_left dst) < length (src ! nat (int y - rect_top dst))"
      using src(2) that by (fastforce simp: rect_area_def box_def)
    moreover have "nat (int x - rect_left dst) < ?w" using that by (auto simp: rect_area_def box_def)
    ultimately show ?thesis by (simp add: nth_append)
  qed
  have "\<forall>y < length rows. length (draw_rows dst ?new rows ! y) = length (rows ! y) \<and> (\<forall>x < length (rows ! y). draw_rows dst ?new rows ! y ! x =
        (if (int x, int y) \<in> rect_area dst then src ! nat (int y - rect_top dst) ! nat (int x - rect_left dst) else rows ! y ! x))"
    using draw_rows_spec [OF assms(2) _ lr, of ?new] pixel by auto
  moreover have "length (draw_rows dst ?new rows) = length rows" by (simp add: draw_rows_def)
  ultimately have "drew context dst (\<lambda>x y. src ! nat (y - rect_top dst) ! nat (x - rect_left dst)) ?c"
    using assms(1) unfolding drew_def by blast
  moreover have "in_rows \<lparr>rect_left = 0, rect_top = 0, rect_right = guac_rect_width dst, rect_bottom = guac_rect_height dst\<rparr> src"
    using src size by (simp add: in_rows_def list_all_iff)
  ultimately show thesis using assms(1, 2) size same
    by (intro that [of ?c]) (simp_all add: guac_display_layer_raw_context_put_def)
qed

text \<open>Opening a layer, drawing and closing it.\<close>

lemma draw_layer:
  assumes inv: "layer_inv l" and internal: "\<not> state_buffer_is_external (layer_pending_frame l)"
    and drew: "drew (guac_display_layer_open_raw l) dst p context" and dst: "rect_ok dst" "\<not> guac_rect_is_empty dst"
  obtains l' where "close_raw_layer cs l context = Inr l'" "layer_inv l'" "same_layer l l'"
    "\<And>x y. (x, y) \<in> box 0 0 (state_width (layer_pending_frame l)) (state_height (layer_pending_frame l)) \<Longrightarrow>
      rows_of (layer_pending_frame l') ! nat y ! nat x = (if (x, y) \<in> rect_area dst then p x y else rows_of (layer_pending_frame l) ! nat y ! nat x)"
    "reported l \<Longrightarrow> reported l'" "rect_area dst \<subseteq> rect_area (layer_dirty l')"
    "state_width (layer_pending_frame l') = state_width (layer_pending_frame l)"
    "state_height (layer_pending_frame l') = state_height (layer_pending_frame l)"
proof -
  let ?st = "layer_pending_frame l"
  obtain rows rows' where r: "state_buffer ?st = Some rows" "length rows' = length rows"
    "\<forall>y < length rows. length (rows' ! y) = length (rows ! y) \<and> (\<forall>x < length (rows ! y). rows' ! y ! x =
        (if (int x, int y) \<in> rect_area dst then p (int x) (int y) else rows ! y ! x))"
    "context = (guac_display_layer_open_raw l)\<lparr>context_buffer := Some rows', context_dirty := guac_rect_extend zero_rect dst\<rparr>"
    using drew by (auto simp: drew_def guac_display_layer_open_raw_def Let_def)
  have ext: "guac_rect_extend zero_rect dst = dst"
    using dst(2) by (simp add: guac_rect_extend_def zero_rect_def guac_rect_is_empty_def)
  have ok: "state_width ?st \<le> state_buffer_width ?st" "state_height ?st \<le> state_buffer_height ?st"
    "state_buffer_height ?st \<le> int (length rows)" "\<forall>row \<in> set rows. state_buffer_width ?st \<le> int (length row)"
    using inv r(1) by (auto simp: layer_inv_def state_ok_def)
  have "\<forall>row \<in> set rows'. state_buffer_width ?st \<le> int (length row)"
    using ok(4) r(2, 3) by (metis in_set_conv_nth)
  then have cf: "context_for l context"
    using r ok internal dst(1) by (simp add: context_for_def guac_display_layer_open_raw_def ext Let_def)
  define l' where "l' = l\<lparr>layer_pending_frame := ?st\<lparr>state_buffer := Some rows'\<rparr>,
    layer_dirty := guac_rect_extend (layer_dirty l) dst\<rparr>"
  have close: "close_raw_layer cs l context = Inr l'"
    using internal r(4) by (simp add: close_raw_layer_def guac_display_layer_open_raw_def l'_def ext Let_def)
  have px: "rows' ! nat y ! nat x = (if (x, y) \<in> rect_area dst then p x y else rows ! nat y ! nat x)"
    if "(x, y) \<in> box 0 0 (state_width ?st) (state_height ?st)" for x y
  proof -
    have b: "0 \<le> x" "x < state_width ?st" "0 \<le> y" "y < state_height ?st" using that by (auto simp: box_def)
    have y: "nat y < length rows" using b ok by linarith
    then have "state_buffer_width ?st \<le> int (length (rows ! nat y))" using ok(4) by simp
    then have "nat x < length (rows ! nat y)" using b ok by linarith
    then show ?thesis using r(3) y b by simp
  qed
  have cover: "rect_area (layer_dirty l) \<union> rect_area dst \<subseteq> rect_area (layer_dirty l')"
    using rects.extend_covers [of "layer_dirty l" dst] by (simp add: l'_def)
  show thesis
  proof (rule that [OF close])
    show "rect_area dst \<subseteq> rect_area (layer_dirty l')" using cover by blast
    show "layer_inv l'" using close_raw_inv [OF inv cf, of cs] close by auto
    show "same_layer l l'" by (simp add: same_layer_def l'_def)
    show "rows_of (layer_pending_frame l') ! nat y ! nat x = (if (x, y) \<in> rect_area dst then p x y else rows_of ?st ! nat y ! nat x)"
      if "(x, y) \<in> box 0 0 (state_width ?st) (state_height ?st)" for x y
      using px [OF that] r(1) by (simp add: l'_def rows_of_def)
    show "reported l'" if rep: "reported l"
      unfolding reported_def
    proof (intro allI impI)
      fix x y
      assume b: "(x, y) \<in> box 0 0 (state_width (layer_pending_frame l')) (state_height (layer_pending_frame l'))"
        and d: "differs (layer_last_frame l') (layer_pending_frame l') x y"
      show "(x, y) \<in> rect_area (layer_dirty l')"
      proof (cases "(x, y) \<in> rect_area dst")
        case True
        then show ?thesis using cover by blast
      next
        case False
        then have "rows_of (layer_pending_frame l') ! nat y ! nat x = rows_of ?st ! nat y ! nat x"
          using px [of x y] b r(1) by (simp add: l'_def rows_of_def)
        then have "differs (layer_last_frame l) ?st x y" using d by (simp add: differs_def l'_def)
        then have "(x, y) \<in> rect_area (layer_dirty l)" using rep b by (simp add: reported_def l'_def)
        then show ?thesis using cover by blast
      qed
    qed
  qed (simp_all add: l'_def)
qed

end
