(* ===== verification/DisplayFlush.thy ===== *)
theory DisplayFlush
  imports DisplayLayer Protocol
begin

text \<open>
  Ending a frame (\<open>libguac/display-flush.c\<close>, \<open>guac_display_plan_apply\<close> of \<open>libguac/display-plan.c\<close>,
  \<open>guac_display_free_removed_layers\<close> of \<open>libguac/display-layer-list.c\<close>): the plan is made and
  optimised, the pending frame becomes the last frame, changed properties and the cheap operations
  are sent at once, and images go to the queue of the worker threads.
\<close>

section \<open>Instructions\<close>

text \<open>
  The instructions that a display sends, by the indices of their layers. Image data is sent as a
  stream in one of three formats; the pixels are those that are handed to the encoder.
\<close>

datatype image_format = Image_PNG | Image_JPEG int | Image_WebP int bool

datatype drawing =
    Draw_size int int int
  | Draw_shade int int
  | Draw_move int int int int int
  | Draw_set_int int string int
  | Draw_dispose int
  | Draw_copy int int int int int int int int int
  | Draw_rect int int int int int
  | Draw_cfill int int int int int int
  | Draw_cursor int int int int int int int
  | Draw_mouse int int int int
  | Draw_sync int nat
  | Draw_image image_format int int int int "pixel list list"

abbreviation guac_layer_at :: "int \<Rightarrow> guac_layer" where
  "guac_layer_at i \<equiv> \<lparr>layer_index = i\<rparr>"

text \<open>How an instruction that carries no image data is written to a socket.\<close>

fun send_drawing :: "drawing \<Rightarrow> 'd sock_op option" where
  "send_drawing (Draw_size l w h) = Some (guac_protocol_send_size (guac_layer_at l) w h)"
| "send_drawing (Draw_shade l a) = Some (guac_protocol_send_shade (guac_layer_at l) a)"
| "send_drawing (Draw_move l p x y z) = Some (guac_protocol_send_move (guac_layer_at l) (guac_layer_at p) x y z)"
| "send_drawing (Draw_set_int l nm v) = Some (guac_protocol_send_set_int (guac_layer_at l) nm v)"
| "send_drawing (Draw_dispose l) = Some (guac_protocol_send_dispose (guac_layer_at l))"
| "send_drawing (Draw_copy s x y w h mode d dx dy) =
     Some (guac_protocol_send_copy (guac_layer_at s) x y w h mode (guac_layer_at d) dx dy)"
| "send_drawing (Draw_rect l x y w h) = Some (guac_protocol_send_rect (guac_layer_at l) x y w h)"
| "send_drawing (Draw_cfill mode l r g b a) = Some (guac_protocol_send_cfill mode (guac_layer_at l) r g b a)"
| "send_drawing (Draw_cursor x y s sx sy w h) = Some (guac_protocol_send_cursor x y (guac_layer_at s) sx sy w h)"
| "send_drawing (Draw_mouse x y m t) = Some (guac_protocol_send_mouse x y m t)"
| "send_drawing (Draw_sync t frames) = Some (guac_protocol_send_sync t (int frames))"
| "send_drawing (Draw_image f mode l x y rows) = None"

fun drawing_elements :: "drawing \<Rightarrow> string list" where
  "drawing_elements (Draw_size l w h) = ''size'' # map show_int [l, w, h]"
| "drawing_elements (Draw_shade l a) = ''shade'' # map show_int [l, a]"
| "drawing_elements (Draw_move l p x y z) = ''move'' # map show_int [l, p, x, y, z]"
| "drawing_elements (Draw_set_int l nm v) = [''set'', show_int l, nm, show_int v]"
| "drawing_elements (Draw_dispose l) = ''dispose'' # map show_int [l]"
| "drawing_elements (Draw_copy s x y w h mode d dx dy) = ''copy'' # map show_int [s, x, y, w, h, mode, d, dx, dy]"
| "drawing_elements (Draw_rect l x y w h) = ''rect'' # map show_int [l, x, y, w, h]"
| "drawing_elements (Draw_cfill mode l r g b a) = ''cfill'' # map show_int [mode, l, r, g, b, a]"
| "drawing_elements (Draw_cursor x y s sx sy w h) = ''cursor'' # map show_int [x, y, s, sx, sy, w, h]"
| "drawing_elements (Draw_mouse x y m t) = ''mouse'' # map show_int [x, y, m, t]"
| "drawing_elements (Draw_sync t frames) = ''sync'' # map show_int [t, int frames]"
| "drawing_elements (Draw_image f mode l x y rows) = []"

definition GUAC_COMP_ROUT :: int where "GUAC_COMP_ROUT = 0x2"
definition GUAC_COMP_OVER :: int where "GUAC_COMP_OVER = 0xE"
definition GUAC_COMP_RATOP :: int where "GUAC_COMP_RATOP = 0x9"

definition GUAC_PROTOCOL_LAYER_PARAMETER_MULTI_TOUCH :: string where
  "GUAC_PROTOCOL_LAYER_PARAMETER_MULTI_TOUCH = ''multi-touch''"

section \<open>Completing a frame\<close>

text \<open>
  Copying the pending frame over the last frame: the whole buffer when its dimensions have changed,
  and otherwise the visible part of every line.
\<close>

definition copy_buffer :: "guac_display_layer_state \<Rightarrow> pixel list list outcome" where
  "copy_buffer pending = (
    if int (length (rows_of pending)) < state_buffer_height pending then Inl Undefined
    else Inr (take (nat (state_buffer_height pending)) (rows_of pending)))"

definition copy_lines :: "guac_display_layer_state \<Rightarrow> guac_display_layer_state \<Rightarrow> pixel list list outcome" where
  "copy_lines pending old = (
    let w = nat (state_width pending); h = nat (state_height pending); src = rows_of pending; dst = rows_of old
    in if length src < h \<or> length dst < h \<or> list_ex (\<lambda>row. length row < w) (take h src @ take h dst) then Inl Undefined
    else Inr (map2 (\<lambda>s d. take w s @ drop w d) (take h src) (take h dst) @ drop h dst))"

text \<open>The frame data of a layer: the new last frame, the rectangle of changes, and whether it changed.\<close>

definition complete_buffer :: "guac_display_layer \<Rightarrow> (guac_display_layer \<times> bool) outcome" where
  "complete_buffer l = (
    let pending = layer_pending_frame l; old = layer_last_frame l
    in if state_buffer_stride old \<noteq> state_buffer_stride pending \<or> state_buffer_width old \<noteq> state_buffer_width pending \<or>
        state_buffer_height old \<noteq> state_buffer_height pending
    then (case copy_buffer pending of
        Inl e \<Rightarrow> Inl e
      | Inr rows \<Rightarrow> Inr (l\<lparr>layer_last_frame := old\<lparr>state_buffer := Some rows, state_buffer_stride := state_buffer_stride pending,
            state_buffer_width := state_buffer_width pending, state_buffer_height := state_buffer_height pending\<rparr>,
          layer_last_dirty := layer_dirty l, layer_dirty := zero_rect\<rparr>, True))
    else if \<not> guac_rect_is_empty (layer_dirty l)
    then (case copy_lines pending old of
        Inl e \<Rightarrow> Inl e
      | Inr rows \<Rightarrow> Inr (l\<lparr>layer_last_frame := old\<lparr>state_buffer := Some rows\<rparr>,
          layer_last_dirty := layer_dirty l, layer_dirty := zero_rect\<rparr>, True))
    else Inr (l\<lparr>layer_last_dirty := zero_rect\<rparr>, False))"

text \<open>The properties of a layer, in the order in which their changes are sent.\<close>

definition complete_size :: "int \<Rightarrow> guac_display_layer_state \<Rightarrow> guac_display_layer_state \<Rightarrow> guac_display_layer_state \<times> drawing list" where
  "complete_size idx pending old = (
    if state_width pending \<noteq> state_width old \<or> state_height pending \<noteq> state_height old
    then (old\<lparr>state_width := state_width pending, state_height := state_height pending\<rparr>,
      [Draw_size idx (state_width pending) (state_height pending)])
    else (old, []))"

definition complete_opacity :: "int \<Rightarrow> guac_display_layer_state \<Rightarrow> guac_display_layer_state \<Rightarrow> guac_display_layer_state \<times> drawing list" where
  "complete_opacity idx pending old = (
    if state_opacity pending \<noteq> state_opacity old
    then (old\<lparr>state_opacity := state_opacity pending\<rparr>, [Draw_shade idx (state_opacity pending)])
    else (old, []))"

definition complete_location :: "int \<Rightarrow> guac_display_layer_state \<Rightarrow> guac_display_layer_state \<Rightarrow> guac_display_layer_state \<times> drawing list" where
  "complete_location idx pending old = (
    if state_x pending \<noteq> state_x old \<or> state_y pending \<noteq> state_y old \<or> state_z pending \<noteq> state_z old \<or>
       state_parent pending \<noteq> state_parent old
    then (old\<lparr>state_x := state_x pending, state_y := state_y pending, state_z := state_z pending,
        state_parent := state_parent pending\<rparr>,
      [Draw_move idx (state_parent pending) (state_x pending) (state_y pending) (state_z pending)])
    else (old, []))"

definition complete_touches :: "int \<Rightarrow> guac_display_layer_state \<Rightarrow> guac_display_layer_state \<Rightarrow> guac_display_layer_state \<times> drawing list" where
  "complete_touches idx pending old = (
    if state_touches pending \<noteq> state_touches old
    then (old\<lparr>state_touches := state_touches pending\<rparr>,
      [Draw_set_int idx GUAC_PROTOCOL_LAYER_PARAMETER_MULTI_TOUCH (state_touches pending)])
    else (old, []))"

definition complete_layer :: "guac_display_layer \<Rightarrow> (guac_display_layer \<times> drawing list \<times> bool) outcome" where
  "complete_layer l = (
    if state_buffer (layer_pending_frame l) = None then
      (if state_buffer_is_external (layer_pending_frame l) then Inr (l\<lparr>layer_last_dirty := zero_rect\<rparr>, [], False) else Inl Assertion)
    else case complete_buffer l of
        Inl e \<Rightarrow> Inl e
      | Inr (l, redrawn) \<Rightarrow>
          let idx = layer_layer l;
              pending = layer_pending_frame l;
              (old, size) = complete_size idx pending (layer_last_frame l);
              (old, shade) = complete_opacity idx pending old;
              (old, move) = complete_location idx pending old;
              (old, touches) = complete_touches idx pending old;
              old = old\<lparr>state_search_for_copies := state_search_for_copies pending, state_lossless := state_lossless pending\<rparr>
          in Inr (l\<lparr>layer_last_frame := old, layer_pending_frame := pending\<lparr>state_search_for_copies := False\<rparr>\<rparr>,
            size @ shade @ move @ touches, redrawn \<or> size @ shade @ move \<noteq> []))"

fun complete_layers :: "guac_display_layer list \<Rightarrow> (guac_display_layer list \<times> drawing list \<times> bool) outcome" where
  "complete_layers [] = Inr ([], [], False)"
| "complete_layers (l # ls) = (case complete_layer l of
      Inl e \<Rightarrow> Inl e
    | Inr (l, sent, nonempty) \<Rightarrow>
        (case complete_layers ls of
          Inl e \<Rightarrow> Inl e
        | Inr (ls, sents, nonempties) \<Rightarrow> Inr (l # ls, sent @ sents, nonempty \<or> nonempties)))"

text \<open>
  The position of the mouse goes to the sockets of all users but the one that moved it.
\<close>

definition LFR_guac_display_broadcast_cursor_state :: "guac_display_state \<Rightarrow> nat \<Rightarrow> (nat \<times> drawing) list" where
  "LFR_guac_display_broadcast_cursor_state st user = (
    if Some user \<noteq> frame_cursor_user st
    then [(user, Draw_mouse (frame_cursor_x st) (frame_cursor_y st) (frame_cursor_mask st) (frame_timestamp st))] else [])"

definition complete_cursor ::
    "nat list \<Rightarrow> guac_display_state \<Rightarrow> guac_display_state \<Rightarrow> guac_display_state \<times> (nat \<times> drawing) list" where
  "complete_cursor users pending old = (
    if frame_cursor_x pending \<noteq> frame_cursor_x old \<or> frame_cursor_y pending \<noteq> frame_cursor_y old \<or>
       frame_cursor_mask pending \<noteq> frame_cursor_mask old
    then let old = old\<lparr>frame_cursor_user := frame_cursor_user pending, frame_cursor_x := frame_cursor_x pending,
           frame_cursor_y := frame_cursor_y pending, frame_cursor_mask := frame_cursor_mask pending\<rparr>
      in (old, concat (map (LFR_guac_display_broadcast_cursor_state old) users))
    else (old, []))"

record completion =
  completion_sent :: "drawing list"
  completion_mouse :: "(nat \<times> drawing) list"
  completion_nonempty :: bool

definition PFW_LFW_guac_display_frame_complete :: "nat list \<Rightarrow> guac_display \<Rightarrow> (guac_display \<times> completion) outcome" where
  "PFW_LFW_guac_display_frame_complete users d = (
    case complete_layers (display_layers d) of
      Inl e \<Rightarrow> Inl e
    | Inr (layers, sent, nonempty) \<Rightarrow>
        let pending = display_pending_frame d;
            old = (display_last_frame d)\<lparr>frame_timestamp := frame_timestamp pending, frame_frames := frame_frames pending,
              frame_cursor_hotspot_x := frame_cursor_hotspot_x pending, frame_cursor_hotspot_y := frame_cursor_hotspot_y pending\<rparr>;
            (old, mouse) = complete_cursor users pending old
        in Inr (d\<lparr>display_layers := layers, display_last_layers := map layer_number (display_layers d),
              display_last_frame := old, display_pending_frame := pending\<lparr>frame_frames := 0\<rparr>,
              display_dirty_excluding_mouse := False\<rparr>,
            \<lparr>completion_sent = sent, completion_mouse = mouse, completion_nonempty = nonempty\<rparr>))"

section \<open>Making and applying the plan\<close>

text \<open>The layers of the last frame, which are found among the current and the removed ones.\<close>

definition last_layers :: "guac_display \<Rightarrow> guac_display_layer list" where
  "last_layers d = List.map_filter (layer_of (all_layers d)) (display_last_layers d)"

text \<open>The passes over a plan, in their order.\<close>

definition optimise_plan ::
    "guac_display_layer list \<Rightarrow> guac_display_layer list \<Rightarrow> guac_display_plan_operation list \<Rightarrow>
     (guac_display_layer list \<times> guac_display_plan_operation list) outcome" where
  "optimise_plan layers olds ops = (
    let ops = PFR_guac_display_plan_rewrite_as_rects layers ops
    in case search_pass layers olds ops of
        Inl e \<Rightarrow> Inl e
      | Inr ops \<Rightarrow>
          let (ops, layers) = PFW_guac_display_plan_combine_horizontally ops layers;
              (ops, layers) = PFW_guac_display_plan_combine_vertically ops layers
          in Inr (layers, ops))"

definition apply_copy :: "guac_display_layer \<Rightarrow> guac_display_plan_operation \<Rightarrow> drawing list" where
  "apply_copy l oper = [Draw_copy (- int (op_src_layer oper) - 1) (rect_left (op_src_rect oper)) (rect_top (op_src_rect oper))
     (guac_rect_width (op_src_rect oper)) (guac_rect_height (op_src_rect oper)) GUAC_COMP_OVER (layer_layer l)
     (rect_left (op_dest oper)) (rect_top (op_dest oper))]"

definition apply_rect :: "guac_display_layer \<Rightarrow> guac_display_plan_operation \<Rightarrow> drawing list" where
  "apply_rect l oper = (
    let color = op_src_color oper;
        alpha = uint (drop_bit 24 (color AND 0xFF000000));
        red = uint (drop_bit 16 (color AND 0x00FF0000));
        green = uint (drop_bit 8 (color AND 0x0000FF00));
        blue = uint (color AND 0x000000FF)
    in Draw_rect (layer_layer l) (rect_left (op_dest oper)) (rect_top (op_dest oper))
         (guac_rect_width (op_dest oper)) (guac_rect_height (op_dest oper)) #
       (if \<not> layer_opaque l
        then [Draw_cfill GUAC_COMP_ROUT (layer_layer l) 0 0 0 0xFF, Draw_cfill GUAC_COMP_OVER (layer_layer l) red green blue alpha]
        else [Draw_cfill GUAC_COMP_OVER (layer_layer l) red green blue 0xFF]))"

text \<open>One operation of the plan: the instructions sent at once, and the operations queued.\<close>

definition apply_op ::
    "guac_display_layer list \<Rightarrow> guac_display_plan_operation \<Rightarrow> (drawing list \<times> guac_display_plan_operation list) outcome" where
  "apply_op layers oper = (
    case op_type oper of
      GUAC_DISPLAY_PLAN_OPERATION_NOP \<Rightarrow> Inr ([], [])
    | GUAC_DISPLAY_PLAN_OPERATION_IMG \<Rightarrow> Inr ([], [oper])
    | GUAC_DISPLAY_PLAN_OPERATION_COPY \<Rightarrow>
        (case layer_of layers (op_layer oper) of None \<Rightarrow> Inl Undefined | Some l \<Rightarrow> Inr (apply_copy l oper, []))
    | GUAC_DISPLAY_PLAN_OPERATION_RECT \<Rightarrow>
        (case layer_of layers (op_layer oper) of None \<Rightarrow> Inl Undefined | Some l \<Rightarrow> Inr (apply_rect l oper, [])))"

text \<open>
  The images are put into the queue of the worker threads while its lock is held, so that the threads
  wait until the whole plan has been applied. \<open>room\<close> is the number of free slots of the queue: when none is
  left, \<open>guac_fifo_enqueue\<close> waits for a thread to take an operation, which no thread can do.
\<close>

definition GUAC_DISPLAY_MAX_HEIGHT :: nat where "GUAC_DISPLAY_MAX_HEIGHT = 8192"

definition GUAC_DISPLAY_WORKER_FIFO_SIZE :: nat where
  "GUAC_DISPLAY_WORKER_FIFO_SIZE = GUAC_DISPLAY_MAX_WIDTH * GUAC_DISPLAY_MAX_HEIGHT div
     nat GUAC_DISPLAY_CELL_SIZE div nat GUAC_DISPLAY_CELL_SIZE * 8"

fun guac_display_plan_apply ::
    "nat \<Rightarrow> guac_display_layer list \<Rightarrow> guac_display_plan_operation list \<Rightarrow> (drawing list \<times> guac_display_plan_operation list) outcome" where
  "guac_display_plan_apply room layers [] = Inr ([], [])"
| "guac_display_plan_apply room layers (oper # ops) = (case apply_op layers oper of
      Inl e \<Rightarrow> Inl e
    | Inr (sent, queued) \<Rightarrow>
        if room < length queued then Inl Deadlock
        else (case guac_display_plan_apply (room - length queued) layers ops of
          Inl e \<Rightarrow> Inl e
        | Inr (sents, queueds) \<Rightarrow> Inr (sent @ sents, queued @ queueds)))"

section \<open>Removed layers\<close>

definition free_removed_layer :: "guac_display_layer \<Rightarrow> guac_client \<Rightarrow> (guac_client \<times> drawing list) outcome" where
  "free_removed_layer l client = (
    case guac_client_free_buffer client (- int (layer_last_frame_buffer l) - 1) of
      Inl e \<Rightarrow> Inl e
    | Inr client \<Rightarrow>
        if layer_layer l = 0 then Inr (client, [])
        else case (if layer_layer l > 0 then guac_client_free_layer client (layer_layer l)
            else guac_client_free_buffer client (layer_layer l)) of
          Inl e \<Rightarrow> Inl e
        | Inr client \<Rightarrow> Inr (client, [Draw_dispose (layer_layer l)]))"

fun guac_display_free_removed_layers :: "guac_display_layer list \<Rightarrow> guac_client \<Rightarrow> (guac_client \<times> drawing list) outcome" where
  "guac_display_free_removed_layers [] client = Inr (client, [])"
| "guac_display_free_removed_layers (l # ls) client = (case free_removed_layer l client of
      Inl e \<Rightarrow> Inl e
    | Inr (client, sent) \<Rightarrow>
        (case guac_display_free_removed_layers ls client of
          Inl e \<Rightarrow> Inl e
        | Inr (client, sents) \<Rightarrow> Inr (client, sent @ sents)))"

section \<open>Ending a frame\<close>

text \<open>
  What ending a frame sends to the socket of the client and to single users, and what it queues for
  the worker threads.
\<close>

record flush =
  flush_sent :: "drawing list"
  flush_mouse :: "(nat \<times> drawing) list"
  flush_queued :: "guac_display_plan_operation list"
  flush_disposed :: "drawing list"

definition end_frame_op :: guac_display_plan_operation where
  "end_frame_op = \<lparr>op_layer = 0, op_type = GUAC_DISPLAY_PLAN_OPERATION_NOP, op_dest = zero_rect, op_dirty_size = 0,
     op_last_frame = 0, op_current_frame = 0, op_src_color = 0, op_src_rect = zero_rect, op_src_layer = 0\<rparr>"

text \<open>
  The part of \<open>guac_display_end_multiple_frames\<close> that runs when no frame is in progress; first its
  treatment of a plan, if there is one.
\<close>

definition optimise_display ::
    "int \<Rightarrow> guac_display_plan_operation list option \<Rightarrow> guac_display \<Rightarrow> (guac_display \<times> guac_display_plan_operation list) outcome" where
  "optimise_display now plan d = (case plan of
      None \<Rightarrow> Inr (d, [])
    | Some ops \<Rightarrow>
        let d = d\<lparr>display_pending_frame := (display_pending_frame d)\<lparr>frame_timestamp := now\<rparr>\<rparr>
        in case optimise_plan (display_layers d) (last_layers d) ops of
            Inl e \<Rightarrow> Inl e
          | Inr (layers, ops) \<Rightarrow> Inr (d\<lparr>display_layers := layers\<rparr>, ops))"

definition flush_frame :: "nat list \<Rightarrow> int \<Rightarrow> guac_display \<Rightarrow> (guac_display \<times> flush) outcome option" where
  "flush_frame users now d = map_option (\<lambda>created. case created of
      Inl e \<Rightarrow> Inl e
    | Inr (layers, plan) \<Rightarrow>
        let d = d\<lparr>display_layers := layers\<rparr>
        in case optimise_display now plan d of
            Inl e \<Rightarrow> Inl e
          | Inr (d, ops) \<Rightarrow>
              (case PFW_LFW_guac_display_frame_complete users d of
                Inl e \<Rightarrow> Inl e
              | Inr (d, completion) \<Rightarrow>
                  (case guac_display_plan_apply GUAC_DISPLAY_WORKER_FIFO_SIZE (display_layers d) ops of
                    Inl e \<Rightarrow> Inl e
                  | Inr (sent, queued) \<Rightarrow>
                      (case guac_display_free_removed_layers (display_removed d) (display_client d) of
                        Inl e \<Rightarrow> Inl e
                      | Inr (client, disposed) \<Rightarrow>
                          Inr (d\<lparr>display_client := client, display_removed := []\<rparr>,
                            \<lparr>flush_sent = completion_sent completion @ sent, flush_mouse = completion_mouse completion,
                             flush_queued = queued @ (if completion_nonempty completion then [end_frame_op] else []),
                             flush_disposed = disposed\<rparr>)))))
    (PFW_LFR_guac_display_plan_create now (display_layers d))"

text \<open>
  \<open>busy\<close> says that operations are queued or worker threads are active; if not, the queue of the threads
  is empty when the plan is applied. The result is \<open>None\<close> when
  the function does not return.
\<close>

definition guac_display_end_multiple_frames ::
    "nat list \<Rightarrow> bool \<Rightarrow> int \<Rightarrow> nat \<Rightarrow> guac_display \<Rightarrow> (guac_display \<times> flush) outcome option" where
  "guac_display_end_multiple_frames users busy now frames d = (
    let d = d\<lparr>display_pending_frame := (display_pending_frame d)\<lparr>frame_frames := frame_frames (display_pending_frame d) + frames\<rparr>,
          display_frame_deferred := busy\<rparr>
    in if busy then Some (Inr (d, \<lparr>flush_sent = [], flush_mouse = [], flush_queued = [], flush_disposed = []\<rparr>))
       else flush_frame users now d)"

definition guac_display_end_mouse_frame ::
    "nat list \<Rightarrow> bool \<Rightarrow> int \<Rightarrow> guac_display \<Rightarrow> (guac_display \<times> flush) outcome option" where
  "guac_display_end_mouse_frame users busy now d = (
    if \<not> display_dirty_excluding_mouse d then guac_display_end_multiple_frames users busy now 0 d
    else Some (Inr (d, \<lparr>flush_sent = [], flush_mouse = [], flush_queued = [], flush_disposed = []\<rparr>)))"

definition guac_display_notify_user_left :: "nat \<Rightarrow> guac_display \<Rightarrow> guac_display" where
  "guac_display_notify_user_left user d = (
    if frame_cursor_user (display_pending_frame d) = Some user
    then d\<lparr>display_pending_frame := (display_pending_frame d)\<lparr>frame_cursor_user := None\<rparr>\<rparr> else d)"

definition guac_display_notify_user_moved_mouse ::
    "nat list \<Rightarrow> bool \<Rightarrow> int \<Rightarrow> nat \<Rightarrow> int \<Rightarrow> int \<Rightarrow> int \<Rightarrow> guac_display \<Rightarrow> (guac_display \<times> flush) outcome option" where
  "guac_display_notify_user_moved_mouse users busy now user x y mask_bits d =
    guac_display_end_mouse_frame users busy now (d\<lparr>display_pending_frame := (display_pending_frame d)\<lparr>frame_cursor_user := Some user,
      frame_cursor_x := x, frame_cursor_y := y, frame_cursor_mask := mask_bits\<rparr>\<rparr>)"

section \<open>Completing a frame: specification\<close>

text \<open>The last frame has become what the pending frame is.\<close>

definition same_frame :: "guac_display_layer_state \<Rightarrow> guac_display_layer_state \<Rightarrow> bool" where
  "same_frame old pending \<longleftrightarrow> state_width old = state_width pending \<and> state_height old = state_height pending \<and>
     state_x old = state_x pending \<and> state_y old = state_y pending \<and> state_z old = state_z pending \<and>
     state_parent old = state_parent pending \<and> state_opacity old = state_opacity pending \<and>
     state_touches old = state_touches pending \<and> state_lossless old = state_lossless pending \<and>
     (\<forall>x y. (x, y) \<in> box 0 0 (state_width pending) (state_height pending) \<longrightarrow>
        rows_of old ! nat y ! nat x = rows_of pending ! nat y ! nat x)"

text \<open>No pixel of the pending frame differs from the last frame.\<close>

definition unchanged :: "guac_display_layer \<Rightarrow> bool" where
  "unchanged l \<longleftrightarrow> (\<forall>x y. (x, y) \<in> box 0 0 (state_width (layer_pending_frame l)) (state_height (layer_pending_frame l)) \<longrightarrow>
     \<not> differs (layer_last_frame l) (layer_pending_frame l) x y)"

lemma copy_buffer_spec:
  assumes "state_ok pending"
  obtains rows where "copy_buffer pending = Inr rows" "state_buffer_height pending \<le> int (length rows)"
    "\<forall>row \<in> set rows. state_buffer_width pending \<le> int (length row)"
    "\<forall>x y. (x, y) \<in> box 0 0 (state_width pending) (state_height pending) \<longrightarrow> rows ! nat y ! nat x = rows_of pending ! nat y ! nat x"
proof -
  from assms have ok: "state_buffer_height pending \<le> int (length (rows_of pending))" "state_height pending \<le> state_buffer_height pending"
    "\<forall>row \<in> set (rows_of pending). state_buffer_width pending \<le> int (length row)"
    by (auto simp: state_ok_def rows_of_def)
  show thesis
  proof (rule that)
    show "copy_buffer pending = Inr (take (nat (state_buffer_height pending)) (rows_of pending))"
      using ok(1) by (simp add: copy_buffer_def)
  qed (use ok in \<open>auto simp: box_def dest: in_set_takeD\<close>)
qed

lemma copy_lines_spec:
  assumes p: "state_ok pending" and o: "state_ok old"
    and same: "state_buffer_width old = state_buffer_width pending" "state_buffer_height old = state_buffer_height pending"
  obtains rows where "copy_lines pending old = Inr rows" "state_buffer_height pending \<le> int (length rows)"
    "\<forall>row \<in> set rows. state_buffer_width pending \<le> int (length row)"
    "\<forall>x y. (x, y) \<in> box 0 0 (state_width pending) (state_height pending) \<longrightarrow> rows ! nat y ! nat x = rows_of pending ! nat y ! nat x"
proof -
  let ?w = "nat (state_width pending)" and ?h = "nat (state_height pending)"
  let ?src = "rows_of pending" and ?dst = "rows_of old"
  have ok: "state_buffer_height pending \<le> int (length ?src)" "state_height pending \<le> state_buffer_height pending"
    "\<forall>row \<in> set ?src. state_buffer_width pending \<le> int (length row)" "state_width pending \<le> state_buffer_width pending"
    "state_buffer_height pending \<le> int (length ?dst)" "\<forall>row \<in> set ?dst. state_buffer_width pending \<le> int (length row)"
    using p o same by (auto simp: state_ok_def rows_of_def)
  have len: "?h \<le> length ?src" "?h \<le> length ?dst" using ok by linarith+
  have row: "?w \<le> length row" if "row \<in> set ?src \<union> set ?dst" for row
    using that ok(3, 4, 6) by fastforce
  let ?rows = "map2 (\<lambda>s d. take ?w s @ drop ?w d) (take ?h ?src) (take ?h ?dst) @ drop ?h ?dst"
  have nth: "?rows ! i = (if i < ?h then take ?w (?src ! i) @ drop ?w (?dst ! i) else ?dst ! i)" if "i < length ?dst" for i
    using that len by (simp add: nth_append)
  show thesis
  proof (rule that)
    show "copy_lines pending old = Inr ?rows"
      using len row by (fastforce simp: copy_lines_def Let_def list_ex_iff dest: in_set_takeD)
    show "state_buffer_height pending \<le> int (length ?rows)" using ok(5) len by simp
    show "\<forall>row \<in> set ?rows. state_buffer_width pending \<le> int (length row)"
    proof
      fix r assume "r \<in> set ?rows"
      moreover have "length ?rows = length ?dst" using len by simp
      ultimately obtain i where i: "i < length ?dst" "r = ?rows ! i" by (metis in_set_conv_nth)
      have "length (?dst ! i) \<le> length r"
        using i len row [of "?src ! i"] unfolding i(2) nth [OF i(1)] by auto
      then show "state_buffer_width pending \<le> int (length r)" using ok(6) nth_mem [OF i(1)] by fastforce
    qed
    show "\<forall>x y. (x, y) \<in> box 0 0 (state_width pending) (state_height pending) \<longrightarrow> ?rows ! nat y ! nat x = ?src ! nat y ! nat x"
    proof (intro allI impI)
      fix x y assume b: "(x, y) \<in> box 0 0 (state_width pending) (state_height pending)"
      then have "nat y < ?h" "nat x < ?w" by (auto simp: box_def)
      moreover from this len have "nat y < length ?dst" "nat y < length ?src" by linarith+
      moreover from this have "?w \<le> length (?src ! nat y)" by (intro row) simp
      ultimately show "?rows ! nat y ! nat x = ?src ! nat y ! nat x" by (simp only: nth) (simp add: nth_append)
    qed
  qed
qed

text \<open>The invariant of a layer apart from the rectangle that drawing has reported.\<close>

abbreviation settled_inv :: "guac_display_layer \<Rightarrow> bool" where
  "settled_inv l \<equiv> layer_inv (l\<lparr>layer_dirty := zero_rect\<rparr>)"

text \<open>The frame data after \<open>complete_buffer\<close>; all other properties are as before.\<close>

lemma complete_buffer_spec:
  assumes inv: "settled_inv l"
  obtains rows dirty dirty' redrawn where "complete_buffer l = Inr (l\<lparr>layer_last_frame := (layer_last_frame l)\<lparr>state_buffer := Some rows,
        state_buffer_stride := state_buffer_stride (layer_pending_frame l), state_buffer_width := state_buffer_width (layer_pending_frame l),
        state_buffer_height := state_buffer_height (layer_pending_frame l)\<rparr>, layer_last_dirty := dirty, layer_dirty := dirty'\<rparr>, redrawn)"
    "state_buffer_height (layer_pending_frame l) \<le> int (length rows)"
    "\<forall>row \<in> set rows. state_buffer_width (layer_pending_frame l) \<le> int (length row)"
    "(guac_rect_is_empty (layer_dirty l) \<longrightarrow> unchanged l) \<longrightarrow>
      (\<forall>x y. (x, y) \<in> box 0 0 (state_width (layer_pending_frame l)) (state_height (layer_pending_frame l)) \<longrightarrow>
        rows ! nat y ! nat x = rows_of (layer_pending_frame l) ! nat y ! nat x)"
    "guac_rect_is_empty dirty'" "rect_area dirty = rect_area (layer_dirty l)"
    "\<not> guac_rect_is_empty (layer_dirty l) \<longrightarrow> dirty = layer_dirty l \<and> redrawn"
proof -
  let ?p = "layer_pending_frame l" and ?o = "layer_last_frame l"
  have ok: "state_ok ?p" "state_ok ?o" using inv by (simp_all add: layer_inv_def)
  have z: "guac_rect_is_empty zero_rect" by (simp add: guac_rect_is_empty_def zero_rect_def)
  show thesis
  proof (cases "state_buffer_stride ?o \<noteq> state_buffer_stride ?p \<or> state_buffer_width ?o \<noteq> state_buffer_width ?p \<or>
      state_buffer_height ?o \<noteq> state_buffer_height ?p")
    case True
    obtain rows where "copy_buffer ?p = Inr rows" "state_buffer_height ?p \<le> int (length rows)"
      "\<forall>row \<in> set rows. state_buffer_width ?p \<le> int (length row)"
      "\<forall>x y. (x, y) \<in> box 0 0 (state_width ?p) (state_height ?p) \<longrightarrow> rows ! nat y ! nat x = rows_of ?p ! nat y ! nat x"
      by (rule copy_buffer_spec [OF ok(1)])
    then show thesis using True z by (intro that [where rows = rows and dirty = "layer_dirty l" and dirty' = zero_rect and redrawn = True]) (auto simp: complete_buffer_def Let_def)
  next
    case same: False
    show thesis
    proof (cases "guac_rect_is_empty (layer_dirty l)")
      case False
      obtain rows where "copy_lines ?p ?o = Inr rows" "state_buffer_height ?p \<le> int (length rows)"
        "\<forall>row \<in> set rows. state_buffer_width ?p \<le> int (length row)"
        "\<forall>x y. (x, y) \<in> box 0 0 (state_width ?p) (state_height ?p) \<longrightarrow> rows ! nat y ! nat x = rows_of ?p ! nat y ! nat x"
        by (rule copy_lines_spec [OF ok]) (use same in auto)
      then show thesis using False same z
        by (intro that [where rows = rows and dirty = "layer_dirty l" and dirty' = zero_rect and redrawn = True]) (simp_all add: complete_buffer_def Let_def)
    next
      case True
      obtain rows where rows: "state_buffer ?o = Some rows" "state_buffer_height ?o \<le> int (length rows)"
        "\<forall>row \<in> set rows. state_buffer_width ?o \<le> int (length row)" using ok(2) by (auto simp: state_ok_def)
      have o: "?o\<lparr>state_buffer := Some rows, state_buffer_stride := state_buffer_stride ?p, state_buffer_width := state_buffer_width ?p,
          state_buffer_height := state_buffer_height ?p\<rparr> = ?o" using same rows(1) by simp
      have "rows ! nat y ! nat x = rows_of ?p ! nat y ! nat x" if "unchanged l" "(x, y) \<in> box 0 0 (state_width ?p) (state_height ?p)" for x y
        using that rows(1) by (simp add: unchanged_def differs_def rows_of_def)
      moreover have "rect_area zero_rect = rect_area (layer_dirty l)" using True z by (simp add: rect_empty_area)
      ultimately show thesis using True same rows
        by (intro that [where rows = rows and dirty = zero_rect and dirty' = "layer_dirty l" and redrawn = False]) (simp_all add: o complete_buffer_def Let_def)
    qed
  qed
qed

text \<open>Instructions that change what a client shows in its layers.\<close>

fun graphical :: "drawing \<Rightarrow> bool" where
  "graphical (Draw_shade l a) = False"
| "graphical (Draw_move l p x y z) = False"
| "graphical (Draw_set_int l nm v) = False"
| "graphical (Draw_cursor x y s sx sy w h) = False"
| "graphical (Draw_mouse x y m t) = False"
| "graphical (Draw_sync t frames) = False"
| "graphical _ = True"

definition size_change :: "guac_display_layer \<Rightarrow> drawing list" where
  "size_change l = snd (complete_size (layer_layer l) (layer_pending_frame l) (layer_last_frame l))"

definition completed :: "guac_display_layer \<Rightarrow> guac_display_layer \<Rightarrow> bool" where
  "completed l l' \<longleftrightarrow> layer_inv l' \<and> layer_number l' = layer_number l \<and> layer_layer l' = layer_layer l \<and>
     layer_opaque l' = layer_opaque l \<and> layer_last_frame_buffer l' = layer_last_frame_buffer l \<and>
     layer_pending_frame l' = (layer_pending_frame l)\<lparr>state_search_for_copies := False\<rparr> \<and>
     guac_rect_is_empty (layer_dirty l') \<and> rect_area (layer_last_dirty l') = rect_area (layer_dirty l) \<and>
     (\<not> guac_rect_is_empty (layer_dirty l) \<longrightarrow> layer_last_dirty l' = layer_dirty l) \<and>
     state_width (layer_last_frame l') = state_width (layer_pending_frame l) \<and>
     state_height (layer_last_frame l') = state_height (layer_pending_frame l) \<and>
     ((guac_rect_is_empty (layer_dirty l) \<longrightarrow> unchanged l) \<longrightarrow> same_frame (layer_last_frame l') (layer_pending_frame l))"

lemmas complete_defs = complete_size_def complete_opacity_def complete_location_def complete_touches_def

lemma state_ok_search [simp]: "state_ok (st\<lparr>state_search_for_copies := b\<rparr>) = state_ok st"
  by (simp add: state_ok_def)

lemma complete_layer_spec:
  assumes inv: "settled_inv l"
  shows "\<exists>l' sent nonempty. complete_layer l = Inr (l', sent, nonempty) \<and> completed l l' \<and>
    filter graphical sent = size_change l \<and> (\<not> guac_rect_is_empty (layer_dirty l) \<longrightarrow> nonempty)"
proof -
  let ?p = "layer_pending_frame l" and ?o = "layer_last_frame l"
  have ok: "state_ok ?p" "state_ok ?o" using inv by (simp_all add: layer_inv_def)
  then obtain ps where some: "state_buffer ?p = Some ps" by (auto simp: state_ok_def)
  obtain rows dirty dirty' redrawn where b: "complete_buffer l = Inr (l\<lparr>layer_last_frame := ?o\<lparr>state_buffer := Some rows,
        state_buffer_stride := state_buffer_stride ?p, state_buffer_width := state_buffer_width ?p,
        state_buffer_height := state_buffer_height ?p\<rparr>, layer_last_dirty := dirty, layer_dirty := dirty'\<rparr>, redrawn)"
    "state_buffer_height ?p \<le> int (length rows)" "\<forall>row \<in> set rows. state_buffer_width ?p \<le> int (length row)"
    "(guac_rect_is_empty (layer_dirty l) \<longrightarrow> unchanged l) \<longrightarrow>
      (\<forall>x y. (x, y) \<in> box 0 0 (state_width ?p) (state_height ?p) \<longrightarrow> rows ! nat y ! nat x = rows_of ?p ! nat y ! nat x)"
    "guac_rect_is_empty dirty'" "rect_area dirty = rect_area (layer_dirty l)"
    "\<not> guac_rect_is_empty (layer_dirty l) \<longrightarrow> dirty = layer_dirty l \<and> redrawn"
    by (rule complete_buffer_spec [OF inv])
  define o1 where "o1 = ?o\<lparr>state_buffer := Some rows, state_buffer_stride := state_buffer_stride ?p,
    state_buffer_width := state_buffer_width ?p, state_buffer_height := state_buffer_height ?p\<rparr>"
  define o2 where "o2 = fst (complete_touches (layer_layer l) ?p (fst (complete_location (layer_layer l) ?p
    (fst (complete_opacity (layer_layer l) ?p (fst (complete_size (layer_layer l) ?p o1)))))))"
  define o3 where "o3 = o2\<lparr>state_search_for_copies := state_search_for_copies ?p, state_lossless := state_lossless ?p\<rparr>"
  define l' where "l' = l\<lparr>layer_last_dirty := dirty, layer_dirty := dirty', layer_last_frame := o3,
    layer_pending_frame := ?p\<lparr>state_search_for_copies := False\<rparr>\<rparr>"
  have o3: "state_width o3 = state_width ?p" "state_height o3 = state_height ?p" "state_x o3 = state_x ?p" "state_y o3 = state_y ?p"
    "state_z o3 = state_z ?p" "state_parent o3 = state_parent ?p" "state_opacity o3 = state_opacity ?p"
    "state_touches o3 = state_touches ?p" "state_lossless o3 = state_lossless ?p" "state_buffer o3 = Some rows"
    "state_buffer_width o3 = state_buffer_width ?p" "state_buffer_height o3 = state_buffer_height ?p"
    unfolding o3_def o2_def o1_def complete_defs by simp_all
  have "state_ok o3" using ok(1) b(2, 3) by (auto simp: state_ok_def o3)
  moreover have "(guac_rect_is_empty (layer_dirty l) \<longrightarrow> unchanged l) \<longrightarrow> same_frame o3 ?p"
    using b(4) by (simp add: same_frame_def o3 rows_of_def)
  ultimately have done_l: "completed l l'" using inv b(5-7)
    by (simp add: completed_def l'_def layer_inv_def cells_wf_def o3(1, 2))
  define sent where "sent = size_change l @ snd (complete_opacity (layer_layer l) ?p (fst (complete_size (layer_layer l) ?p o1))) @
    snd (complete_location (layer_layer l) ?p (fst (complete_opacity (layer_layer l) ?p (fst (complete_size (layer_layer l) ?p o1))))) @
    snd (complete_touches (layer_layer l) ?p (fst (complete_location (layer_layer l) ?p
      (fst (complete_opacity (layer_layer l) ?p (fst (complete_size (layer_layer l) ?p o1)))))))"
  have "size_change l = snd (complete_size (layer_layer l) ?p o1)"
    by (simp add: size_change_def complete_size_def o1_def)
  then have "complete_layer l = Inr (l', sent, redrawn \<or> size_change l @
      snd (complete_opacity (layer_layer l) ?p (fst (complete_size (layer_layer l) ?p o1))) @
      snd (complete_location (layer_layer l) ?p (fst (complete_opacity (layer_layer l) ?p (fst (complete_size (layer_layer l) ?p o1))))) \<noteq> [])"
    using some b(1) unfolding complete_layer_def o1_def [symmetric] sent_def
    by (simp add: Let_def split_beta l'_def o3_def o2_def)
  moreover have "filter graphical sent = size_change l"
    unfolding sent_def complete_opacity_def complete_location_def complete_touches_def by (simp add: size_change_def complete_size_def)
  ultimately show ?thesis using done_l b(7) by blast
qed

lemma complete_layers_spec:
  assumes "list_all settled_inv ls"
  shows "\<exists>ls' sent nonempty. complete_layers ls = Inr (ls', sent, nonempty) \<and> list_all2 completed ls ls' \<and>
    filter graphical sent = concat (map size_change ls) \<and>
    ((\<exists>l \<in> set ls. \<not> guac_rect_is_empty (layer_dirty l)) \<longrightarrow> nonempty)"
  using assms
proof (induction ls)
  case (Cons l ls)
  then obtain ls' sents nonempties where ls: "complete_layers ls = Inr (ls', sents, nonempties)" "list_all2 completed ls ls'"
    "filter graphical sents = concat (map size_change ls)" "(\<exists>l \<in> set ls. \<not> guac_rect_is_empty (layer_dirty l)) \<longrightarrow> nonempties"
    by auto
  obtain l' sent nonempty where "complete_layer l = Inr (l', sent, nonempty)" "completed l l'" "filter graphical sent = size_change l"
    "\<not> guac_rect_is_empty (layer_dirty l) \<longrightarrow> nonempty"
    using complete_layer_spec [of l] Cons.prems by auto
  with ls show ?case by auto
qed (simp, blast)

section \<open>The plan of a frame: specification\<close>

definition layer_bounds :: "guac_display_layer list \<Rightarrow> nat \<Rightarrow> guac_rect" where
  "layer_bounds layers n = (case layer_of layers n of None \<Rightarrow> zero_rect | Some l \<Rightarrow> guac_display_layer_get_bounds l)"

text \<open>A new operation lies in its cell and in its layer.\<close>

lemma placed_in_cell:
  assumes "op_placed l oper" "op_wf oper"
  shows "within (op_dest oper) (cell_of oper)" "inside (op_dest oper) (layer_pending_frame l)"
    "rect_left (op_dest oper) < 8192" "rect_top (op_dest oper) < 8192" "uint (op_dirty_size oper) \<le> 4096"
proof -
  let ?d = "op_dest oper"
  obtain i where i: "within ?d (cell_bounds l i)" "uint (op_dirty_size oper) \<le> int (card (rect_area ?d))"
    using assms(1) by (auto simp: op_placed_def)
  have s: "on_screen ?d" using assms(2) by (simp add: op_wf_def)
  then show b: "rect_left ?d < 8192" "rect_top ?d < 8192" by (simp_all add: on_screen_def)
  have k: "rect_left ?d div 64 = int (i mod layer_cells_width l)" "rect_top ?d div 64 = int (i div layer_cells_width l)"
    by (rule within_cell_key [OF i(1)])+
  have c: "cell_of oper = \<lparr>rect_left = 64 * int (i mod layer_cells_width l), rect_top = 64 * int (i div layer_cells_width l),
      rect_right = 64 * int (i mod layer_cells_width l) + 64, rect_bottom = 64 * int (i div layer_cells_width l) + 64\<rparr>"
    using s b cell_of_eq [of oper] by (simp add: on_screen_def op_key_def k)
  show w: "within ?d (cell_of oper)" using i(1) by (auto simp: within_def c cell_bounds_def Let_def)
  show "inside ?d (layer_pending_frame l)" using i(1) s by (auto simp: inside_def within_def cell_bounds_def Let_def)
  have "rect_area ?d \<subseteq> rect_area (cell_of oper)" using w by (auto simp: within_def rect_area_def box_def)
  then have "card (rect_area ?d) \<le> card (rect_area (cell_of oper))"
    by (rule card_mono [rotated]) (simp add: rect_area_def box_def)
  also have "card (rect_area (cell_of oper)) = 4096" by (simp add: rect_area_def box_def c card_cartesian_product)
  finally show "uint (op_dirty_size oper) \<le> 4096" using i(2) by simp
qed

lemma placed_ops:
  assumes "distinct (map op_key ops)" "\<forall>oper \<in> set ops. op_wf oper \<and> op_type oper = GUAC_DISPLAY_PLAN_OPERATION_IMG"
    and "\<forall>oper \<in> set ops. \<exists>l \<in> set layers. op_placed l oper"
  shows "ops_in_cells ops"
  unfolding ops_in_cells_def
proof (intro conjI ballI)
  fix oper assume o: "oper \<in> set ops"
  then obtain l where l: "op_placed l oper" "op_wf oper" "op_type oper = GUAC_DISPLAY_PLAN_OPERATION_IMG" using assms(2, 3) by blast
  from placed_in_cell [OF l(1, 2)] l(2, 3)
  show "within (op_dest oper) (cell_of oper)" "0 \<le> rect_left (op_dest oper)" "0 \<le> rect_top (op_dest oper)"
    "rect_left (op_dest oper) < 8192" "rect_top (op_dest oper) < 8192" "uint (op_dirty_size oper) \<le> 4096"
    "op_type oper = GUAC_DISPLAY_PLAN_OPERATION_COPY \<longrightarrow> op_dest oper = cell_of oper"
    by (simp_all add: op_wf_def on_screen_def)
qed (rule assms(1))

text \<open>A layer has no more operations than cells.\<close>

lemma placed_count:
  assumes ops: "distinct (map op_key ops)" "\<forall>oper \<in> set ops. \<exists>l \<in> set layers. op_placed l oper"
    and l: "distinct (map layer_number layers)" "l \<in> set layers"
  shows "count_list (map op_layer ops) (layer_number l) \<le> length (layer_cells l)"
proof -
  let ?ops = "filter (\<lambda>oper. op_layer oper = layer_number l) ops"
  let ?key = "\<lambda>i. (layer_number l, int (i mod layer_cells_width l), int (i div layer_cells_width l))"
  have "op_key oper \<in> ?key ` {..<length (layer_cells l)}" if o: "oper \<in> set ?ops" for oper
  proof -
    obtain k where "k \<in> set layers" "op_placed k oper" using o ops(2) by auto
    moreover from this have "k = l" using o l by (auto simp: op_placed_def distinct_map dest: inj_onD)
    ultimately obtain i where "i < length (layer_cells l)" "within (op_dest oper) (cell_bounds l i)" by (auto simp: op_placed_def)
    then show ?thesis using o within_cell_key by (auto simp: op_key_def intro!: image_eqI [of _ _ i])
  qed
  then have "card (op_key ` set ?ops) \<le> card (?key ` {..<length (layer_cells l)})" by (intro card_mono) auto
  also have "\<dots> \<le> length (layer_cells l)" using card_image_le [of "{..<length (layer_cells l)}" ?key] by simp
  finally have "card (op_key ` set ?ops) \<le> length (layer_cells l)" .
  moreover have "distinct (map op_key ?ops)" using ops(1) by (rule distinct_map_filter)
  ultimately have "length ?ops \<le> length (layer_cells l)" by (metis distinct_card length_map image_set)
  then show ?thesis by (simp add: count_list_eq_length_filter filter_map comp_def eq_commute)
qed

lemma count_total:
  assumes "set (map op_layer ops) \<subseteq> set (map layer_number layers)" "distinct (map layer_number layers)"
    and "\<forall>l \<in> set layers. count_list (map op_layer ops) (layer_number l) \<le> length (layer_cells l)"
  shows "length ops \<le> sum_list (map (\<lambda>l. length (layer_cells l)) layers)"
proof -
  have "length ops = sum (count_list (map op_layer ops)) (set (map layer_number layers))"
    using sum_count_set [OF assms(1)] by simp
  also have "\<dots> = sum_list (map (\<lambda>l. count_list (map op_layer ops) (layer_number l)) layers)"
    using sum_list_distinct_conv_sum_set [OF assms(2), of "count_list (map op_layer ops)"] by (simp add: comp_def)
  also have "\<dots> \<le> sum_list (map (\<lambda>l. length (layer_cells l)) layers)" using assms(3) by (intro sum_list_mono) blast
  finally show ?thesis .
qed

lemma plan_kept_fields:
  assumes "plan_kept l l'"
  shows "layer_number l' = layer_number l" "layer_pending_frame l' = layer_pending_frame l" "layer_last_frame l' = layer_last_frame l"
    "layer_opaque l' = layer_opaque l" "layer_layer l' = layer_layer l" "layer_last_frame_buffer l' = layer_last_frame_buffer l"
    "layer_cells_width l' = layer_cells_width l" "layer_cells_height l' = layer_cells_height l"
proof -
  have e: "l' = l\<lparr>layer_dirty := layer_dirty l', layer_cells := layer_cells l'\<rparr>" using assms unfolding plan_kept_def by blast
  show "layer_number l' = layer_number l" "layer_pending_frame l' = layer_pending_frame l" "layer_last_frame l' = layer_last_frame l"
    "layer_opaque l' = layer_opaque l" "layer_layer l' = layer_layer l" "layer_last_frame_buffer l' = layer_last_frame_buffer l"
    "layer_cells_width l' = layer_cells_width l" "layer_cells_height l' = layer_cells_height l"
    by (subst e, simp)+
qed

lemma combine_kept_trans: "combine_kept a b \<Longrightarrow> combine_kept b c \<Longrightarrow> combine_kept a c"
  unfolding combine_kept_def by (metis plan_layer.fold_congs(2) plan_layer.surjective plan_layer.update_convs(2))

lemma plan_kept_combine:
  assumes "plan_kept l l1" "combine_kept l1 l2"
  shows "plan_kept l l2"
proof -
  have e: "l1 = l\<lparr>layer_dirty := layer_dirty l1, layer_cells := layer_cells l1\<rparr>" "l2 = l1\<lparr>layer_cells := layer_cells l2\<rparr>"
    "map cell_dirty_size (layer_cells l2) = map cell_dirty_size (layer_cells l1)"
    "list_all (\<lambda>c. cell_dirty_size c = 0) (layer_cells l1)" "length (layer_cells l1) = length (layer_cells l)"
    "changed l \<subseteq> rect_area (layer_dirty l1)" "guac_rect_is_empty (layer_dirty l) \<longrightarrow> layer_dirty l1 = layer_dirty l"
    "guac_rect_is_empty (layer_dirty l1) \<or> on_screen (layer_dirty l1)"
    using assms unfolding plan_kept_def combine_kept_def by blast+
  have d: "layer_dirty l2 = layer_dirty l1" by (subst e(2)) simp
  have "l2 = (l\<lparr>layer_dirty := layer_dirty l1, layer_cells := layer_cells l1\<rparr>)\<lparr>layer_cells := layer_cells l2\<rparr>"
    by (subst e(1) [symmetric]) (rule e(2))
  then have "l2 = l\<lparr>layer_dirty := layer_dirty l1, layer_cells := layer_cells l2\<rparr>" by simp
  moreover have "list_all (\<lambda>c. cell_dirty_size c = 0) (layer_cells l2)"
  proof -
    have "list_all (\<lambda>v. v = 0) (map cell_dirty_size (layer_cells l2))" unfolding e(3) using e(4) by (simp add: list.pred_map comp_def)
    then show ?thesis by (simp add: list.pred_map comp_def)
  qed
  moreover have "length (layer_cells l2) = length (layer_cells l)" using e(3, 5) by (metis length_map)
  ultimately show ?thesis unfolding plan_kept_def d using e(6-8) by blast
qed

lemma pending_frame_kept:
  assumes "list_all2 plan_kept layers layers'"
  shows "pending_frame layers' = pending_frame layers" "layer_bounds layers' = layer_bounds layers"
    "map layer_number layers' = map layer_number layers"
proof -
  have "rel_option plan_kept (layer_of layers n) (layer_of layers' n)" for n
    using assms by (induction rule: list_all2_induct) (auto simp: layer_of_def plan_kept_fields(1))
  note r = this
  show "pending_frame layers' = pending_frame layers"
  proof (intro ext)
    fix n p
    show "pending_frame layers' n p = pending_frame layers n p"
      using r [of n] by (cases "layer_of layers n"; cases "layer_of layers' n")
        (auto simp: pending_frame_def visible_def plan_kept_fields split: prod.splits)
  qed
  show "layer_bounds layers' = layer_bounds layers"
  proof (intro ext)
    fix n
    show "layer_bounds layers' n = layer_bounds layers n"
      using r [of n] by (cases "layer_of layers n"; cases "layer_of layers' n")
        (auto simp: layer_bounds_def guac_display_layer_get_bounds_def plan_kept_fields)
  qed
  show "map layer_number layers' = map layer_number layers"
    using assms by (induction rule: list_all2_induct) (auto simp: plan_kept_fields)
qed

text \<open>The five passes over a new plan.\<close>

lemma optimise_plan_sound:
  assumes wf: "\<And>l. l \<in> set layers \<Longrightarrow> buffer_ok (layer_pending_frame l) \<and> state_width (layer_pending_frame l) \<le> 8192 \<and>
      state_height (layer_pending_frame l) \<le> 8192"
    and d: "distinct (map layer_number layers)"
    and ops: "distinct (map op_key ops)" "\<forall>oper \<in> set ops. op_wf oper \<and> op_type oper = GUAC_DISPLAY_PLAN_OPERATION_IMG"
      "\<forall>oper \<in> set ops. \<exists>l \<in> set layers. op_layer oper = layer_number l \<and> within (op_dest oper) (cell_of oper) \<and>
         inside (op_dest oper) (layer_pending_frame l) \<and> uint (op_dirty_size oper) \<le> 4096"
    and cells: "list_all (layer_ok ops) layers" and src: "sources_fit C K L layers olds ops"
  shows "\<exists>layers' ops'. optimise_plan layers olds ops = Inr (layers', ops') \<and> (C \<longrightarrow> plan_sound (pending_frame layers) L ops') \<and>
    improves ops ops' \<and> list_all2 combine_kept layers layers' \<and> ops_bounded K (layer_bounds layers) (map op_layer ops) ops'"
proof -
  let ?P = "pending_frame layers" and ?B = "layer_bounds layers" and ?ns = "map op_layer ops"
  have find: "layer_of layers (layer_number l) = Some l" if "l \<in> set layers" for l
    using find_unique_key [OF d that] by (simp add: layer_of_def)
  have oic: "ops_in_cells ops" using ops by (fastforce simp: ops_in_cells_def op_wf_def on_screen_def)
  have sound: "plan_sound ?P L ops" using plan_of_images ops(2) by blast
  have img: "images_inside layers ops" using ops(3) wf find by (fastforce simp: images_inside_def)
  define ops1 where "ops1 = PFR_guac_display_plan_rewrite_as_rects layers ops"
  have s1: "plan_sound ?P L ops1" "improves ops ops1" "live ops1 = live ops"
    using rewrite_as_rects_sound [OF sound img] by (simp_all add: ops1_def)
  have eq1: "map op_key ops1 = map op_key ops" "map op_layer ops1 = ?ns" "map op_dest ops1 = map op_dest ops"
    by (simp_all add: ops1_def PFR_guac_display_plan_rewrite_as_rects_def op_key_def)
  have oic1: "ops_in_cells ops1"
    unfolding ops_in_cells_def eq1(1)
    using oic ops(2) by (auto simp: ops_in_cells_def cell_of_def ops1_def PFR_guac_display_plan_rewrite_as_rects_def)
  have "op_layer ` set ops1 = op_layer ` set ops" using eq1(2) by (metis image_set)
  then have fit: "sources_fit C K L layers olds ops1" using src by (simp add: sources_fit_def)
  have nocopy: "list_all (\<lambda>oper. op_type oper = GUAC_DISPLAY_PLAN_OPERATION_COPY \<longrightarrow> K) ops1"
    using ops(2) by (auto simp: ops1_def PFR_guac_display_plan_rewrite_as_rects_def list_all_iff)
  have ok1: "list_all op_wf ops1" "C \<longrightarrow> list_all (op_correct ?P L) ops1" using s1(1) by (simp_all add: plan_sound_def)
  obtain st where "search_pass layers olds ops1 = Inr (snd st)" "search_good C K L layers ops1 st"
    using rewrite_as_copies_fit [OF wf fit oic1 ok1 nocopy] by metis
  moreover define ops2 where "ops2 = snd st"
  ultimately have s2: "search_pass layers olds ops1 = Inr ops2" "ops_in_cells ops2" "list_all op_wf ops2" "improves ops1 ops2"
    "map op_layer ops2 = map op_layer ops1"
    "\<forall>i < length ops2. op_dest (ops2 ! i) = op_dest (ops1 ! i) \<or> indexed_ok layers (ops2 ! i) \<and> op_dest (ops2 ! i) = cell_of (ops2 ! i)"
    "list_all (\<lambda>oper. op_type oper = GUAC_DISPLAY_PLAN_OPERATION_COPY \<longrightarrow> K) ops2" "C \<longrightarrow> list_all (op_correct ?P L) ops2"
    by (auto simp: search_good_def split: prod.splits)
  obtain P' L' where sound2: "plan_sound P' L' ops2" "C \<longrightarrow> P' = ?P \<and> L' = L"
  proof (cases C)
    case True
    then show thesis using s2(2, 3, 8) copies_apart_cells by (intro that [of ?P L]) (simp_all add: plan_sound_def)
  next
    case False
    then show thesis using cells_sound [OF s2(2, 3)] that by blast
  qed
  have len: "length ops2 = length ops" using s2(5) eq1(2) by (metis length_map)
  have bounded: "ops_bounded K ?B ?ns ops2"
    unfolding ops_bounded_def
  proof (intro conjI ballI)
    show "map op_layer ops2 = ?ns" using s2(5) eq1(2) by simp
    fix oper assume "oper \<in> set ops2"
    then obtain i where i: "i < length ops2" "oper = ops2 ! i" by (auto simp: in_set_conv_nth)
    have n: "op_layer oper = op_layer (ops ! i)" using s2(5) eq1(2) i len by (metis nth_map)
    have dst: "op_dest (ops1 ! i) = op_dest (ops ! i)" using eq1(3) i len by (metis nth_map length_map)
    obtain l where l: "l \<in> set layers" "op_layer oper = layer_number l" "inside (op_dest oper) (layer_pending_frame l)"
    proof (cases "op_dest oper = op_dest (ops ! i)")
      case True
      have "ops ! i \<in> set ops" using i len by simp
      then show thesis using ops(3) that n True by metis
    next
      case False
      then have "indexed_ok layers oper" "op_dest oper = cell_of oper" using s2(6) i dst by auto
      then obtain l where "layer_of layers (op_layer oper) = Some l" "inside (op_dest oper) (layer_pending_frame l)" by (auto simp: indexed_ok_def)
      then show thesis using that [of l] by (auto simp: layer_of_def find_Some_iff)
    qed
    have "?B (op_layer oper) = guac_display_layer_get_bounds l" using find [OF l(1)] l(2) by (simp add: layer_bounds_def)
    then show "on_screen (op_dest oper)" "rect_left (?B (op_layer oper)) \<le> rect_left (op_dest oper)"
      "rect_top (?B (op_layer oper)) \<le> rect_top (op_dest oper)" "rect_right (op_dest oper) \<le> rect_right (?B (op_layer oper))"
      "rect_bottom (op_dest oper) \<le> rect_bottom (?B (op_layer oper))"
      using l(3) by (simp_all add: inside_def on_screen_def guac_display_layer_get_bounds_def)
    show "op_type oper = GUAC_DISPLAY_PLAN_OPERATION_COPY \<longrightarrow> K" using s2(7) i by (simp add: list_all_length)
  qed
  have ok2: "list_all (layer_ok ops2) layers" using cells len by (simp add: list_all_iff layer_ok_def cells_ok_def)
  obtain ops3 layers3 where h: "combine_layers combine_layer_horizontally ops2 layers = (ops3, layers3)" by fastforce
  have s3: "plan_sound P' L' ops3 \<and> improves ops2 ops3 \<and> list_all (layer_ok ops3) layers3"
    using combine_layers_good [OF horizontal_good sound2(1) ok2 h] by blast
  have b3: "ops_bounded K ?B ?ns ops3 \<and> list_all2 combine_kept layers layers3"
    by (rule combine_layers_bounded [OF _ bounded ok2 h]) (simp add: passes_bounded passes_kept)
  obtain ops4 layers4 where v: "combine_layers combine_layer_vertically ops3 layers3 = (ops4, layers4)" by fastforce
  have s4: "plan_sound P' L' ops4 \<and> improves ops3 ops4"
    using combine_layers_good [OF vertical_good _ _ v] s3 by blast
  have b4: "ops_bounded K ?B ?ns ops4 \<and> list_all2 combine_kept layers3 layers4"
    by (rule combine_layers_bounded [OF _ _ _ v]) (use s3 b3 in \<open>simp_all add: passes_bounded passes_kept\<close>)
  have "optimise_plan layers olds ops = Inr (layers4, ops4)"
    using s2(1) h v by (simp add: optimise_plan_def ops1_def [symmetric] PFW_guac_display_plan_combine_horizontally_def
        PFW_guac_display_plan_combine_vertically_def)
  moreover have "improves ops ops4" using s1(2) s2(4) s3 s4 by (meson improves_trans)
  moreover have "list_all2 combine_kept layers layers4"
    by (rule list_all2_trans [OF combine_kept_trans conjunct2 [OF b3] conjunct2 [OF b4]])
  ultimately show ?thesis using s4 b4 sound2(2) by blast
qed

section \<open>Freeing removed layers: specification\<close>

lemma free_buffer_ok:
  assumes "pool_ok (client_buffer_pool c) U" "v \<in> U" "idx = - v - 1"
  obtains p where "guac_client_free_buffer c idx = Inr (c\<lparr>client_buffer_pool := p\<rparr>)" "pool_ok p (U - {v})"
proof -
  obtain p where "guac_pool_free_int (client_buffer_pool c) v = Inr p" "pool_ok p (U - {v})"
    by (rule pool_free_ok [OF assms(1, 2)])
  then show thesis using assms(3) by (intro that [of p]) (simp_all add: guac_client_free_buffer_def)
qed

abbreviation visible_layers :: "guac_display_layer list \<Rightarrow> int" where
  "visible_layers ls \<equiv> int (length (filter (\<lambda>l. layer_layer l > 0) ls))"

lemma free_removed_layer_ok:
  assumes "pool_ok (client_buffer_pool c) U" "set (layer_buffers l) \<subseteq> U" "distinct (layer_buffers l)"
    and "layer_layer l > 0 \<Longrightarrow> 0 < active (client_layer_pool c)"
  obtains c' where "free_removed_layer l c = Inr (c', if layer_layer l = 0 then [] else [Draw_dispose (layer_layer l)])"
    "pool_ok (client_buffer_pool c') (U - set (layer_buffers l))"
    "active (client_layer_pool c') = active (client_layer_pool c) - (if layer_layer l > 0 then 1 else 0)"
proof -
  have "int (layer_last_frame_buffer l) \<in> U" using assms(2) by (simp add: layer_buffers_def)
  then obtain p where p: "guac_client_free_buffer c (- int (layer_last_frame_buffer l) - 1) = Inr (c\<lparr>client_buffer_pool := p\<rparr>)"
    "pool_ok p (U - {int (layer_last_frame_buffer l)})" by (rule free_buffer_ok [OF assms(1) _ refl])
  consider "layer_layer l = 0" | "layer_layer l > 0" | "layer_layer l < 0" by linarith
  then show thesis
  proof cases
    case 1
    then show thesis using p by (intro that [of "c\<lparr>client_buffer_pool := p\<rparr>"]) (simp_all add: free_removed_layer_def layer_buffers_def)
  next
    case 2
    let ?q = "(client_layer_pool c)\<lparr>active := active (client_layer_pool c) - 1, free_ints := free_ints (client_layer_pool c) @ [layer_layer l]\<rparr>"
    have "guac_client_free_layer (c\<lparr>client_buffer_pool := p\<rparr>) (layer_layer l) = Inr (c\<lparr>client_buffer_pool := p, client_layer_pool := ?q\<rparr>)"
      using assms(4) 2 by (simp add: guac_client_free_layer_def guac_pool_free_int_def guac_assert_def)
    then show thesis using p 2
      by (intro that [of "c\<lparr>client_buffer_pool := p, client_layer_pool := ?q\<rparr>"]) (simp_all add: free_removed_layer_def layer_buffers_def)
  next
    case 3
    have m: "- layer_layer l - 1 \<in> U - {int (layer_last_frame_buffer l)}" using 3 assms(2, 3) by (simp add: layer_buffers_def)
    obtain p' where "guac_client_free_buffer (c\<lparr>client_buffer_pool := p\<rparr>) (layer_layer l) =
        Inr (c\<lparr>client_buffer_pool := p, client_buffer_pool := p'\<rparr>)"
      "pool_ok p' (U - {int (layer_last_frame_buffer l)} - {- layer_layer l - 1})"
      by (rule free_buffer_ok [OF _ m, of "c\<lparr>client_buffer_pool := p\<rparr>" "layer_layer l"]) (use p(2) in simp_all)
    moreover have "U - {int (layer_last_frame_buffer l)} - {- layer_layer l - 1} = U - set (layer_buffers l)"
      using 3 by (auto simp: layer_buffers_def)
    ultimately show thesis using p 3
      by (intro that [of "c\<lparr>client_buffer_pool := p'\<rparr>"]) (simp_all add: free_removed_layer_def)
  qed
qed

lemma free_removed_layers_ok:
  assumes "pool_ok (client_buffer_pool c) U" "set (concat (map layer_buffers (ls @ rs))) \<subseteq> U"
    and "distinct (concat (map layer_buffers (ls @ rs)))" "visible_layers (ls @ rs) \<le> active (client_layer_pool c)"
  shows "\<exists>c' U'. guac_display_free_removed_layers rs c =
      Inr (c', map Draw_dispose (filter (\<lambda>i. i \<noteq> 0) (map layer_layer rs))) \<and>
    pool_ok (client_buffer_pool c') U' \<and> set (concat (map layer_buffers ls)) \<subseteq> U' \<and>
    visible_layers ls \<le> active (client_layer_pool c')"
  using assms
proof (induction rs arbitrary: c U)
  case Nil
  then show ?case by auto
next
  case (Cons l rs)
  have b: "set (layer_buffers l) \<subseteq> U" "distinct (layer_buffers l)"
    "distinct (concat (map layer_buffers (ls @ rs)))" "set (concat (map layer_buffers (ls @ rs))) \<inter> set (layer_buffers l) = {}"
    using Cons.prems(2, 3) by auto
  have "0 < active (client_layer_pool c)" if "layer_layer l > 0" using Cons.prems(4) that by simp
  then obtain c1 where c1: "free_removed_layer l c = Inr (c1, if layer_layer l = 0 then [] else [Draw_dispose (layer_layer l)])"
    "pool_ok (client_buffer_pool c1) (U - set (layer_buffers l))"
    "active (client_layer_pool c1) = active (client_layer_pool c) - (if layer_layer l > 0 then 1 else 0)"
    using free_removed_layer_ok [OF Cons.prems(1) b(1, 2)] by blast
  have "set (concat (map layer_buffers (ls @ rs))) \<subseteq> U - set (layer_buffers l)" using b(4) Cons.prems(2) by auto
  moreover have "visible_layers (ls @ rs) \<le> active (client_layer_pool c1)" using Cons.prems(4) c1(3) by (auto split: if_splits)
  ultimately obtain c' U' where "guac_display_free_removed_layers rs c1 =
      Inr (c', map Draw_dispose (filter (\<lambda>i. i \<noteq> 0) (map layer_layer rs)))"
    "pool_ok (client_buffer_pool c') U'" "set (concat (map layer_buffers ls)) \<subseteq> U'" "visible_layers ls \<le> active (client_layer_pool c')"
    using Cons.IH [OF c1(2) _ b(3)] by blast
  then show ?case using c1(1) by auto
qed

section \<open>Applying the plan: specification\<close>

definition op_drawings :: "guac_display_layer \<Rightarrow> guac_display_plan_operation \<Rightarrow> drawing list" where
  "op_drawings l oper = (case op_type oper of GUAC_DISPLAY_PLAN_OPERATION_COPY \<Rightarrow> apply_copy l oper
     | GUAC_DISPLAY_PLAN_OPERATION_RECT \<Rightarrow> apply_rect l oper | _ \<Rightarrow> [])"

lemma plan_apply_spec:
  assumes "\<forall>oper \<in> set ops. layer_of layers (op_layer oper) \<noteq> None"
  shows "guac_display_plan_apply room layers ops =
    (if room < length (filter (\<lambda>oper. op_type oper = GUAC_DISPLAY_PLAN_OPERATION_IMG) ops) then Inl Deadlock
     else Inr (concat (map (\<lambda>oper. op_drawings (the (layer_of layers (op_layer oper))) oper) ops),
      filter (\<lambda>oper. op_type oper = GUAC_DISPLAY_PLAN_OPERATION_IMG) ops))"
  using assms by (induction ops arbitrary: room)
    (auto simp: apply_op_def op_drawings_def split: guac_display_plan_operation_type.splits)

section \<open>Ending a frame: specification\<close>

text \<open>
  When the copies of a frame are correct: every layer that is searched and large enough shows in \<open>L\<close> what
  its last frame was, and agrees about alpha with the layers that are modified. Without such a layer
  there are no copies. The frame itself can be ended in every display, whatever has been drawn.
\<close>

definition copies_fit :: "frame \<Rightarrow> guac_display \<Rightarrow> bool" where
  "copies_fit L d \<longleftrightarrow> (\<forall>l' \<in> set (all_layers d).
     state_search_for_copies (layer_pending_frame l') \<and> holds_cell (layer_last_frame l') \<longrightarrow> shows_last L l' \<and>
     (\<forall>l \<in> set (display_layers d). \<not> guac_rect_is_empty (layer_dirty l) \<and> holds_cell (layer_pending_frame l) \<longrightarrow> alpha_fits l l'))"

definition may_copy :: "guac_display \<Rightarrow> bool" where
  "may_copy d \<longleftrightarrow> (\<exists>l' \<in> set (all_layers d). state_search_for_copies (layer_pending_frame l') \<and> holds_cell (layer_last_frame l'))"

text \<open>The cells of all layers, which bound the operations of a frame.\<close>

definition display_cells :: "guac_display \<Rightarrow> nat" where
  "display_cells d = sum_list (map (\<lambda>l. length (layer_cells l)) (display_layers d))"

definition flushed :: "guac_display_layer \<Rightarrow> guac_display_layer \<Rightarrow> bool" where
  "flushed l l' \<longleftrightarrow> (\<exists>l2. plan_kept l l2 \<and> completed l2 l')"

lemma plan_kept_inv:
  assumes "layer_inv l" "plan_kept l l'"
  shows "settled_inv l'"
proof -
  have "length (layer_cells l') = length (layer_cells l)" "list_all (\<lambda>c. cell_dirty_size c = 0) (layer_cells l')"
    using assms(2) unfolding plan_kept_def by blast+
  then show ?thesis using assms(1) plan_kept_fields [OF assms(2)]
    by (simp add: layer_inv_def cells_wf_def guac_rect_is_empty_def zero_rect_def)
qed

lemma plan_kept_unchanged:
  assumes "reported l" "plan_kept l l'" "guac_rect_is_empty (layer_dirty l')"
  shows "unchanged l'"
proof -
  have "changed l \<subseteq> rect_area (layer_dirty l')" using assms(2) unfolding plan_kept_def by blast
  then have "changed l = {}" using assms(3) by (simp add: rect_empty_area)
  then show ?thesis using reported_changed [OF assms(1)] plan_kept_fields [OF assms(2)] by (simp add: unchanged_def)
qed

lemma flushed_fields:
  assumes "flushed l l'"
  shows "layer_number l' = layer_number l" "layer_layer l' = layer_layer l" "layer_opaque l' = layer_opaque l"
    "layer_last_frame_buffer l' = layer_last_frame_buffer l" "layer_buffers l' = layer_buffers l" "layer_inv l'"
    "state_width (layer_last_frame l') = state_width (layer_pending_frame l)"
    "layer_pending_frame l' = (layer_pending_frame l)\<lparr>state_search_for_copies := False\<rparr>"
    "state_height (layer_last_frame l') = state_height (layer_pending_frame l)"
  using assms plan_kept_fields by (auto simp: flushed_def completed_def layer_buffers_def)

text \<open>If all changes were reported, the last frame has become the pending frame.\<close>

lemma flushed_same:
  assumes "flushed l l'" "reported l"
  shows "same_frame (layer_last_frame l') (layer_pending_frame l)"
proof -
  obtain l2 where "plan_kept l l2" "completed l2 l'" using assms(1) by (auto simp: flushed_def)
  then show ?thesis using plan_kept_unchanged [OF assms(2)] plan_kept_fields(2) by (simp add: completed_def)
qed

lemma layer_of_mem: "layer_of ls n = Some l \<Longrightarrow> l \<in> set ls \<and> layer_number l = n"
  by (auto simp: layer_of_def find_Some_iff)

lemma last_layers_mem: "l \<in> set (last_layers d) \<Longrightarrow> l \<in> set (all_layers d)"
  using layer_of_mem by (fastforce simp: last_layers_def List.map_filter_def)

text \<open>The plan of a display.\<close>

lemma plan_of_display:
  assumes inv: "display_inv d"
  obtains layers1 plan layers2 ops where "PFW_LFR_guac_display_plan_create now (display_layers d) = Some (Inr (layers1, plan))"
    "case plan of None \<Rightarrow> layers2 = layers1 \<and> ops = []
     | Some ops0 \<Rightarrow> optimise_plan layers1 (last_layers (d\<lparr>display_layers := layers1\<rparr>)) ops0 = Inr (layers2, ops)"
    "list_all2 plan_kept (display_layers d) layers2" "copies_fit L d \<longrightarrow> plan_sound (pending_frame (display_layers d)) L ops"
    "ops_bounded (may_copy d) (layer_bounds (display_layers d)) (map op_layer ops) ops"
    "\<forall>l \<in> set (display_layers d). changed l \<subseteq> drawn ops (layer_number l)"
    "\<forall>oper \<in> set ops. \<exists>l \<in> set (display_layers d). op_layer oper = layer_number l \<and> \<not> guac_rect_is_empty (layer_dirty l)"
    "ops \<noteq> [] \<longrightarrow> (\<exists>l \<in> set layers2. \<not> guac_rect_is_empty (layer_dirty l))"
    "\<forall>l \<in> set (display_layers d). count_list (map op_layer ops) (layer_number l) \<le> length (layer_cells l)"
proof -
  let ?ls = "display_layers d"
  have wf: "list_all layer_inv ?ls" "distinct (map layer_number ?ls)" using inv by (simp_all add: display_inv_def)
  then have "list_all layer_wf ?ls" by (auto simp: list_all_iff layer_inv_wf)
  from display_plan_create_spec [OF this, of now] obtain layers1 plan where c:
    "PFW_LFR_guac_display_plan_create now ?ls = Some (Inr (layers1, plan))" "list_all2 plan_kept ?ls layers1"
    "case plan of None \<Rightarrow> \<forall>l \<in> set ?ls. changed l = {}
     | Some ops \<Rightarrow> (\<forall>l \<in> set ?ls. changed l \<subseteq> drawn ops (layer_number l)) \<and>
        (\<forall>oper \<in> set ops. op_wf oper \<and> op_type oper = GUAC_DISPLAY_PLAN_OPERATION_IMG) \<and>
        list_all (layer_ok ops) layers1 \<and> (\<exists>l \<in> set layers1. \<not> guac_rect_is_empty (layer_dirty l)) \<and> (\<forall>oper \<in> set ops. \<exists>l \<in> set ?ls. op_placed l oper) \<and>
        (distinct (map layer_number ?ls) \<longrightarrow> distinct (map op_key ops))" by blast
  show thesis
  proof (cases plan)
    case None
    then show thesis using c
      by (intro that [of layers1 plan layers1 "[]"]) (auto simp: plan_sound_def copies_apart_def ops_bounded_def)
  next
    case (Some ops0)
    have o: "\<forall>l \<in> set ?ls. changed l \<subseteq> drawn ops0 (layer_number l)"
      "\<forall>oper \<in> set ops0. op_wf oper \<and> op_type oper = GUAC_DISPLAY_PLAN_OPERATION_IMG" "list_all (layer_ok ops0) layers1"
      "\<forall>oper \<in> set ops0. \<exists>l \<in> set ?ls. op_placed l oper" "distinct (map op_key ops0)"
      "\<exists>l \<in> set layers1. \<not> guac_rect_is_empty (layer_dirty l)"
      using c(3) Some wf(2) by auto
    have kept: "\<exists>l' \<in> set layers1. plan_kept l l'" if "l \<in> set ?ls" for l
      using that c(2) by (metis in_set_conv_nth list_all2_conv_all_nth)
    have kept': "\<exists>l \<in> set ?ls. plan_kept l l'" if "l' \<in> set layers1" for l'
      using that c(2) by (metis in_set_conv_nth list_all2_conv_all_nth)
    note frames = pending_frame_kept [OF c(2)]
    have "\<exists>layers2 ops. optimise_plan layers1 (last_layers (d\<lparr>display_layers := layers1\<rparr>)) ops0 = Inr (layers2, ops) \<and>
      (copies_fit L d \<longrightarrow> plan_sound (pending_frame layers1) L ops) \<and> improves ops0 ops \<and> list_all2 combine_kept layers1 layers2 \<and>
      ops_bounded (may_copy d) (layer_bounds layers1) (map op_layer ops0) ops"
    proof (rule optimise_plan_sound)
      show "buffer_ok (layer_pending_frame l) \<and> state_width (layer_pending_frame l) \<le> 8192 \<and> state_height (layer_pending_frame l) \<le> 8192"
        if l: "l \<in> set layers1" for l
      proof -
        obtain l0 where "l0 \<in> set ?ls" "plan_kept l0 l" using kept' [OF l] by blast
        then have "state_ok (layer_pending_frame l)" using wf(1) by (auto simp: list_all_iff layer_inv_def plan_kept_fields)
        then show ?thesis using state_ok_buffer by (auto simp: state_ok_def extent_ok_def)
      qed
      show "distinct (map layer_number layers1)" using wf(2) frames(3) by simp
      show "\<forall>oper \<in> set ops0. \<exists>l \<in> set layers1. op_layer oper = layer_number l \<and> within (op_dest oper) (cell_of oper) \<and>
         inside (op_dest oper) (layer_pending_frame l) \<and> uint (op_dirty_size oper) \<le> 4096"
      proof
        fix oper assume "oper \<in> set ops0"
        then obtain l where l: "l \<in> set ?ls" "op_placed l oper" "op_wf oper" using o(2, 4) by blast
        moreover obtain l' where "l' \<in> set layers1" "plan_kept l l'" using kept [OF l(1)] by blast
        ultimately show "\<exists>l \<in> set layers1. op_layer oper = layer_number l \<and> within (op_dest oper) (cell_of oper) \<and>
           inside (op_dest oper) (layer_pending_frame l) \<and> uint (op_dirty_size oper) \<le> 4096"
          using placed_in_cell [OF l(2, 3)] by (intro bexI [of _ l']) (auto simp: plan_kept_fields op_placed_def)
      qed
      show "sources_fit (copies_fit L d) (may_copy d) L layers1 (last_layers (d\<lparr>display_layers := layers1\<rparr>)) ops0"
        unfolding sources_fit_def
      proof (intro ballI impI)
        fix l'
        assume "l' \<in> set (last_layers (d\<lparr>display_layers := layers1\<rparr>))" and search: "state_search_for_copies (layer_pending_frame l')"
        then have "l' \<in> set layers1 \<union> set (display_removed d)" using last_layers_mem by fastforce
        then obtain l where l: "l \<in> set (all_layers d)" "l = l' \<or> plan_kept l l'" using kept' by auto
        then have f: "layer_last_frame l' = layer_last_frame l" "layer_opaque l' = layer_opaque l"
          "layer_last_frame_buffer l' = layer_last_frame_buffer l" "layer_pending_frame l' = layer_pending_frame l"
          by (auto simp: plan_kept_fields)
        have ok: "state_ok (layer_last_frame l)" using l(1) inv by (auto simp: display_inv_def list_all_iff layer_inv_def)
        have fits: "alpha_fits k l'" if fit: "copies_fit L d" "holds_cell (layer_last_frame l')"
          and k: "k \<in> set layers1" "layer_number k \<in> op_layer ` set ops0" "holds_cell (layer_pending_frame k)" for k
        proof -
          obtain k0 where k0: "k0 \<in> set ?ls" "plan_kept k0 k" using kept' [OF k(1)] by blast
          obtain oper k1 where "oper \<in> set ops0" "layer_number k = op_layer oper" "k1 \<in> set ?ls" "op_placed k1 oper"
            using k(2) o(4) by (metis imageE)
          then have k1: "layer_number k1 = layer_number k0" "\<not> guac_rect_is_empty (layer_dirty k1)" "k1 \<in> set ?ls"
            using k0(2) by (auto simp: op_placed_def plan_kept_fields)
          then have "k1 = k0" using wf(2) k0(1) by (metis distinct_map inj_onD)
          then have "alpha_fits k0 l"
            using fit k(3) k0 k1 l(1) search f plan_kept_fields(2) [OF k0(2)] unfolding copies_fit_def by auto
          then show ?thesis using f plan_kept_fields [OF k0(2)] by (simp add: alpha_fits_def visible_def)
        qed
        have "shows_last L l'" if "copies_fit L d" "holds_cell (layer_last_frame l')"
          using that l(1) search f unfolding copies_fit_def by (auto simp: shows_last_def visible_def)
        moreover have "may_copy d" if "holds_cell (layer_last_frame l')"
          using that l(1) search f by (auto simp: may_copy_def)
        ultimately show "buffer_ok (layer_last_frame l') \<and> state_width (layer_last_frame l') \<le> 8192 \<and> state_height (layer_last_frame l') \<le> 8192 \<and>
          (holds_cell (layer_last_frame l') \<longrightarrow> may_copy d \<and> (copies_fit L d \<longrightarrow> shows_last L l' \<and>
            (\<forall>l \<in> set layers1. layer_number l \<in> op_layer ` set ops0 \<and> holds_cell (layer_pending_frame l) \<longrightarrow> alpha_fits l l')))"
          using fits ok state_ok_buffer f(1) by (auto simp: state_ok_def extent_ok_def)
      qed
    qed (use o in simp_all)
    then obtain layers2 ops where r: "optimise_plan layers1 (last_layers (d\<lparr>display_layers := layers1\<rparr>)) ops0 = Inr (layers2, ops)"
      "copies_fit L d \<longrightarrow> plan_sound (pending_frame ?ls) L ops" "improves ops0 ops" "list_all2 combine_kept layers1 layers2"
      "ops_bounded (may_copy d) (layer_bounds ?ls) (map op_layer ops0) ops" unfolding frames by blast
    have ns: "map op_layer ops = map op_layer ops0" using r(5) by (simp add: ops_bounded_def)
    show thesis
    proof (rule that [OF c(1)])
      show "case plan of None \<Rightarrow> layers2 = layers1 \<and> ops = []
        | Some ops0 \<Rightarrow> optimise_plan layers1 (last_layers (d\<lparr>display_layers := layers1\<rparr>)) ops0 = Inr (layers2, ops)"
        using r(1) Some by simp
      obtain l where "l \<in> set layers1" "\<not> guac_rect_is_empty (layer_dirty l)" using o(6) by blast
      moreover from this obtain l' where "l' \<in> set layers2" "combine_kept l l'"
        using r(4) by (metis in_set_conv_nth list_all2_conv_all_nth)
      moreover from this have "layer_dirty l' = layer_dirty l" unfolding combine_kept_def by (metis plan_layer.select_convs(1) plan_layer.surjective plan_layer.update_convs(2))
      ultimately show "ops \<noteq> [] \<longrightarrow> (\<exists>l \<in> set layers2. \<not> guac_rect_is_empty (layer_dirty l))"
        by (intro impI bexI [of _ l']) simp_all
      show "list_all2 plan_kept ?ls layers2" by (rule list_all2_trans [OF plan_kept_combine c(2) r(4)])
      show "\<forall>l \<in> set ?ls. count_list (map op_layer ops) (layer_number l) \<le> length (layer_cells l)"
        unfolding ns using placed_count [OF o(5) o(4) wf(2)] by blast
      show "ops_bounded (may_copy d) (layer_bounds ?ls) (map op_layer ops) ops" using r(5) ns by simp
      show "\<forall>l \<in> set ?ls. changed l \<subseteq> drawn ops (layer_number l)" using o(1) r(3) by (auto simp: improves_def)
      show "\<forall>oper \<in> set ops. \<exists>l \<in> set ?ls. op_layer oper = layer_number l \<and> \<not> guac_rect_is_empty (layer_dirty l)"
      proof
        fix oper assume "oper \<in> set ops"
        then have "op_layer oper \<in> op_layer ` set ops0" using ns by (metis image_set imageI)
        then show "\<exists>l \<in> set ?ls. op_layer oper = layer_number l \<and> \<not> guac_rect_is_empty (layer_dirty l)"
          using o(4) unfolding op_placed_def by (metis (no_types, lifting) imageE)
      qed
    qed (rule r(2))
  qed
qed

lemma graphical_op_drawings: "filter graphical (op_drawings l oper) = op_drawings l oper"
  by (auto simp: op_drawings_def apply_copy_def apply_rect_def Let_def split: guac_display_plan_operation_type.splits)

lemma size_change_kept: "plan_kept l l' \<Longrightarrow> size_change l' = size_change l"
  by (simp add: size_change_def complete_size_def plan_kept_fields)

lemma map_list_all2: "list_all2 P xs ys \<Longrightarrow> (\<And>x y. P x y \<Longrightarrow> f y = f x) \<Longrightarrow> map f ys = map f xs"
  by (induction rule: list_all2_induct) auto

text \<open>What \<open>flush_frame\<close> promises, for the operations \<open>ops\<close> of the plan it has made.\<close>

definition frame_flushed ::
    "frame \<Rightarrow> guac_display \<Rightarrow> guac_display_plan_operation list \<Rightarrow> guac_display \<Rightarrow> flush \<Rightarrow> bool" where
  "frame_flushed L d ops d' f \<longleftrightarrow> display_inv d' \<and> list_all2 flushed (display_layers d) (display_layers d') \<and>
     display_removed d' = [] \<and> display_last_layers d' = map layer_number (display_layers d') \<and>
     (copies_fit L d \<longrightarrow> plan_sound (pending_frame (display_layers d)) L ops) \<and>
     ops_bounded (may_copy d) (layer_bounds (display_layers d)) (map op_layer ops) ops \<and>
     (\<forall>l \<in> set (display_layers d). changed l \<subseteq> drawn ops (layer_number l)) \<and>
     (\<forall>oper \<in> set ops. \<exists>l \<in> set (display_layers d). op_layer oper = layer_number l \<and> \<not> guac_rect_is_empty (layer_dirty l)) \<and>
     (\<forall>l \<in> set (display_layers d). count_list (map op_layer ops) (layer_number l) \<le> length (layer_cells l)) \<and>
     filter graphical (flush_sent f) = concat (map size_change (display_layers d)) @
       concat (map (\<lambda>oper. op_drawings (the (layer_of (display_layers d') (op_layer oper))) oper) ops) \<and>
     filter (\<lambda>oper. op_type oper \<noteq> GUAC_DISPLAY_PLAN_OPERATION_NOP) (flush_queued f) =
       filter (\<lambda>oper. op_type oper = GUAC_DISPLAY_PLAN_OPERATION_IMG) ops \<and>
     (ops \<noteq> [] \<longrightarrow> flush_queued f \<noteq> []) \<and>
     flush_disposed f = map Draw_dispose (filter (\<lambda>i. i \<noteq> 0) (map layer_layer (display_removed d)))"

lemma completed_display_inv:
  assumes inv: "display_inv d" and fl: "list_all2 flushed (display_layers d) layers"
    and u: "pool_ok (client_buffer_pool c) U" "set (concat (map layer_buffers (display_layers d))) \<subseteq> U"
    and v: "visible_layers (display_layers d) \<le> active (client_layer_pool c)"
    and d': "display_layers d' = layers" "display_removed d' = []" "display_client d' = c" "display_next d' = display_next d"
      "display_last_layers d' = map layer_number layers"
  shows "display_inv d'"
proof -
  have eq: "map layer_number layers = map layer_number (display_layers d)" "map layer_buffers layers = map layer_buffers (display_layers d)"
    "map layer_layer layers = map layer_layer (display_layers d)"
    using fl flushed_fields by (auto intro!: map_list_all2 [of flushed])
  have "list_all layer_inv layers" using fl flushed_fields(6) by (induction rule: list_all2_induct) auto
  moreover have "visible_layers layers = visible_layers (display_layers d)"
    using arg_cong [OF eq(3), of "\<lambda>xs. length (filter (\<lambda>i. i > 0) xs)"] by (simp add: filter_map comp_def)
  moreover have "\<forall>l \<in> set layers. layer_number l < display_next d"
  proof
    fix l assume "l \<in> set layers"
    then have "layer_number l \<in> layer_number ` set (display_layers d)" using eq(1) by (metis image_set imageI)
    then show "layer_number l < display_next d" using inv by (auto simp: display_inv_def)
  qed
  moreover have "distinct (map layer_number (display_layers d))" "distinct (concat (map layer_buffers (display_layers d)))"
    using inv by (auto simp: display_inv_def)
  moreover have "distinct (map layer_number layers)" "distinct (concat (map layer_buffers layers))"
    "set (concat (map layer_buffers layers)) \<subseteq> U" using calculation(4, 5) u(2) eq by simp_all
  ultimately show ?thesis using u(1) v unfolding display_inv_def d' by auto
qed

lemma flush_frame_spec:
  assumes inv: "display_inv d"
  obtains d' f ops where "flush_frame users now d = Some (
      if GUAC_DISPLAY_WORKER_FIFO_SIZE < length (filter (\<lambda>oper. op_type oper = GUAC_DISPLAY_PLAN_OPERATION_IMG) ops)
      then Inl Deadlock else Inr (d', f))" "frame_flushed L d ops d' f"
proof -
  let ?ls = "display_layers d"
  obtain layers1 plan layers2 ops where p: "PFW_LFR_guac_display_plan_create now ?ls = Some (Inr (layers1, plan))"
    "case plan of None \<Rightarrow> layers2 = layers1 \<and> ops = []
     | Some ops0 \<Rightarrow> optimise_plan layers1 (last_layers (d\<lparr>display_layers := layers1\<rparr>)) ops0 = Inr (layers2, ops)"
    "list_all2 plan_kept ?ls layers2" "copies_fit L d \<longrightarrow> plan_sound (pending_frame ?ls) L ops"
    "ops_bounded (may_copy d) (layer_bounds ?ls) (map op_layer ops) ops"
    "\<forall>l \<in> set ?ls. changed l \<subseteq> drawn ops (layer_number l)"
    "\<forall>oper \<in> set ops. \<exists>l \<in> set ?ls. op_layer oper = layer_number l \<and> \<not> guac_rect_is_empty (layer_dirty l)"
    "ops \<noteq> [] \<longrightarrow> (\<exists>l \<in> set layers2. \<not> guac_rect_is_empty (layer_dirty l))"
    "\<forall>l \<in> set ?ls. count_list (map op_layer ops) (layer_number l) \<le> length (layer_cells l)"
    by (rule plan_of_display [OF assms, of now L])
  define d2 where "d2 = (case plan of None \<Rightarrow> d | Some _ \<Rightarrow>
    d\<lparr>display_pending_frame := (display_pending_frame d)\<lparr>frame_timestamp := now\<rparr>\<rparr>)\<lparr>display_layers := layers2\<rparr>"
  have last1: "last_layers (d\<lparr>display_layers := layers1, display_pending_frame := st\<rparr>) = last_layers (d\<lparr>display_layers := layers1\<rparr>)" for st
    by (simp add: last_layers_def)
  have step: "optimise_display now plan (d\<lparr>display_layers := layers1\<rparr>) = Inr (d2, ops)"
    using p(2) last1 by (auto simp: optimise_display_def d2_def Let_def split: option.splits)
  have d2: "display_layers d2 = layers2" "display_removed d2 = display_removed d" "display_client d2 = display_client d" "display_next d2 = display_next d"
    by (simp_all add: d2_def split: option.splits)
  have "list_all settled_inv layers2"
  proof -
    have "settled_inv l'" if "l \<in> set ?ls" "plan_kept l l'" for l l'
      using that inv plan_kept_inv by (auto simp: display_inv_def list_all_iff)
    then show ?thesis using p(3) by (metis (no_types, lifting) list_all_length list_all2_conv_all_nth nth_mem)
  qed
  from complete_layers_spec [OF this] obtain layers3 sent nonempty where c: "complete_layers layers2 = Inr (layers3, sent, nonempty)"
    "list_all2 completed layers2 layers3" "filter graphical sent = concat (map size_change layers2)"
    "(\<exists>l \<in> set layers2. \<not> guac_rect_is_empty (layer_dirty l)) \<longrightarrow> nonempty" by blast
  have fl: "list_all2 flushed ?ls layers3"
    by (rule list_all2_trans [OF _ p(3) c(2)]) (auto simp: flushed_def)
  have eq: "map layer_number layers3 = map layer_number ?ls" by (rule map_list_all2 [OF fl]) (simp add: flushed_fields)
  have sizes: "map size_change layers2 = map size_change ?ls" by (rule map_list_all2 [OF p(3)]) (simp add: size_change_kept)
  obtain d3 completion where d3: "PFW_LFW_guac_display_frame_complete users d2 = Inr (d3, completion)"
    "display_layers d3 = layers3" "display_removed d3 = display_removed d" "display_client d3 = display_client d" "display_next d3 = display_next d"
    "display_last_layers d3 = map layer_number layers3" "completion_sent completion = sent" "completion_nonempty completion = nonempty"
  proof -
    have "map layer_number layers2 = map layer_number layers3"
      using eq pending_frame_kept(3) [OF p(3)] by simp
    moreover obtain old mouse where "complete_cursor users (display_pending_frame d2) ((display_last_frame d2)
        \<lparr>frame_timestamp := frame_timestamp (display_pending_frame d2), frame_frames := frame_frames (display_pending_frame d2),
         frame_cursor_hotspot_x := frame_cursor_hotspot_x (display_pending_frame d2),
         frame_cursor_hotspot_y := frame_cursor_hotspot_y (display_pending_frame d2)\<rparr>) = (old, mouse)" by fastforce
    ultimately show thesis using c(1) d2
      by (intro that [of "d2\<lparr>display_layers := layers3, display_last_layers := map layer_number layers3,
            display_last_frame := old, display_pending_frame := (display_pending_frame d2)\<lparr>frame_frames := 0\<rparr>,
            display_dirty_excluding_mouse := False\<rparr>"
          "\<lparr>completion_sent = sent, completion_mouse = mouse, completion_nonempty = nonempty\<rparr>"])
        (simp_all add: PFW_LFW_guac_display_frame_complete_def Let_def)
  qed
  have found: "layer_of layers3 (op_layer oper) \<noteq> None" if "oper \<in> set ops" for oper
  proof -
    note m = bspec [OF p(7) that]
    obtain l where "l \<in> set ?ls" "op_layer oper = layer_number l" using m by blast
    then have "op_layer oper \<in> layer_number ` set layers3" using eq by (metis image_set imageI)
    then show ?thesis by (auto simp: layer_of_def find_None_iff)
  qed
  let ?sent = "concat (map (\<lambda>oper. op_drawings (the (layer_of layers3 (op_layer oper))) oper) ops)"
  let ?img = "filter (\<lambda>oper. op_type oper = GUAC_DISPLAY_PLAN_OPERATION_IMG) ops"
  have a: "guac_display_plan_apply GUAC_DISPLAY_WORKER_FIFO_SIZE (display_layers d3) ops =
      (if GUAC_DISPLAY_WORKER_FIFO_SIZE < length ?img then Inl Deadlock else Inr (?sent, ?img))"
    using found by (simp add: d3(2) plan_apply_spec)
  obtain U where U: "pool_ok (client_buffer_pool (display_client d)) U" "set (concat (map layer_buffers (all_layers d))) \<subseteq> U"
    using inv unfolding display_inv_def by blast
  have U2: "distinct (concat (map layer_buffers (all_layers d)))" "visible_layers (all_layers d) \<le> active (client_layer_pool (display_client d))"
    using inv unfolding display_inv_def by blast+
  let ?disposed = "map Draw_dispose (filter (\<lambda>i. i \<noteq> 0) (map layer_layer (display_removed d)))"
  from free_removed_layers_ok [OF U U2] obtain c' U' where r:
    "guac_display_free_removed_layers (display_removed d) (display_client d) = Inr (c', ?disposed)"
    "pool_ok (client_buffer_pool c') U'" "set (concat (map layer_buffers ?ls)) \<subseteq> U'" "visible_layers ?ls \<le> active (client_layer_pool c')"
    by blast
  define d' where "d' = d3\<lparr>display_client := c', display_removed := []\<rparr>"
  define f where "f = \<lparr>flush_sent = sent @ ?sent, flush_mouse = completion_mouse completion,
    flush_queued = ?img @ (if nonempty then [end_frame_op] else []), flush_disposed = ?disposed\<rparr>"
  have "flush_frame users now d = Some (if GUAC_DISPLAY_WORKER_FIFO_SIZE < length ?img then Inl Deadlock else Inr (d', f))"
    using p(1) step a r(1) d3 by (simp add: flush_frame_def d'_def f_def)
  moreover have "frame_flushed L d ops d' f"
  proof -
    have "display_inv d'" by (rule completed_display_inv [OF inv fl r(2-4)]) (simp_all add: d'_def d3)
    moreover have "filter graphical ?sent = ?sent" by (simp add: filter_concat comp_def graphical_op_drawings)
    moreover have "ops \<noteq> [] \<longrightarrow> nonempty" using p(8) c(4) by blast
    ultimately show ?thesis using fl p(4-7, 9) c(3) sizes eq
      by (auto simp: frame_flushed_def d'_def d3 f_def end_frame_op_def intro!: filter_cong)
  qed
  ultimately show thesis by (rule that)
qed

text \<open>Flushing succeeds when the queue has room for the images, and for every display of a sensible size.\<close>

lemma fifo_size: "GUAC_DISPLAY_WORKER_FIFO_SIZE = 131072"
  by (simp add: GUAC_DISPLAY_WORKER_FIFO_SIZE_def GUAC_DISPLAY_MAX_WIDTH_def GUAC_DISPLAY_MAX_HEIGHT_def GUAC_DISPLAY_CELL_SIZE_def)

lemma flushed_count:
  assumes "display_inv d" "frame_flushed L d ops d' f"
  shows "length ops \<le> display_cells d"
  unfolding display_cells_def
proof (rule count_total)
  show "set (map op_layer ops) \<subseteq> set (map layer_number (display_layers d))"
    using assms(2) unfolding frame_flushed_def by fastforce
  show "distinct (map layer_number (display_layers d))" by (rule display_inv_distinct [OF assms(1)])
  show "\<forall>l \<in> set (display_layers d). count_list (map op_layer ops) (layer_number l) \<le> length (layer_cells l)"
    using assms(2) unfolding frame_flushed_def by blast
qed

lemma flush_frame_room:
  assumes "display_inv d" "display_cells d \<le> GUAC_DISPLAY_WORKER_FIFO_SIZE"
  obtains d' f ops where "flush_frame users now d = Some (Inr (d', f))" "frame_flushed L d ops d' f"
proof -
  obtain d' f ops where f: "flush_frame users now d = Some (
      if GUAC_DISPLAY_WORKER_FIFO_SIZE < length (filter (\<lambda>oper. op_type oper = GUAC_DISPLAY_PLAN_OPERATION_IMG) ops)
      then Inl Deadlock else Inr (d', f))" "frame_flushed L d ops d' f"
    by (rule flush_frame_spec [OF assms(1)])
  have "length (filter (\<lambda>oper. op_type oper = GUAC_DISPLAY_PLAN_OPERATION_IMG) ops) \<le> GUAC_DISPLAY_WORKER_FIFO_SIZE"
    using flushed_count [OF assms(1) f(2)] assms(2) length_filter_le [of "\<lambda>oper. op_type oper = GUAC_DISPLAY_PLAN_OPERATION_IMG" ops] by linarith
  then show thesis using f by (intro that) auto
qed

end
