(* ===== verification/DisplayWorker.thy ===== *)
theory DisplayWorker
  imports DisplayFlush
begin

text \<open>
  The worker threads of a display (\<open>libguac/display-worker.c\<close>) and what a client that follows their
  instructions shows. The threads take operations from the queue in any interleaving; the theorems
  show that every interleaving ends, and that a client then shows the new frame.
\<close>

section \<open>Encoding an image\<close>

definition GUAC_DISPLAY_JPEG_FRAMERATE :: int where "GUAC_DISPLAY_JPEG_FRAMERATE = 3"
definition GUAC_DISPLAY_JPEG_MIN_BITMAP_SIZE :: int where "GUAC_DISPLAY_JPEG_MIN_BITMAP_SIZE = 4096"

definition buffer_line :: "pixel list list \<Rightarrow> guac_rect \<Rightarrow> nat \<Rightarrow> pixel list" where
  "buffer_line rows r y = take (nat (rect_right r - rect_left r)) (drop (nat (rect_left r)) (rows ! y))"

text \<open>
  The surface refers to the buffer of the last frame; the alpha channel of an opaque layer is ignored.
\<close>

definition LFR_guac_display_layer_cairo_rect :: "guac_display_layer \<Rightarrow> guac_rect \<Rightarrow> pixel list list outcome" where
  "LFR_guac_display_layer_cairo_rect l r = (
    if \<not> in_rows r (rows_of (layer_last_frame l)) then Inl Undefined
    else Inr (map (\<lambda>y. map (visible l) (buffer_line (rows_of (layer_last_frame l)) r y)) [nat (rect_top r)..<nat (rect_bottom r)]))"

definition guac_display_layer_clear_non_opaque :: "guac_display_layer \<Rightarrow> guac_rect \<Rightarrow> drawing list" where
  "guac_display_layer_clear_non_opaque l r = (
    if \<not> layer_opaque l then [Draw_rect (layer_layer l) (rect_left r) (rect_top r) (guac_rect_width r) (guac_rect_height r),
      Draw_cfill GUAC_COMP_ROUT (layer_layer l) 0 0 0 0xFF] else [])"

definition guac_display_suggest_quality :: "int \<Rightarrow> int" where
  "guac_display_suggest_quality lag = (
    let quality = wrap32 (90 - wrap32 (lag - 20))
    in if quality > 90 then 90 else if quality < 30 then 30 else quality)"

text \<open>The pixels of a line that are equal to their predecessor, and those that are not.\<close>

fun count_changes :: "pixel \<Rightarrow> pixel list \<Rightarrow> int \<times> int \<Rightarrow> int \<times> int" where
  "count_changes last_pixel [] (num_same, num_different) = (num_same, num_different)"
| "count_changes last_pixel (p # row) (num_same, num_different) = (
    let current_pixel = p OR 0xFF000000
    in count_changes current_pixel row
      (if current_pixel = last_pixel then (num_same + 1, num_different) else (num_same, num_different + 1)))"

fun count_row :: "pixel list \<Rightarrow> int \<times> int \<Rightarrow> int \<times> int" where
  "count_row [] n = n"
| "count_row (p # row) n = count_changes (p OR 0xFF000000) row n"

definition LFR_guac_display_layer_png_optimality :: "guac_display_layer \<Rightarrow> guac_rect \<Rightarrow> int" where
  "LFR_guac_display_layer_png_optimality l r = (
    if rect_right r - rect_left r < 1 \<or> rect_bottom r - rect_top r < 1 then 0
    else case fold (\<lambda>y. count_row (buffer_line (rows_of (layer_last_frame l)) r y)) [nat (rect_top r)..<nat (rect_bottom r)] (0, 1) of
      (num_same, num_different) \<Rightarrow> wrap32 (wrap32 (0x100 * num_same) sdiv num_different - 0x400))"

definition LFR_guac_display_layer_should_use_jpeg :: "guac_display_layer \<Rightarrow> guac_rect \<Rightarrow> int \<Rightarrow> bool" where
  "LFR_guac_display_layer_should_use_jpeg l r framerate = (
    if state_lossless (layer_last_frame l) then False
    else let rect_size = wrap32 ((rect_right r - rect_left r) * (rect_bottom r - rect_top r))
      in framerate \<ge> GUAC_DISPLAY_JPEG_FRAMERATE \<and> rect_size > GUAC_DISPLAY_JPEG_MIN_BITMAP_SIZE \<and>
         LFR_guac_display_layer_png_optimality l r < 0)"

definition LFR_guac_display_layer_should_use_webp :: "bool \<Rightarrow> guac_display_layer \<Rightarrow> guac_rect \<Rightarrow> int \<Rightarrow> bool" where
  "LFR_guac_display_layer_should_use_webp supports_webp l r framerate = (
    if \<not> supports_webp then False
    else framerate \<ge> GUAC_DISPLAY_JPEG_FRAMERATE \<and> LFR_guac_display_layer_png_optimality l r < 0)"

text \<open>What the threads ask of the client: whether all users support WebP, and the processing lag.\<close>

record encoder =
  encoder_webp :: bool
  encoder_lag :: int

definition op_framerate :: "guac_display_plan_operation \<Rightarrow> int" where
  "op_framerate oper = (if op_current_frame oper > op_last_frame oper
     then wrap32 (1000 sdiv (op_current_frame oper - op_last_frame oper)) else INT_MAX)"

definition choose_format :: "encoder \<Rightarrow> guac_display_layer \<Rightarrow> guac_rect \<Rightarrow> int \<Rightarrow> image_format" where
  "choose_format e l dirty framerate = (
    if LFR_guac_display_layer_should_use_webp (encoder_webp e) l dirty framerate
    then Image_WebP (guac_display_suggest_quality (encoder_lag e)) (state_lossless (layer_last_frame l))
    else if layer_opaque l \<and> LFR_guac_display_layer_should_use_jpeg l dirty framerate
    then Image_JPEG (guac_display_suggest_quality (encoder_lag e))
    else Image_PNG)"

text \<open>
  One operation taken from the queue: the groups of instructions that a thread sends for it. Each
  group is sent without interruption; other threads may send between two groups.
\<close>

definition worker_op :: "encoder \<Rightarrow> guac_display_layer list \<Rightarrow> guac_display_plan_operation \<Rightarrow> drawing list list outcome" where
  "worker_op e layers oper = (
    case op_type oper of
      GUAC_DISPLAY_PLAN_OPERATION_IMG \<Rightarrow>
        (case layer_of layers (op_layer oper) of
          None \<Rightarrow> Inl Undefined
        | Some l \<Rightarrow>
            (case LFR_guac_display_layer_cairo_rect l (op_dest oper) of
              Inl err \<Rightarrow> Inl err
            | Inr rows \<Rightarrow> Inr ((if layer_opaque l then [] else [guac_display_layer_clear_non_opaque l (op_dest oper)]) @
                [[Draw_image (choose_format e l (op_dest oper) (op_framerate oper)) GUAC_COMP_OVER (layer_layer l)
                   (rect_left (op_dest oper)) (rect_top (op_dest oper)) rows]])))
    | _ \<Rightarrow> Inr [])"

section \<open>The end of a frame\<close>

definition commit_layer :: "guac_display_layer \<Rightarrow> drawing list" where
  "commit_layer l = (
    let dirty = layer_last_dirty l; buffer = - int (layer_last_frame_buffer l) - 1;
        x = rect_left dirty; y = rect_top dirty; width = guac_rect_width dirty; height = guac_rect_height dirty
    in if guac_rect_is_empty dirty then []
    else (if \<not> layer_opaque l then [Draw_rect buffer x y width height, Draw_cfill GUAC_COMP_RATOP buffer 0 0 0 0] else []) @
      [Draw_copy (layer_layer l) x y width height GUAC_COMP_OVER buffer x y])"

definition end_of_frame :: "int \<Rightarrow> guac_display \<Rightarrow> drawing list" where
  "end_of_frame now d =
    (case layer_of (all_layers d) (display_cursor_buffer d) of
      None \<Rightarrow> []
    | Some cursor \<Rightarrow> if guac_rect_is_empty (layer_last_dirty cursor) then []
        else [Draw_cursor (frame_cursor_hotspot_x (display_last_frame d)) (frame_cursor_hotspot_y (display_last_frame d))
          (layer_layer cursor) 0 0 (state_width (layer_last_frame cursor)) (state_height (layer_last_frame cursor))]) @
    [Draw_sync now (frame_frames (display_last_frame d))] @
    concat (map commit_layer (last_layers d))"

section \<open>The threads\<close>

text \<open>
  The queue, what the flushing thread still has to put there, the remaining groups of each active
  thread, the instructions sent, the number of frame ends among them, and the state that the threads
  show to others (\<open>GUAC_DISPLAY_RENDER_STATE_FRAME_IN_PROGRESS\<close>).
\<close>

record worker_state =
  ws_queue :: "guac_display_plan_operation list"
  ws_waiting :: "guac_display_plan_operation list"
  ws_active :: "drawing list list list"
  ws_sent :: "drawing list"
  ws_ended :: nat
  ws_in_progress :: bool

text \<open>
  The steps of \<open>guac_display_worker_thread\<close> for \<open>n\<close> threads. The thread that finds the queue empty
  and no other thread active ends the frame. (If a frame has been deferred meanwhile, this thread then
  calls \<open>guac_display_end_multiple_frames\<close> again, which starts the next run.) Putting an operation into
  the queue waits while the queue is full.
\<close>

inductive worker_step :: "nat \<Rightarrow> (guac_display_plan_operation \<Rightarrow> drawing list list outcome) \<Rightarrow> drawing list \<Rightarrow>
    worker_state \<Rightarrow> worker_state \<Rightarrow> bool" for n process frame_end where
  enqueue: "ws_waiting s = oper # ops \<Longrightarrow> length (ws_queue s) < GUAC_DISPLAY_WORKER_FIFO_SIZE \<Longrightarrow>
    worker_step n process frame_end s (s\<lparr>ws_waiting := ops, ws_queue := ws_queue s @ [oper]\<rparr>)"
| dequeue: "ws_queue s = oper # ops \<Longrightarrow> length (ws_active s) < n \<Longrightarrow> process oper = Inr groups \<Longrightarrow>
    worker_step n process frame_end s (s\<lparr>ws_queue := ops, ws_active := groups # ws_active s, ws_in_progress := True\<rparr>)"
| send: "ws_active s = xs @ (g # groups) # ys \<Longrightarrow>
    worker_step n process frame_end s (s\<lparr>ws_active := xs @ groups # ys, ws_sent := ws_sent s @ g\<rparr>)"
| finish: "ws_active s = xs @ [] # ys \<Longrightarrow> ws_queue s \<noteq> [] \<or> xs @ ys \<noteq> [] \<Longrightarrow>
    worker_step n process frame_end s (s\<lparr>ws_active := xs @ ys\<rparr>)"
| end_frame: "ws_active s = [[]] \<Longrightarrow> ws_queue s = [] \<Longrightarrow>
    worker_step n process frame_end s (s\<lparr>ws_active := [], ws_sent := ws_sent s @ frame_end, ws_ended := ws_ended s + 1,
      ws_in_progress := False\<rparr>)"

inductive_cases worker_stepE: "worker_step n process frame_end s t"

definition idle :: "worker_state \<Rightarrow> bool" where
  "idle s \<longleftrightarrow> ws_queue s = [] \<and> ws_waiting s = [] \<and> ws_active s = []"

text \<open>
  The images of a plan are in the queue when its lock is released; the operation that marks the end of the
  frame is put there afterwards.
\<close>

definition worker_start :: "guac_display_plan_operation list \<Rightarrow> worker_state" where
  "worker_start queued = \<lparr>ws_queue = filter (\<lambda>oper. op_type oper \<noteq> GUAC_DISPLAY_PLAN_OPERATION_NOP) queued,
     ws_waiting = filter (\<lambda>oper. op_type oper = GUAC_DISPLAY_PLAN_OPERATION_NOP) queued,
     ws_active = [], ws_sent = [], ws_ended = 0, ws_in_progress = False\<rparr>"

section \<open>Every interleaving ends: specification\<close>

definition groups_of :: "(guac_display_plan_operation \<Rightarrow> drawing list list outcome) \<Rightarrow> guac_display_plan_operation \<Rightarrow> drawing list list" where
  "groups_of process oper = (case process oper of Inl e \<Rightarrow> [] | Inr groups \<Rightarrow> groups)"

abbreviation all_groups where
  "all_groups process ops \<equiv> concat (map (groups_of process) ops)"

text \<open>What remains to be done: a measure that every step decreases.\<close>

definition work :: "(guac_display_plan_operation \<Rightarrow> drawing list list outcome) \<Rightarrow> worker_state \<Rightarrow> nat" where
  "work process s = sum_list (map (\<lambda>oper. length (groups_of process oper) + 2) (ws_queue s)) +
     sum_list (map (\<lambda>oper. length (groups_of process oper) + 3) (ws_waiting s)) +
     sum_list (map (\<lambda>groups. length groups + 1) (ws_active s))"

lemma worker_step_work: "worker_step n process frame_end s t \<Longrightarrow> work process t < work process s"
  by (induction rule: worker_step.induct) (auto simp: work_def groups_of_def)

lemma worker_progress:
  assumes "\<not> idle s" "0 < n" "\<forall>oper \<in> set (ws_queue s). \<exists>groups. process oper = Inr groups"
  shows "\<exists>t. worker_step n process frame_end s t"
proof (cases "ws_waiting s \<noteq> [] \<and> length (ws_queue s) < GUAC_DISPLAY_WORKER_FIFO_SIZE")
  case True
  then show ?thesis by (cases "ws_waiting s") (auto intro: worker_step.enqueue)
next
  case False
  then have waiting: "ws_waiting s = [] \<or> ws_queue s \<noteq> []" by (auto simp: fifo_size)
  show ?thesis
  proof (cases "ws_active s")
    case Nil
    then obtain oper ops where q: "ws_queue s = oper # ops" using assms(1) waiting by (cases "ws_queue s") (auto simp: idle_def)
    then obtain groups where "process oper = Inr groups" using assms(3) by auto
    then show ?thesis using q Nil assms(2) worker_step.dequeue [OF q, of n process groups frame_end] by auto
  next
    case (Cons groups rest)
    show ?thesis
    proof (cases groups)
      case g: (Cons g gs)
      have "ws_active s = [] @ (g # gs) # rest" using Cons g by simp
      then show ?thesis by (blast intro: worker_step.send)
    next
      case Nil
      then have a: "ws_active s = [] @ [] # rest" using Cons by simp
      show ?thesis
      proof (cases "ws_queue s \<noteq> [] \<or> rest \<noteq> []")
        case True
        then show ?thesis using worker_step.finish [OF a, of n process frame_end] by auto
      next
        case False
        then show ?thesis using a worker_step.end_frame [of s n process frame_end] by auto
      qed
    qed
  qed
qed

text \<open>
  Interleavings of lists: each list keeps its order.
\<close>

inductive merges :: "'a list multiset \<Rightarrow> 'a list \<Rightarrow> bool" where
  merges_Nil: "merges {#} []"
| merges_empty: "merges M zs \<Longrightarrow> merges (add_mset [] M) zs"
| merges_Cons: "merges (add_mset xs M) zs \<Longrightarrow> merges (add_mset (x # xs) M) (x # zs)"

lemma merges_set: "merges M zs \<Longrightarrow> set zs = (\<Union>xs \<in> set_mset M. set xs)"
  by (induction rule: merges.induct) auto

text \<open>
  What holds in every state: apart from the frame ends, an interleaving of the groups of the operations
  that have been queued is sent, a frame end comes only after all of them, and threads are active only
  while a frame is in progress.
\<close>

abbreviation groups_left where
  "groups_left process s \<equiv> mset (ws_active s) + mset (map (groups_of process) (ws_queue s)) + mset (map (groups_of process) (ws_waiting s))"

definition worker_inv ::
    "(guac_display_plan_operation \<Rightarrow> drawing list list outcome) \<Rightarrow> drawing list \<Rightarrow> drawing list list multiset \<Rightarrow> worker_state \<Rightarrow> bool" where
  "worker_inv process frame_end M s \<longleftrightarrow>
     (\<exists>gs. ws_sent s = concat gs @ concat (replicate (ws_ended s) frame_end) \<and>
        (\<forall>zs. merges (groups_left process s) zs \<longrightarrow> merges M (gs @ zs)) \<and>
        (0 < ws_ended s \<longrightarrow> concat (ws_active s) = [] \<and> all_groups process (ws_queue s) = [])) \<and>
     all_groups process (ws_waiting s) = [] \<and> (ws_in_progress s \<longrightarrow> ws_queue s \<noteq> [] \<or> ws_active s \<noteq> [])"

lemma worker_step_inv:
  assumes "worker_step n process frame_end s t" "worker_inv process frame_end M s"
  shows "worker_inv process frame_end M t"
proof -
  obtain gs where gs: "ws_sent s = concat gs @ concat (replicate (ws_ended s) frame_end)"
    "\<forall>zs. merges (groups_left process s) zs \<longrightarrow> merges M (gs @ zs)"
    "0 < ws_ended s \<longrightarrow> concat (ws_active s) = [] \<and> all_groups process (ws_queue s) = []"
    "all_groups process (ws_waiting s) = []" "ws_in_progress s \<longrightarrow> ws_queue s \<noteq> [] \<or> ws_active s \<noteq> []"
    using assms(2) by (auto simp: worker_inv_def)
  show ?thesis using assms(1)
  proof (cases rule: worker_step.cases)
    case (enqueue oper ops)
    then show ?thesis using gs by (auto simp: worker_inv_def intro!: exI [of _ gs])
  next
    case (dequeue oper ops groups)
    then show ?thesis using gs by (auto simp: worker_inv_def groups_of_def intro!: exI [of _ gs])
  next
    case (send xs g groups ys)
    then have "ws_ended s = 0" using gs(3) by (cases "ws_ended s") auto
    moreover have "merges M (gs @ [g] @ zs)" if "merges (groups_left process t) zs" for zs
      using gs(2) send that by (simp add: merges_Cons)
    ultimately show ?thesis using gs send by (auto simp: worker_inv_def intro!: exI [of _ "gs @ [g]"])
  next
    case (finish xs ys)
    moreover from this have "merges M (gs @ zs)" if "merges (groups_left process t) zs" for zs
      using gs(2) that by (simp add: merges_empty)
    ultimately show ?thesis using gs by (auto simp: worker_inv_def intro!: exI [of _ gs])
  next
    case end_frame
    moreover from this have "merges M (gs @ zs)" if "merges (groups_left process t) zs" for zs
      using gs(2) that by (simp add: merges_empty)
    ultimately show ?thesis using gs by (auto simp: worker_inv_def replicate_append_same [symmetric] intro!: exI [of _ gs])
  qed
qed

definition worker_live :: "worker_state \<Rightarrow> bool" where
  "worker_live s \<longleftrightarrow> 0 < ws_ended s \<or> \<not> idle s"

lemma worker_step_live: "worker_step n process frame_end s t \<Longrightarrow> worker_live s \<Longrightarrow> worker_live t"
  by (induction rule: worker_step.induct) (auto simp: worker_live_def idle_def)

lemma worker_run:
  assumes run: "(worker_step n process frame_end)\<^sup>*\<^sup>* (worker_start queued) s" and idle: "idle s" and "queued \<noteq> []"
    and nop: "\<And>oper. op_type oper = GUAC_DISPLAY_PLAN_OPERATION_NOP \<Longrightarrow> groups_of process oper = []"
  obtains gs where "ws_sent s = concat gs @ concat (replicate (ws_ended s) frame_end)" "0 < ws_ended s"
    "merges (mset (map (groups_of process) queued)) gs" "\<not> ws_in_progress s"
proof -
  let ?M = "mset (map (groups_of process) queued)"
  have "groups_left process (worker_start queued) = ?M"
    using multiset_partition [of "mset queued" "\<lambda>oper. op_type oper = GUAC_DISPLAY_PLAN_OPERATION_NOP"]
    by (simp add: worker_start_def image_mset_union [symmetric] union_commute del: image_mset_union)
  then have start: "worker_inv process frame_end ?M (worker_start queued)"
    using nop by (auto simp: worker_inv_def worker_start_def intro!: exI [of _ "[]"])
  have live: "worker_live (worker_start queued)"
    using assms(3) by (auto simp: worker_live_def idle_def worker_start_def filter_empty_conv neq_Nil_conv)
  from run have "worker_inv process frame_end ?M s \<and> worker_live s"
    by (induction rule: rtranclp_induct) (use start live in \<open>auto intro: worker_step_inv worker_step_live\<close>)
  then obtain gs where "ws_sent s = concat gs @ concat (replicate (ws_ended s) frame_end)"
    "\<forall>zs. merges {#} zs \<longrightarrow> merges ?M (gs @ zs)" "0 < ws_ended s" "\<not> ws_in_progress s"
    using idle by (auto simp: worker_inv_def worker_live_def idle_def)
  moreover from this(2) have "merges ?M gs" using merges_Nil by fastforce
  ultimately show thesis using that by blast
qed

section \<open>What a client shows\<close>

text \<open>
  The pixels of the layers and buffers of a client, the path that has been drawn and not yet been
  filled, and the path that was filled last: it is filled again by a further instruction to fill and
  discarded when a new path begins. How two pixels are composited is a parameter \<open>blend\<close>, by the mode; a
  stream of image data is taken to deliver the pixels that were encoded.
\<close>

record view =
  view_pixel :: "int \<Rightarrow> int \<times> int \<Rightarrow> pixel"
  view_path :: "int \<Rightarrow> (int \<times> int) set"
  view_closed :: "int \<Rightarrow> (int \<times> int) set"

definition argb :: "int \<Rightarrow> int \<Rightarrow> int \<Rightarrow> int \<Rightarrow> pixel" where
  "argb a r g b = push_bit 24 (of_int a) OR push_bit 16 (of_int r) OR push_bit 8 (of_int g) OR of_int b"

definition paint :: "int \<Rightarrow> (int \<times> int) set \<Rightarrow> (int \<times> int \<Rightarrow> pixel) \<Rightarrow> view \<Rightarrow> view" where
  "paint l area f v = v\<lparr>view_pixel := (view_pixel v)(l := \<lambda>p. if p \<in> area then f p else view_pixel v l p)\<rparr>"

fun show_drawing :: "(int \<Rightarrow> pixel \<Rightarrow> pixel \<Rightarrow> pixel) \<Rightarrow> drawing \<Rightarrow> view \<Rightarrow> view" where
  "show_drawing blend (Draw_size l w h) v = paint l (- box 0 0 w h) (\<lambda>_. 0) v"
| "show_drawing blend (Draw_dispose l) v = paint l UNIV (\<lambda>_. 0) v"
| "show_drawing blend (Draw_copy s x y w h mode d dx dy) v = paint d (box dx dy (dx + w) (dy + h))
     (\<lambda>(px, py). blend mode (view_pixel v s (px - dx + x, py - dy + y)) (view_pixel v d (px, py))) v"
| "show_drawing blend (Draw_rect l x y w h) v =
     v\<lparr>view_path := (view_path v)(l := view_path v l \<union> box x y (x + w) (y + h)), view_closed := (view_closed v)(l := {})\<rparr>"
| "show_drawing blend (Draw_cfill mode l r g b a) v = (paint l (view_path v l \<union> view_closed v l)
     (\<lambda>p. blend mode (argb a r g b) (view_pixel v l p)) v)
     \<lparr>view_path := (view_path v)(l := {}), view_closed := (view_closed v)(l := view_path v l \<union> view_closed v l)\<rparr>"
| "show_drawing blend (Draw_image f mode l x y rows) v = paint l
     {(px, py). x \<le> px \<and> y \<le> py \<and> nat (py - y) < length rows \<and> nat (px - x) < length (rows ! nat (py - y))}
     (\<lambda>(px, py). blend mode (rows ! nat (py - y) ! nat (px - x)) (view_pixel v l (px, py))) v"
| "show_drawing blend (Draw_shade l a) v = v"
| "show_drawing blend (Draw_move l p x y z) v = v"
| "show_drawing blend (Draw_set_int l nm val) v = v"
| "show_drawing blend (Draw_cursor x y s sx sy w h) v = v"
| "show_drawing blend (Draw_mouse x y m t) v = v"
| "show_drawing blend (Draw_sync t frames) v = v"

definition show_drawings :: "(int \<Rightarrow> pixel \<Rightarrow> pixel \<Rightarrow> pixel) \<Rightarrow> drawing list \<Rightarrow> view \<Rightarrow> view" where
  "show_drawings blend ds v = fold (show_drawing blend) ds v"

lemma show_drawings_append [simp]: "show_drawings blend (xs @ ys) v = show_drawings blend ys (show_drawings blend xs v)"
  by (simp add: show_drawings_def)

lemma show_drawings_simps [simp]:
  "show_drawings blend [] v = v" "show_drawings blend (x # xs) v = show_drawings blend xs (show_drawing blend x v)"
  by (simp_all add: show_drawings_def)

lemma show_graphical: "show_drawings blend (filter graphical ds) v = show_drawings blend ds v"
proof (induction ds arbitrary: v)
  case (Cons d ds)
  have "\<not> graphical d \<Longrightarrow> show_drawing blend d v = v" for v by (cases d) simp_all
  with Cons show ?case by simp
qed simp

text \<open>
  What the modes that a display uses do (\<open>guacamole/protocol-types.h\<close>): drawing normally replaces what
  is under an opaque pixel and draws as it is on nothing; the other two clear where the source
  is opaque and where it is transparent.
\<close>

definition opaque_pixel :: "pixel \<Rightarrow> bool" where
  "opaque_pixel p \<longleftrightarrow> p OR 0xFF000000 = p"

definition compositing :: "(int \<Rightarrow> pixel \<Rightarrow> pixel \<Rightarrow> pixel) \<Rightarrow> bool" where
  "compositing blend \<longleftrightarrow> (\<forall>s d. opaque_pixel s \<longrightarrow> blend GUAC_COMP_OVER s d = s) \<and> (\<forall>s. blend GUAC_COMP_OVER s 0 = s) \<and>
     (\<forall>d. blend GUAC_COMP_OVER 0 d = d) \<and>
     (\<forall>s d. opaque_pixel s \<longrightarrow> blend GUAC_COMP_ROUT s d = 0) \<and> (\<forall>d. blend GUAC_COMP_RATOP 0 d = 0)"

lemma visible_opaque: "layer_opaque l \<Longrightarrow> opaque_pixel (visible l p)"
  by (simp add: opaque_pixel_def visible_def or.assoc)

lemma bit_masks:
  "bit (0xFF000000 :: pixel) k \<longleftrightarrow> 24 \<le> k \<and> k < 32" "bit (0x00FF0000 :: pixel) k \<longleftrightarrow> 16 \<le> k \<and> k < 24"
  "bit (0x0000FF00 :: pixel) k \<longleftrightarrow> 8 \<le> k \<and> k < 16" "bit (0x000000FF :: pixel) k \<longleftrightarrow> k < 8"
proof -
  have m: "(0x00FF0000 :: pixel) = push_bit 16 (mask 8)" "(0x0000FF00 :: pixel) = push_bit 8 (mask 8)" "(0x000000FF :: pixel) = mask 8"
    "(0xFF000000 :: pixel) = push_bit 24 (mask 8)"
    by (simp_all add: mask_eq_exp_minus_1 push_bit_eq_mult)
  show "bit (0xFF000000 :: pixel) k \<longleftrightarrow> 24 \<le> k \<and> k < 32" "bit (0x00FF0000 :: pixel) k \<longleftrightarrow> 16 \<le> k \<and> k < 24"
    "bit (0x0000FF00 :: pixel) k \<longleftrightarrow> 8 \<le> k \<and> k < 16" "bit (0x000000FF :: pixel) k \<longleftrightarrow> k < 8"
    unfolding m by (auto simp only: bit_push_bit_iff bit_mask_iff possible_bit_word) auto
qed

lemma argb_color:
  assumes "opaque_pixel c"
  shows "argb 0xFF (uint (drop_bit 16 (c AND 0x00FF0000))) (uint (drop_bit 8 (c AND 0x0000FF00))) (uint (c AND 0x000000FF)) = c"
proof (rule bit_word_eqI)
  fix k assume k: "k < LENGTH(32)"
  have "bit (c OR 0xFF000000) k = bit c k" using assms by (simp add: opaque_pixel_def)
  then have high: "24 \<le> k \<Longrightarrow> bit c k" using k unfolding bit_or_iff bit_masks by simp
  have shift: "bit (push_bit j (drop_bit j w)) k \<longleftrightarrow> j \<le> k \<and> bit w k" for j and w :: pixel
    using k by (auto simp: bit_push_bit_iff bit_drop_bit_eq)
  have ff: "bit (push_bit 24 (of_int 0xFF :: pixel)) k \<longleftrightarrow> 24 \<le> k" 
    using k unfolding bit_push_bit_iff of_int_numeral bit_masks by auto
  show "bit (argb 0xFF (uint (drop_bit 16 (c AND 0x00FF0000))) (uint (drop_bit 8 (c AND 0x0000FF00))) (uint (c AND 0x000000FF))) k = bit c k"
    unfolding argb_def bit_or_iff ff word_of_int_uint shift bit_and_iff bit_masks using k high by auto
qed

lemma argb_all:
  "argb (uint (drop_bit 24 (c AND 0xFF000000))) (uint (drop_bit 16 (c AND 0x00FF0000))) (uint (drop_bit 8 (c AND 0x0000FF00)))
    (uint (c AND 0x000000FF)) = c"
proof (rule bit_word_eqI)
  fix k assume k: "k < LENGTH(32)"
  have shift: "bit (push_bit j (drop_bit j w)) k \<longleftrightarrow> j \<le> k \<and> bit w k" for j and w :: pixel
    using k by (auto simp: bit_push_bit_iff bit_drop_bit_eq)
  show "bit (argb (uint (drop_bit 24 (c AND 0xFF000000))) (uint (drop_bit 16 (c AND 0x00FF0000))) (uint (drop_bit 8 (c AND 0x0000FF00)))
    (uint (c AND 0x000000FF))) k = bit c k"
    unfolding argb_def bit_or_iff word_of_int_uint shift bit_and_iff bit_masks using k by auto
qed

lemma argb_black: "opaque_pixel (argb 0xFF 0 0 0)" "argb 0 0 0 0 = 0"
  by (simp_all add: opaque_pixel_def argb_def)

section \<open>Painting: specification\<close>

text \<open>
  \<open>draws C T A ds\<close>: in every view that satisfies \<open>C\<close>, the instructions \<open>ds\<close> make the pixels of \<open>A\<close> those
  of the target \<open>T\<close> and leave all others.
\<close>

definition painted :: "(int \<Rightarrow> int \<times> int \<Rightarrow> pixel) \<Rightarrow> (int \<times> int \<times> int) set \<Rightarrow> view \<Rightarrow> view \<Rightarrow> bool" where
  "painted T A v v' \<longleftrightarrow> view_path v' = view_path v \<and>
     (\<forall>j p. view_pixel v' j p = (if (j, p) \<in> A then T j p else view_pixel v j p))"

definition draws :: "(int \<Rightarrow> pixel \<Rightarrow> pixel \<Rightarrow> pixel) \<Rightarrow> (view \<Rightarrow> bool) \<Rightarrow> (int \<Rightarrow> int \<times> int \<Rightarrow> pixel) \<Rightarrow>
    (int \<times> int \<times> int) set \<Rightarrow> drawing list \<Rightarrow> bool" where
  "draws blend C T A ds \<longleftrightarrow> (\<forall>v. C v \<longrightarrow> painted T A v (show_drawings blend ds v))"

lemma draws_concat:
  assumes "\<forall>(A, ds) \<in> set xs. draws blend C T A ds" "\<And>v v' A. C v \<Longrightarrow> A \<subseteq> \<Union> (fst ` set xs) \<Longrightarrow> painted T A v v' \<Longrightarrow> C v'"
  shows "draws blend C T (\<Union> (fst ` set xs)) (concat (map snd xs))"
  using assms
proof (induction xs)
  case (Cons x xs)
  obtain A ds where x: "x = (A, ds)" by fastforce
  have keep: "C v'" if "C v" "A' \<subseteq> \<Union> (fst ` set xs)" "painted T A' v v'" for v v' A'
    by (rule Cons.prems(2) [OF that(1) _ that(3)]) (use that(2) in auto)
  have IH: "draws blend C T (\<Union> (fst ` set xs)) (concat (map snd xs))"
    by (rule Cons.IH) (use Cons.prems(1) keep in auto)
  show ?case unfolding draws_def
  proof (intro allI impI)
    fix v assume v: "C v"
    let ?v = "show_drawings blend ds v"
    have p: "painted T A v ?v" using Cons.prems(1) v by (auto simp: draws_def x)
    have "C ?v" by (rule Cons.prems(2) [OF v _ p]) (auto simp: x)
    then have "painted T (\<Union> (fst ` set xs)) ?v (show_drawings blend (concat (map snd xs)) ?v)" using IH by (simp add: draws_def)
    then show "painted T (\<Union> (fst ` set (x # xs))) v (show_drawings blend (concat (map snd (x # xs))) v)"
      using p by (auto simp: painted_def x)
  qed
qed (simp add: draws_def painted_def)

lemma painted_trans:
  assumes "painted T A v v1" "painted T B v1 v2"
  shows "painted T (A \<union> B) v v2"
  using assms by (auto simp: painted_def)

lemma painted_again:
  assumes "painted F A v v1" "painted T B v1 v2" "A \<subseteq> B"
  shows "painted T B v v2"
  using assms by (auto simp: painted_def)

text \<open>Painting what is already there.\<close>

lemma paint_target:
  assumes "\<forall>p \<in> area. f p = T i p"
  shows "painted T ({i} \<times> area) v (paint i area f v)"
  using assms by (auto simp: painted_def paint_def)

text \<open>
  The views in which a plan is drawn: nothing is left of a path, and the buffers \<open>bufs\<close> hold the last
  frame \<open>L\<close>.
\<close>

definition view_ready :: "nat set \<Rightarrow> frame \<Rightarrow> view \<Rightarrow> bool" where
  "view_ready bufs L v \<longleftrightarrow> (\<forall>i. view_path v i = {}) \<and> (\<forall>n \<in> bufs. \<forall>p. view_pixel v (- int n - 1) p = L n p)"

definition op_area :: "guac_display_layer \<Rightarrow> guac_display_plan_operation \<Rightarrow> (int \<times> int \<times> int) set" where
  "op_area l oper = {layer_layer l} \<times> rect_area (op_dest oper)"

lemma dest_area:
  assumes "on_screen r"
  shows "box (rect_left r) (rect_top r) (rect_left r + guac_rect_width r) (rect_top r + guac_rect_height r) = rect_area r"
  using assms by (simp add: on_screen_size rect_area_def)

lemma copy_draws:
  assumes b: "compositing blend" and oper: "op_type oper = GUAC_DISPLAY_PLAN_OPERATION_COPY" "op_wf oper" "op_correct P L oper"
    and T: "\<forall>p \<in> rect_area (op_dest oper). T (layer_layer l) p = P (op_layer oper) p \<and> opaque_pixel (P (op_layer oper) p)"
    and src: "op_src_layer oper \<in> bufs"
  shows "draws blend (view_ready bufs L) T (op_area l oper) (op_drawings l oper)"
  unfolding draws_def
proof (intro allI impI)
  fix v assume v: "view_ready bufs L v"
  let ?d = "op_dest oper" and ?s = "op_src_rect oper"
  have w: "on_screen ?d" "on_screen ?s" "rect_right ?s - rect_left ?s = rect_right ?d - rect_left ?d"
    "rect_bottom ?s - rect_top ?s = rect_bottom ?d - rect_top ?d"
    using oper(1, 2) by (simp_all add: op_wf_def)
  have area: "box (rect_left ?d) (rect_top ?d) (rect_left ?d + guac_rect_width ?s) (rect_top ?d + guac_rect_height ?s) = rect_area ?d"
    using w dest_area [OF w(1)] by (simp add: on_screen_size)
  have "show_drawings blend (op_drawings l oper) v = paint (layer_layer l) (rect_area ?d)
     (\<lambda>(px, py). blend GUAC_COMP_OVER (view_pixel v (- int (op_src_layer oper) - 1)
        (px - rect_left ?d + rect_left ?s, py - rect_top ?d + rect_top ?s)) (view_pixel v (layer_layer l) (px, py))) v"
    using oper(1) by (simp add: op_drawings_def apply_copy_def area)
  moreover have "blend GUAC_COMP_OVER (view_pixel v (- int (op_src_layer oper) - 1)
        (px - rect_left ?d + rect_left ?s, py - rect_top ?d + rect_top ?s)) (view_pixel v (layer_layer l) (px, py)) =
      T (layer_layer l) (px, py)" if p: "(px, py) \<in> rect_area ?d" for px py
  proof -
    have "view_pixel v (- int (op_src_layer oper) - 1) (px - rect_left ?d + rect_left ?s, py - rect_top ?d + rect_top ?s) =
        P (op_layer oper) (px, py)"
      using v src oper(1, 3) p by (fastforce simp: view_ready_def op_correct_def algebra_simps)
    then show ?thesis using b T p by (simp add: compositing_def)
  qed
  ultimately show "painted T (op_area l oper) v (show_drawings blend (op_drawings l oper) v)"
    unfolding op_area_def by (auto intro!: paint_target)
qed

lemma rect_draws:
  assumes b: "compositing blend" and oper: "op_type oper = GUAC_DISPLAY_PLAN_OPERATION_RECT" "op_wf oper" "op_correct P L oper"
    and T: "\<forall>p \<in> rect_area (op_dest oper). T (layer_layer l) p = P (op_layer oper) p"
    and l: "layer_opaque l \<Longrightarrow> \<forall>p \<in> rect_area (op_dest oper). opaque_pixel (P (op_layer oper) p)"
  shows "draws blend (view_ready bufs L) T (op_area l oper) (op_drawings l oper)"
  unfolding draws_def
proof (intro allI impI)
  fix v assume v: "view_ready bufs L v"
  let ?d = "op_dest oper" and ?i = "layer_layer l" and ?c = "op_src_color oper" and ?v = "show_drawings blend (op_drawings l oper) v"
  have s: "on_screen ?d" using oper(2) by (simp add: op_wf_def)
  have path: "view_path v ?i = {}" "(view_path v)(?i := {}) = view_path v"
    using v by (simp_all add: view_ready_def fun_upd_idem)
  have color: "T ?i p = ?c" if "p \<in> rect_area ?d" for p using that oper(1, 3) T by (auto simp: op_correct_def)
  have "view_path ?v = view_path v \<and> (\<forall>j p. view_pixel ?v j p = (if j = ?i \<and> p \<in> rect_area ?d then ?c else view_pixel v j p))"
  proof (cases "layer_opaque l")
    case True
    have "(rect_left ?d, rect_top ?d) \<in> rect_area ?d" using s by (simp add: on_screen_def rect_area_def box_def)
    then have "opaque_pixel ?c" using oper(1, 3) l [OF True] by (auto simp: op_correct_def)
    then show ?thesis using True oper(1) b dest_area [OF s] path argb_color [of ?c]
      by (auto simp: op_drawings_def apply_rect_def Let_def paint_def compositing_def)
  next
    case False
    then show ?thesis using oper(1) b dest_area [OF s] path argb_all [of ?c] argb_black(1)
      by (auto simp: op_drawings_def apply_rect_def Let_def paint_def compositing_def)
  qed
  then show "painted T (op_area l oper) v ?v" using color by (auto simp: painted_def op_area_def)
qed

text \<open>The image of an operation, which a worker thread sends.\<close>

fun image_area :: "drawing list \<Rightarrow> (int \<times> int \<times> int) set" where
  "image_area [Draw_image f mode l x y rows] =
     {l} \<times> {(px, py). x \<le> px \<and> y \<le> py \<and> nat (py - y) < length rows \<and> nat (px - x) < length (rows ! nat (py - y))}"
| "image_area _ = {}"

definition image_pixels :: "int \<Rightarrow> int \<Rightarrow> pixel list list \<Rightarrow> (int \<times> int) set" where
  "image_pixels x y rows = {(px, py). x \<le> px \<and> y \<le> py \<and> nat (py - y) < length rows \<and> nat (px - x) < length (rows ! nat (py - y))}"

lemma cairo_rect_pixels:
  assumes r: "inside r (layer_last_frame l)" and ok: "state_ok (layer_last_frame l)"
  obtains img where "LFR_guac_display_layer_cairo_rect l r = Inr img" "image_pixels (rect_left r) (rect_top r) img = rect_area r"
    "\<forall>(px, py) \<in> rect_area r. img ! nat (py - rect_top r) ! nat (px - rect_left r) = visible l (rows_of (layer_last_frame l) ! nat py ! nat px)"
proof -
  let ?rows = "rows_of (layer_last_frame l)"
  have d: "0 \<le> rect_left r" "rect_left r < rect_right r" "0 \<le> rect_top r" "rect_top r < rect_bottom r"
    "rect_right r \<le> state_width (layer_last_frame l)" "rect_bottom r \<le> state_height (layer_last_frame l)"
    using r by (simp_all add: inside_def on_screen_def)
  have ok: "state_height (layer_last_frame l) \<le> int (length ?rows)" "\<forall>row \<in> set ?rows. state_width (layer_last_frame l) \<le> int (length row)"
    using state_ok_buffer [OF ok] by (simp_all add: buffer_ok_def)
  have len: "rect_right r \<le> int (length (?rows ! y))" if "y < length ?rows" for y
    using ok(2) nth_mem [OF that] d(5) by fastforce
  define img where "img = map (\<lambda>y. map (visible l) (buffer_line ?rows r y)) [nat (rect_top r)..<nat (rect_bottom r)]"
  have "in_rows r ?rows" using d ok by (fastforce simp: in_rows_def list_all_iff)
  then have w: "LFR_guac_display_layer_cairo_rect l r = Inr img" by (simp add: LFR_guac_display_layer_cairo_rect_def img_def)
  have line: "img ! nat (py - rect_top r) = map (visible l) (buffer_line ?rows r (nat py))" "nat py < length ?rows"
    if "rect_top r \<le> py" "py < rect_bottom r" for py
    using that d ok(1) by (auto simp: img_def nth_map nat_diff_distrib)
  have width: "length (buffer_line ?rows r (nat py)) = nat (rect_right r - rect_left r)" if "nat py < length ?rows" for py
    using len [OF that] d by (simp add: buffer_line_def)
  have "(px, py) \<in> image_pixels (rect_left r) (rect_top r) img \<longleftrightarrow> (px, py) \<in> rect_area r" for px py
  proof (cases "rect_top r \<le> py \<and> py < rect_bottom r")
    case True
    then show ?thesis using line width d by (auto simp: image_pixels_def rect_area_def box_def img_def [symmetric]) (auto simp: img_def)
  next
    case False
    then show ?thesis using d by (auto simp: image_pixels_def rect_area_def box_def img_def)
  qed
  then have a: "image_pixels (rect_left r) (rect_top r) img = rect_area r" by auto
  have "img ! nat (py - rect_top r) ! nat (px - rect_left r) = visible l (?rows ! nat py ! nat px)" if p: "(px, py) \<in> rect_area r" for px py
  proof -
    have b: "rect_left r \<le> px" "px < rect_right r" "rect_top r \<le> py" "py < rect_bottom r" using p by (auto simp: rect_area_def box_def)
    then have "img ! nat (py - rect_top r) ! nat (px - rect_left r) = visible l (buffer_line ?rows r (nat py) ! nat (px - rect_left r))"
      using line width by simp
    moreover have "nat (rect_left r) + nat (px - rect_left r) = nat px" "nat (px - rect_left r) < nat (rect_right r - rect_left r)"
      using b d by linarith+
    ultimately show ?thesis using len [OF line(2) [OF b(3, 4)]] d by (simp add: buffer_line_def)
  qed
  with w a show thesis by (intro that) auto
qed

lemma image_groups:
  assumes oper: "op_type oper = GUAC_DISPLAY_PLAN_OPERATION_IMG"
    and l: "layer_of layers (op_layer oper) = Some l" "inside (op_dest oper) (layer_last_frame l)" "state_ok (layer_last_frame l)"
    and T: "\<forall>(x, y) \<in> rect_area (op_dest oper). T (layer_layer l) (x, y) = visible l (rows_of (layer_last_frame l) ! nat y ! nat x)"
  obtains g where "worker_op e layers oper =
      Inr ((if layer_opaque l then [] else [guac_display_layer_clear_non_opaque l (op_dest oper)]) @ [g])"
    "image_area g = op_area l oper"
    "\<forall>v. painted (\<lambda>j p. blend GUAC_COMP_OVER (T j p) (view_pixel v j p)) (image_area g) v (show_drawings blend g v)"
proof -
  let ?d = "op_dest oper"
  obtain img where img: "LFR_guac_display_layer_cairo_rect l ?d = Inr img" "image_pixels (rect_left ?d) (rect_top ?d) img = rect_area ?d"
    "\<forall>(px, py) \<in> rect_area ?d. img ! nat (py - rect_top ?d) ! nat (px - rect_left ?d) = visible l (rows_of (layer_last_frame l) ! nat py ! nat px)"
    by (rule cairo_rect_pixels [OF l(2, 3)])
  let ?g = "[Draw_image (choose_format e l ?d (op_framerate oper)) GUAC_COMP_OVER (layer_layer l) (rect_left ?d) (rect_top ?d) img]"
  have w: "worker_op e layers oper = Inr ((if layer_opaque l then [] else [guac_display_layer_clear_non_opaque l ?d]) @ [?g])"
    using oper l(1) img(1) by (simp add: worker_op_def)
  have a: "image_area ?g = op_area l oper" using img(2) by (simp add: op_area_def image_pixels_def)
  have "painted (\<lambda>j p. blend GUAC_COMP_OVER (T j p) (view_pixel v j p)) (image_area ?g) v (show_drawings blend ?g v)" for v
  proof -
    let ?f = "\<lambda>(px, py). blend GUAC_COMP_OVER (img ! nat (py - rect_top ?d) ! nat (px - rect_left ?d)) (view_pixel v (layer_layer l) (px, py))"
    have "\<forall>p \<in> rect_area ?d. ?f p = blend GUAC_COMP_OVER (T (layer_layer l) p) (view_pixel v (layer_layer l) p)"
      using T img(3) by fastforce
    from paint_target [where f = ?f and T = "\<lambda>j p. blend GUAC_COMP_OVER (T j p) (view_pixel v j p)", OF this, of v] show ?thesis
      unfolding a op_area_def using img(2) by (simp add: image_pixels_def)
  qed
  with w a show thesis by (intro that) blast+
qed

lemma clear_paints:
  assumes b: "compositing blend" and "\<not> layer_opaque l" "on_screen r" "view_path v (layer_layer l) = {}"
  shows "painted (\<lambda>_ _. 0) ({layer_layer l} \<times> rect_area r) v (show_drawings blend (guac_display_layer_clear_non_opaque l r) v)"
  using assms dest_area [OF assms(3)] argb_black(1) fun_upd_idem [of "view_path v" "layer_layer l"]
  by (auto simp: painted_def guac_display_layer_clear_non_opaque_def paint_def compositing_def)

text \<open>
  Images of several threads. A group of instructions either clears an area or draws an image in it. When
  the threads are interleaved, an area may be cleared before the image of another thread is drawn over
  an image that is already there; so where images overlap, their pixels must be fully opaque or fully
  transparent.
\<close>

definition crisp :: "pixel \<Rightarrow> bool" where
  "crisp p \<longleftrightarrow> opaque_pixel p \<or> p = 0"

definition groups_area :: "drawing list list \<Rightarrow> (int \<times> int \<times> int) set" where
  "groups_area xs = (if xs = [] then {} else image_area (last xs))"

lemma groups_area_simps [simp]: "groups_area [] = {}" "groups_area [g] = image_area g" "groups_area [c, g] = image_area g"
  by (simp_all add: groups_area_def)

definition draws_image :: "(int \<Rightarrow> pixel \<Rightarrow> pixel \<Rightarrow> pixel) \<Rightarrow> (int \<Rightarrow> int \<times> int \<Rightarrow> pixel) \<Rightarrow> drawing list \<Rightarrow> bool" where
  "draws_image blend T g \<longleftrightarrow>
     (\<forall>v. painted (\<lambda>j p. blend GUAC_COMP_OVER (T j p) (view_pixel v j p)) (image_area g) v (show_drawings blend g v))"

definition groups_ok :: "(int \<Rightarrow> pixel \<Rightarrow> pixel \<Rightarrow> pixel) \<Rightarrow> nat set \<Rightarrow> frame \<Rightarrow> (int \<Rightarrow> int \<times> int \<Rightarrow> pixel) \<Rightarrow> drawing list list \<Rightarrow> bool" where
  "groups_ok blend bufs L T xs \<longleftrightarrow> (\<forall>n \<in> bufs. \<forall>p. (- int n - 1, p) \<notin> groups_area xs) \<and>
     (xs = [] \<or> (\<exists>g. xs = [g] \<and> draws_image blend T g) \<or>
      (\<exists>c g. xs = [c, g] \<and> draws_image blend T g \<and>
        (\<forall>v. view_ready bufs L v \<longrightarrow> painted (\<lambda>_ _. 0) (image_area g) v (show_drawings blend c v))))"

lemma view_ready_painted:
  assumes "view_ready bufs L v" "painted F A v v'" "\<forall>n \<in> bufs. \<forall>p. (- int n - 1, p) \<notin> A"
  shows "view_ready bufs L v'"
  using assms by (auto simp: view_ready_def painted_def)

lemma merges_paint:
  assumes "merges M zs" and b: "compositing blend" and "\<forall>xs \<in># M. groups_ok blend bufs L T xs" "view_ready bufs L v"
    and "\<forall>g. [g] \<in># M \<longrightarrow> (\<forall>j p. (j, p) \<in> image_area g \<longrightarrow> blend GUAC_COMP_OVER (T j p) (view_pixel v j p) = T j p)"
    and "\<forall>j p. crisp (T j p) \<or> size {#xs \<in># M. (j, p) \<in> groups_area xs#} \<le> 1"
  shows "painted T (\<Union>xs \<in> set_mset M. groups_area xs) v (show_drawings blend (concat zs) v)"
  using assms(1, 3-)
proof (induction arbitrary: v rule: merges.induct)
  case merges_Nil
  then show ?case by (simp add: painted_def)
next
  case (merges_empty M zs)
  then show ?case by (auto intro!: merges_empty.IH)
next
  case (merges_Cons xs M zs x)
  let ?v = "show_drawings blend x v"
  note ok = merges_Cons.prems(1) and ready = merges_Cons.prems(2) and over = merges_Cons.prems(3) and few = merges_Cons.prems(4)
  have out: "\<forall>n \<in> bufs. \<forall>p. (- int n - 1, p) \<notin> groups_area (x # xs)" using ok by (simp add: groups_ok_def)
  from ok have "groups_ok blend bufs L T (x # xs)" by simp
  then consider (image) "xs = []" "draws_image blend T x" | (clear) g where "xs = [g]" "draws_image blend T g"
    "painted (\<lambda>_ _. 0) (image_area g) v ?v"
    using ready by (auto simp: groups_ok_def)
  then show ?case
  proof cases
    case image
    have p: "painted T (image_area x) v ?v"
      using image over by (auto simp: draws_image_def painted_def)
    have "painted T (\<Union>xs \<in> set_mset (add_mset xs M). groups_area xs) ?v (show_drawings blend (concat zs) ?v)"
    proof (rule merges_Cons.IH)
      show "\<forall>xs \<in># add_mset xs M. groups_ok blend bufs L T xs" using ok image by (simp add: groups_ok_def)
      show "view_ready bufs L ?v" by (rule view_ready_painted [OF ready p]) (use out image in simp)
      show "\<forall>g. [g] \<in># add_mset xs M \<longrightarrow> (\<forall>j p. (j, p) \<in> image_area g \<longrightarrow> blend GUAC_COMP_OVER (T j p) (view_pixel ?v j p) = T j p)"
      proof (intro allI impI)
        fix g j q assume g: "[g] \<in># add_mset xs M" "(j, q) \<in> image_area g"
        then have g': "[g] \<in># M" using image by simp
        show "blend GUAC_COMP_OVER (T j q) (view_pixel ?v j q) = T j q"
        proof (cases "(j, q) \<in> image_area x")
          case False
          then show ?thesis using p over g' g(2) by (cases q) (auto simp: painted_def)
        next
          case True
          from g' obtain N where "M = add_mset [g] N" by (meson multi_member_split)
          then have "crisp (T j q)" using spec [OF spec [OF few, of j], of q] image True g(2) by simp
          then show ?thesis using p True b by (cases q) (auto simp: painted_def crisp_def compositing_def)
        qed
      qed
      have "size {#ys \<in># add_mset xs M. q \<in> groups_area ys#} \<le> size {#ys \<in># add_mset (x # xs) M. q \<in> groups_area ys#}" for q
        using image by simp
      then show "\<forall>j p. crisp (T j p) \<or> size {#ys \<in># add_mset xs M. (j, p) \<in> groups_area ys#} \<le> 1"
        using few le_trans by blast
    qed
    then show ?thesis using painted_trans [OF p] image by simp
  next
    case clear
    have "painted T (\<Union>xs \<in> set_mset (add_mset xs M). groups_area xs) ?v (show_drawings blend (concat zs) ?v)"
    proof (rule merges_Cons.IH)
      show "\<forall>xs \<in># add_mset xs M. groups_ok blend bufs L T xs" using ok out clear by (auto simp: groups_ok_def)
      show "view_ready bufs L ?v" by (rule view_ready_painted [OF ready clear(3)]) (use out clear in simp)
      show "\<forall>g'. [g'] \<in># add_mset xs M \<longrightarrow> (\<forall>j p. (j, p) \<in> image_area g' \<longrightarrow> blend GUAC_COMP_OVER (T j p) (view_pixel ?v j p) = T j p)"
        using over clear b by (auto simp: painted_def compositing_def)
      show "\<forall>j p. crisp (T j p) \<or> size {#ys \<in># add_mset xs M. (j, p) \<in> groups_area ys#} \<le> 1"
      proof -
        have "size {#ys \<in># add_mset xs M. q \<in> groups_area ys#} = size {#ys \<in># add_mset (x # xs) M. q \<in> groups_area ys#}" for q
          using clear by simp
        then show ?thesis using few by simp
      qed
    qed
    then show ?thesis using painted_again [OF clear(3)] clear by (auto simp: Un_assoc)
  qed
qed

section \<open>A frame: specification\<close>

text \<open>Indices of layers and buffers.\<close>

lemma disjoint_buffers:
  assumes "distinct (concat (map f xs))" "x \<in> set xs" "y \<in> set xs" "a \<in> set (f x)" "a \<in> set (f y)"
  shows "x = y"
  using assms by (induction xs) (auto simp: disjoint_iff)

lemma distinct_part: "distinct (concat (map f xs)) \<Longrightarrow> x \<in> set xs \<Longrightarrow> distinct (f x)"
  by (induction xs) auto

lemma buffer_indices:
  assumes "display_inv d" "l \<in> set (all_layers d)" "l' \<in> set (all_layers d)"
  shows "layer_layer l \<noteq> - int (layer_last_frame_buffer l') - 1"
    and "layer_last_frame_buffer l = layer_last_frame_buffer l' \<Longrightarrow> l = l'"
proof -
  have d: "distinct (concat (map layer_buffers (all_layers d)))" using assms(1) unfolding display_inv_def by blast
  show "layer_last_frame_buffer l = layer_last_frame_buffer l' \<Longrightarrow> l = l'"
    by (rule disjoint_buffers [OF d assms(2, 3), of "int (layer_last_frame_buffer l)"]) (simp_all add: layer_buffers_def)
  show "layer_layer l \<noteq> - int (layer_last_frame_buffer l') - 1"
  proof
    assume e: "layer_layer l = - int (layer_last_frame_buffer l') - 1"
    have "l = l'" by (rule disjoint_buffers [OF d assms(2, 3), of "int (layer_last_frame_buffer l')"]) (simp_all add: layer_buffers_def e)
    moreover have "distinct (layer_buffers l)" by (rule distinct_part [OF d assms(2)])
    ultimately show False using e by (simp add: layer_buffers_def)
  qed
qed

text \<open>
  The client shows the last frame of a layer, and its buffer keeps a copy of it.
\<close>

definition shows_layer :: "view \<Rightarrow> guac_display_layer \<Rightarrow> bool" where
  "shows_layer v l \<longleftrightarrow> (\<forall>x y. (x, y) \<in> box 0 0 (state_width (layer_last_frame l)) (state_height (layer_last_frame l)) \<longrightarrow>
     view_pixel v (layer_layer l) (x, y) = visible l (rows_of (layer_last_frame l) ! nat y ! nat x))"

definition keeps_layer :: "view \<Rightarrow> guac_display_layer \<Rightarrow> bool" where
  "keeps_layer v l \<longleftrightarrow> (\<forall>x y. (x, y) \<in> box 0 0 (state_width (layer_last_frame l)) (state_height (layer_last_frame l)) \<longrightarrow>
     view_pixel v (- int (layer_last_frame_buffer l) - 1) (x, y) = visible l (rows_of (layer_last_frame l) ! nat y ! nat x))"

definition in_sync :: "view \<Rightarrow> guac_display \<Rightarrow> bool" where
  "in_sync v d \<longleftrightarrow> (\<forall>i. view_path v i = {}) \<and> (\<forall>l \<in> set (display_layers d). shows_layer v l) \<and>
     (\<forall>l \<in> set (all_layers d). keeps_layer v l)"

text \<open>Changing sizes clears what is outside of the new size.\<close>

lemma size_changes_path: "view_path (show_drawings blend (concat (map size_change ls)) v) = view_path v"
proof (induction ls arbitrary: v)
  case (Cons l ls)
  have "view_path (show_drawings blend (size_change l) v) = view_path v" by (auto simp: size_change_def complete_size_def paint_def)
  with Cons show ?case by simp
qed simp

lemma size_changes:
  assumes "\<And>l. l \<in> set ls \<Longrightarrow> layer_layer l = i \<Longrightarrow> p \<in> box 0 0 (state_width (layer_pending_frame l)) (state_height (layer_pending_frame l))"
  shows "view_pixel (show_drawings blend (concat (map size_change ls)) v) i p = view_pixel v i p"
  using assms
proof (induction ls arbitrary: v)
  case (Cons l ls)
  have "view_pixel (show_drawings blend (size_change l) v) i p = view_pixel v i p"
    using Cons.prems [of l] by (auto simp: size_change_def complete_size_def paint_def)
  with Cons show ?case by simp
qed simp

text \<open>The end of a frame copies the layers to their buffers.\<close>

lemma commit_layers:
  assumes b: "compositing blend" and idx: "\<And>l l'. l \<in> set ls \<Longrightarrow> l' \<in> set ks \<Longrightarrow> layer_layer l \<noteq> - int (layer_last_frame_buffer l') - 1"
    and un: "\<And>l l'. l \<in> set ls \<Longrightarrow> l' \<in> set ls \<Longrightarrow> layer_last_frame_buffer l = layer_last_frame_buffer l' \<Longrightarrow> l = l'"
    and ks: "set ks \<subseteq> set ls" "distinct ks"
    and ok: "\<And>l. l \<in> set ls \<Longrightarrow> on_screen (layer_last_dirty l) \<or> guac_rect_is_empty (layer_last_dirty l)"
    and v: "\<forall>i. view_path v i = {}" "\<forall>l \<in> set ls. shows_layer v l"
    and p: "\<forall>l \<in> set ls. \<forall>x y. (x, y) \<in> box 0 0 (state_width (layer_last_frame l)) (state_height (layer_last_frame l)) \<longrightarrow>
      (x, y) \<in> rect_area (layer_last_dirty l) \<and> l \<in> set ks \<or>
      view_pixel v (- int (layer_last_frame_buffer l) - 1) (x, y) = visible l (rows_of (layer_last_frame l) ! nat y ! nat x)"
  shows "(\<forall>i. view_path (show_drawings blend (concat (map commit_layer ks)) v) i = {}) \<and>
    (\<forall>l \<in> set ls. shows_layer (show_drawings blend (concat (map commit_layer ks)) v) l \<and>
      keeps_layer (show_drawings blend (concat (map commit_layer ks)) v) l)"
  using idx ks v p
proof (induction ks arbitrary: v)
  case Nil
  then show ?case by (auto simp: keeps_layer_def)
next
  case (Cons k ks)
  let ?v = "show_drawings blend (commit_layer k) v" and ?b = "- int (layer_last_frame_buffer k) - 1"
  have k: "k \<in> set ls" "k \<notin> set ks" using Cons.prems(2, 3) by auto
  note pix = Cons.prems(6)
  have step: "view_path ?v = view_path v" "\<And>j q. j \<noteq> ?b \<Longrightarrow> view_pixel ?v j q = view_pixel v j q"
    "\<And>q. view_pixel ?v ?b q = (if q \<in> rect_area (layer_last_dirty k)
      then if layer_opaque k then blend GUAC_COMP_OVER (view_pixel v (layer_layer k) q) (view_pixel v ?b q) else view_pixel v (layer_layer k) q
      else view_pixel v ?b q)"
  proof -
    have path: "view_path v ?b = {}" "(view_path v)(?b := {}) = view_path v" using Cons.prems(4) by (simp_all add: fun_upd_idem)
    have other: "layer_layer k \<noteq> ?b" using Cons.prems(1) [OF k(1)] by simp
    let ?r = "layer_last_dirty k"
    have area: "\<not> guac_rect_is_empty ?r \<Longrightarrow>
      box (rect_left ?r) (rect_top ?r) (rect_left ?r + guac_rect_width ?r) (rect_top ?r + guac_rect_height ?r) = rect_area ?r"
      using ok [OF k(1)] dest_area by blast
    have empty: "guac_rect_is_empty ?r \<Longrightarrow> rect_area ?r = {}" by (simp add: rect_empty_area)
    have blends: "blend GUAC_COMP_RATOP 0 p = 0" "blend GUAC_COMP_OVER p 0 = p" for p using b by (simp_all add: compositing_def)
    show "view_path ?v = view_path v" "\<And>j q. j \<noteq> ?b \<Longrightarrow> view_pixel ?v j q = view_pixel v j q"
      "\<And>q. view_pixel ?v ?b q = (if q \<in> rect_area (layer_last_dirty k)
        then if layer_opaque k then blend GUAC_COMP_OVER (view_pixel v (layer_layer k) q) (view_pixel v ?b q) else view_pixel v (layer_layer k) q
        else view_pixel v ?b q)"
      using path other blends area empty
      by (auto simp: commit_layer_def Let_def paint_def argb_black(2) split: prod.splits)
  qed
  have layers: "\<forall>l \<in> set ls. shows_layer ?v l" using Cons.prems(1, 5) step(2) by (auto simp: shows_layer_def)
  have kept: "view_pixel ?v ?b (x, y) = visible k (rows_of (layer_last_frame k) ! nat y ! nat x)"
    if q: "(x, y) \<in> box 0 0 (state_width (layer_last_frame k)) (state_height (layer_last_frame k))" for x y
  proof (cases "(x, y) \<in> rect_area (layer_last_dirty k)")
    case True
    moreover have "view_pixel v (layer_layer k) (x, y) = visible k (rows_of (layer_last_frame k) ! nat y ! nat x)"
      using Cons.prems(5) k(1) q by (simp add: shows_layer_def)
    ultimately show ?thesis using b visible_opaque by (simp add: step(3) compositing_def)
  next
    case False
    then show ?thesis using pix k(1) q by (auto simp: step(3))
  qed
  have rest: "\<forall>l \<in> set ls. \<forall>x y. (x, y) \<in> box 0 0 (state_width (layer_last_frame l)) (state_height (layer_last_frame l)) \<longrightarrow>
      (x, y) \<in> rect_area (layer_last_dirty l) \<and> l \<in> set ks \<or>
      view_pixel ?v (- int (layer_last_frame_buffer l) - 1) (x, y) = visible l (rows_of (layer_last_frame l) ! nat y ! nat x)"
  proof (intro ballI allI impI)
    fix l x y
    assume l: "l \<in> set ls" "(x, y) \<in> box 0 0 (state_width (layer_last_frame l)) (state_height (layer_last_frame l))"
    show "(x, y) \<in> rect_area (layer_last_dirty l) \<and> l \<in> set ks \<or>
      view_pixel ?v (- int (layer_last_frame_buffer l) - 1) (x, y) = visible l (rows_of (layer_last_frame l) ! nat y ! nat x)"
    proof (cases "l = k")
      case True
      then show ?thesis using kept l(2) by simp
    next
      case False
      then have "layer_last_frame_buffer l \<noteq> layer_last_frame_buffer k" using un [OF l(1) k(1)] by blast
      then show ?thesis using pix l False by (auto simp: step(2))
    qed
  qed
  have IH: "\<And>l l'. l \<in> set ls \<Longrightarrow> l' \<in> set ks \<Longrightarrow> layer_layer l \<noteq> - int (layer_last_frame_buffer l') - 1" "set ks \<subseteq> set ls" "distinct ks"
    "\<forall>i. view_path ?v i = {}" using Cons.prems step(1) by auto
  show ?case using Cons.IH [OF IH layers rest] by simp
qed

text \<open>What is drawn for a plan, in terms of its operations.\<close>

lemma last_layers_all:
  assumes "display_inv d" "display_removed d = []" "display_last_layers d = map layer_number (display_layers d)"
  shows "last_layers d = display_layers d"
proof -
  have "List.map_filter (layer_of (display_layers d)) (map layer_number ks) = ks" if "set ks \<subseteq> set (display_layers d)" for ks
    using that find_unique_key [OF display_inv_distinct [OF assms(1)]] by (induction ks) (simp_all add: layer_of_def List.map_filter_def)
  then show ?thesis by (simp add: last_layers_def assms)
qed

lemma replicate_commits:
  assumes b: "compositing blend" and inv: "display_inv d" "display_removed d = []" "display_last_layers d = map layer_number (display_layers d)"
    and ok: "\<And>l. l \<in> set (display_layers d) \<Longrightarrow> on_screen (layer_last_dirty l) \<or> guac_rect_is_empty (layer_last_dirty l)"
    and v: "\<forall>i. view_path v i = {}" "\<forall>l \<in> set (display_layers d). shows_layer v l"
    and p: "\<forall>l \<in> set (display_layers d). \<forall>x y. (x, y) \<in> box 0 0 (state_width (layer_last_frame l)) (state_height (layer_last_frame l)) \<longrightarrow>
      (x, y) \<in> rect_area (layer_last_dirty l) \<and> 0 < k \<or>
      view_pixel v (- int (layer_last_frame_buffer l) - 1) (x, y) = visible l (rows_of (layer_last_frame l) ! nat y ! nat x)"
  shows "in_sync (show_drawings blend (concat (replicate k (end_of_frame now d))) v) d"
  using v p
proof (induction k arbitrary: v)
  case 0
  then show ?case using inv(2) by (auto simp: in_sync_def keeps_layer_def)
next
  case (Suc k)
  let ?ls = "display_layers d"
  have num: "distinct (map layer_number ?ls)" using inv(1) by (rule display_inv_distinct)
  have last: "last_layers d = ?ls" by (rule last_layers_all [OF inv])
  have eof: "show_drawings blend (end_of_frame now d) v = show_drawings blend (concat (map commit_layer ?ls)) v"
    by (simp add: end_of_frame_def last split: option.splits)
  have ids: "layer_layer l \<noteq> - int (layer_last_frame_buffer l') - 1" "layer_last_frame_buffer l = layer_last_frame_buffer l' \<Longrightarrow> l = l'"
    if "l \<in> set ?ls" "l' \<in> set ?ls" for l l'
    using buffer_indices [OF inv(1), of l l'] that by auto
  have c: "(\<forall>i. view_path (show_drawings blend (end_of_frame now d) v) i = {}) \<and>
      (\<forall>l \<in> set ?ls. shows_layer (show_drawings blend (end_of_frame now d) v) l \<and>
        keeps_layer (show_drawings blend (end_of_frame now d) v) l)"
    unfolding eof
    by (rule commit_layers [OF b ids subset_refl _ ok Suc.prems(1, 2)])
      (use num Suc.prems(3) in \<open>auto simp: distinct_map\<close>)
  have "in_sync (show_drawings blend (concat (replicate k (end_of_frame now d))) (show_drawings blend (end_of_frame now d) v)) d"
    by (rule Suc.IH) (use c in \<open>auto simp: keeps_layer_def\<close>)
  then show ?case by simp
qed

text \<open>The frame that the buffers of a view hold.\<close>

definition kept_frame :: "view \<Rightarrow> guac_display \<Rightarrow> frame" where
  "kept_frame v d n p = (if n \<in> layer_last_frame_buffer ` set (all_layers d) then view_pixel v (- int n - 1) p else 0)"

text \<open>
  The frames that the instructions transport exactly. All changes have been reported and no two layers
  share an index; and where alpha is at stake, that is, on layers that are not opaque:

  \<^item> a modified layer is a single cell, so that one image is drawn at most, or all its pixels are fully
    opaque or fully transparent (images of several threads may overlap);

  \<^item> where a part of the last frame could be copied, both layers are opaque or have only fully opaque pixels
    (a copy is drawn over what is there, without clearing it).
\<close>

definition solid :: "guac_display_layer \<Rightarrow> guac_display_layer_state \<Rightarrow> bool" where
  "solid l st \<longleftrightarrow> layer_opaque l \<or> (\<forall>p \<in> state_pixels st. opaque_pixel p)"

definition frame_changes_ok :: "guac_display \<Rightarrow> bool" where
  "frame_changes_ok d \<longleftrightarrow> distinct (map layer_layer (all_layers d)) \<and>
     (\<forall>l \<in> set (display_layers d). reported l \<and>
        (layer_opaque l \<or> guac_rect_is_empty (layer_dirty l) \<or> length (layer_cells l) \<le> 1 \<or>
         (\<forall>p \<in> state_pixels (layer_pending_frame l). crisp p))) \<and>
     (\<forall>l' \<in> set (all_layers d). \<forall>l \<in> set (display_layers d).
        state_search_for_copies (layer_pending_frame l') \<longrightarrow> holds_cell (layer_last_frame l') \<longrightarrow>
        \<not> guac_rect_is_empty (layer_dirty l) \<longrightarrow> holds_cell (layer_pending_frame l) \<longrightarrow>
        solid l (layer_pending_frame l) \<and> solid l' (layer_last_frame l'))"

lemma solid_visible: "solid l st \<Longrightarrow> p \<in> state_pixels st \<Longrightarrow> opaque_pixel (visible l p) \<and> visible l p = p OR 0xFF000000"
  by (auto simp: solid_def visible_def opaque_pixel_def or.assoc)

lemma kept_fits:
  assumes "in_sync v d" "frame_changes_ok d"
  shows "copies_fit (kept_frame v d) d"
proof -
  have "shows_last (kept_frame v d) l" if "l \<in> set (all_layers d)" for l
    using assms(1) that by (auto simp: in_sync_def keeps_layer_def shows_last_def kept_frame_def)
  moreover have "alpha_fits l l'" if "solid l (layer_pending_frame l)" "solid l' (layer_last_frame l')" for l l'
    using that solid_visible by (fastforce simp: alpha_fits_def)
  ultimately show ?thesis using assms(2) by (auto simp: copies_fit_def frame_changes_ok_def)
qed

text \<open>The operations of a plan that has been flushed, with the layers that they draw to.\<close>

lemma flushed_from:
  assumes "frame_flushed L d ops d' f" "l' \<in> set (display_layers d')"
  shows "\<exists>l \<in> set (display_layers d). flushed l l'"
proof -
  have "list_all2 flushed (display_layers d) (display_layers d')" using assms(1) by (simp add: frame_flushed_def)
  then show ?thesis using assms(2) by (metis in_set_conv_nth list_all2_conv_all_nth)
qed

lemma flushed_op:
  assumes inv: "display_inv d" and fl: "frame_flushed L d ops d' f" and o: "oper \<in> set ops"
  obtains l l' where "l \<in> set (display_layers d)" "flushed l l'" "layer_of (display_layers d') (op_layer oper) = Some l'"
    "op_layer oper = layer_number l" "layer_of (display_layers d) (op_layer oper) = Some l" "\<not> guac_rect_is_empty (layer_dirty l)"
    "inside (op_dest oper) (layer_pending_frame l)" "op_type oper = GUAC_DISPLAY_PLAN_OPERATION_COPY \<longrightarrow> may_copy d"
proof -
  let ?ls = "display_layers d" and ?ls' = "display_layers d'"
  have f: "list_all2 flushed ?ls ?ls'" "display_inv d'" "ops_bounded (may_copy d) (layer_bounds ?ls) (map op_layer ops) ops"
    "\<forall>oper \<in> set ops. \<exists>l \<in> set ?ls. op_layer oper = layer_number l \<and> \<not> guac_rect_is_empty (layer_dirty l)"
    using fl by (simp_all add: frame_flushed_def)
  obtain l where l: "l \<in> set ?ls" "op_layer oper = layer_number l" "\<not> guac_rect_is_empty (layer_dirty l)" using f(4) o by blast
  obtain l' where l': "l' \<in> set ?ls'" "flushed l l'" using f(1) l(1) by (metis in_set_conv_nth list_all2_conv_all_nth)
  have of1: "layer_of ?ls' (op_layer oper) = Some l'"
    using find_unique_key [OF display_inv_distinct [OF f(2)] l'(1)] l(2) flushed_fields(1) [OF l'(2)] by (simp add: layer_of_def)
  have of2: "layer_of ?ls (op_layer oper) = Some l"
    using find_unique_key [OF display_inv_distinct [OF inv] l(1)] l(2) by (simp add: layer_of_def)
  have "inside (op_dest oper) (layer_pending_frame l)"
    using f(3) o of2 by (auto simp: ops_bounded_def inside_def layer_bounds_def guac_display_layer_get_bounds_def)
  then show thesis using l l' of1 of2 f(3) o by (intro that [of l l']) (auto simp: ops_bounded_def)
qed

text \<open>What the layers of a client are to show, and the assumptions under which a plan is drawn.\<close>

definition target :: "guac_display \<Rightarrow> int \<Rightarrow> int \<times> int \<Rightarrow> pixel" where
  "target d j p = (case find (\<lambda>l. layer_layer l = j) (display_layers d) of
     None \<Rightarrow> 0 | Some l \<Rightarrow> pending_frame (display_layers d) (layer_number l) p)"

abbreviation kept_buffers :: "guac_display \<Rightarrow> nat set" where
  "kept_buffers d \<equiv> layer_last_frame_buffer ` set (all_layers d)"

definition plan_setting ::
    "(int \<Rightarrow> pixel \<Rightarrow> pixel \<Rightarrow> pixel) \<Rightarrow> frame \<Rightarrow> guac_display \<Rightarrow> guac_display_plan_operation list \<Rightarrow> guac_display \<Rightarrow> flush \<Rightarrow> bool" where
  "plan_setting blend L d ops d' f \<longleftrightarrow> compositing blend \<and> display_inv d \<and> frame_changes_ok d \<and> copies_fit L d \<and>
     frame_flushed L d ops d' f \<and> (\<forall>n p. n \<notin> kept_buffers d \<longrightarrow> L n p = 0)"

abbreviation drawn_layer :: "guac_display \<Rightarrow> guac_display_plan_operation \<Rightarrow> guac_display_layer" where
  "drawn_layer d' oper \<equiv> the (layer_of (display_layers d') (op_layer oper))"

lemma target_layer:
  assumes "plan_setting blend L d ops d' f" "l \<in> set (display_layers d)"
  shows "target d (layer_layer l) p = pending_frame (display_layers d) (layer_number l) p"
    and "target d (layer_layer l) (x, y) = visible l (rows_of (layer_pending_frame l) ! nat y ! nat x)"
proof -
  have d: "distinct (map layer_layer (display_layers d))" "distinct (map layer_number (display_layers d))"
    using assms(1) by (auto simp: plan_setting_def frame_changes_ok_def display_inv_distinct)
  show "target d (layer_layer l) p = pending_frame (display_layers d) (layer_number l) p" for p
    using find_unique_key [OF d(1) assms(2)] by (simp add: target_def)
  then show "target d (layer_layer l) (x, y) = visible l (rows_of (layer_pending_frame l) ! nat y ! nat x)"
    using find_unique_key [OF d(2) assms(2)] by (simp add: pending_frame_def layer_of_def)
qed

lemma dest_pixels:
  assumes "inside (op_dest oper) st" "(x, y) \<in> rect_area (op_dest oper)"
  shows "(x, y) \<in> box 0 0 (state_width st) (state_height st)" "rows_of st ! nat y ! nat x \<in> state_pixels st"
  using assms by (auto simp: inside_def on_screen_def rect_area_def box_def intro!: state_pixelsI)

lemma setting_op:
  assumes set: "plan_setting blend L d ops d' f" and o: "oper \<in> set ops"
  obtains l where "l \<in> set (display_layers d)" "flushed l (drawn_layer d' oper)" "op_layer oper = layer_number l"
    "layer_of (display_layers d') (op_layer oper) = Some (drawn_layer d' oper)" "\<not> guac_rect_is_empty (layer_dirty l)"
    "inside (op_dest oper) (layer_pending_frame l)" "layer_layer (drawn_layer d' oper) = layer_layer l"
    "op_wf oper" "op_correct (pending_frame (display_layers d)) L oper"
    "\<forall>p. target d (layer_layer l) p = pending_frame (display_layers d) (op_layer oper) p"
    "op_type oper = GUAC_DISPLAY_PLAN_OPERATION_COPY \<longrightarrow> (\<forall>p \<in> rect_area (op_dest oper). opaque_pixel (target d (layer_layer l) p))"
proof -
  have s: "display_inv d" "frame_changes_ok d" "copies_fit L d" "frame_flushed L d ops d' f" using set by (simp_all add: plan_setting_def)
  obtain l l' where l: "l \<in> set (display_layers d)" "flushed l l'" "layer_of (display_layers d') (op_layer oper) = Some l'"
    "op_layer oper = layer_number l" "\<not> guac_rect_is_empty (layer_dirty l)"
    "inside (op_dest oper) (layer_pending_frame l)" "op_type oper = GUAC_DISPLAY_PLAN_OPERATION_COPY \<longrightarrow> may_copy d"
    by (rule flushed_op [OF s(1, 4) o])
  have "plan_sound (pending_frame (display_layers d)) L ops" using s(3, 4) by (simp add: frame_flushed_def)
  then have w: "op_wf oper" "op_correct (pending_frame (display_layers d)) L oper" using o by (auto simp: plan_sound_def list_all_iff)
  have "opaque_pixel (target d (layer_layer l) (x, y))"
    if c: "op_type oper = GUAC_DISPLAY_PLAN_OPERATION_COPY" and q: "(x, y) \<in> rect_area (op_dest oper)" for x y
  proof -
    have "holds_cell (layer_pending_frame l)" using w(1) c l(6) by (auto simp: op_wf_def inside_def on_screen_def holds_cell_def)
    then have "solid l (layer_pending_frame l)" using s(2) l(1, 5, 7) c by (auto simp: frame_changes_ok_def may_copy_def)
    then have "opaque_pixel (visible l (rows_of (layer_pending_frame l) ! nat y ! nat x))"
      using solid_visible dest_pixels(2) [OF l(6) q] by blast
    then show ?thesis by (simp only: target_layer(2) [OF set l(1)])
  qed
  then show thesis using l w flushed_fields(2) [OF l(2)] target_layer(1) [OF set l(1)]
    by (intro that [of l]) auto
qed

lemma cheap_draws:
  assumes set: "plan_setting blend L d ops d' f" and o: "oper \<in> set ops" "op_type oper \<noteq> GUAC_DISPLAY_PLAN_OPERATION_IMG"
    "op_type oper \<noteq> GUAC_DISPLAY_PLAN_OPERATION_NOP"
  shows "draws blend (view_ready (kept_buffers d) L) (target d) (op_area (drawn_layer d' oper) oper) (op_drawings (drawn_layer d' oper) oper)"
proof -
  let ?l = "drawn_layer d' oper" and ?P = "pending_frame (display_layers d)"
  obtain l where l: "l \<in> set (display_layers d)" "flushed l ?l" "op_layer oper = layer_number l" "layer_layer ?l = layer_layer l"
    "op_wf oper" "op_correct ?P L oper" "\<forall>p. target d (layer_layer l) p = ?P (op_layer oper) p"
    "op_type oper = GUAC_DISPLAY_PLAN_OPERATION_COPY \<longrightarrow> (\<forall>p \<in> rect_area (op_dest oper). opaque_pixel (target d (layer_layer l) p))"
    by (rule setting_op [OF set o(1)])
  have b: "compositing blend" and L: "\<And>n p. n \<notin> kept_buffers d \<Longrightarrow> L n p = 0" using set unfolding plan_setting_def by blast+
  show ?thesis
  proof (cases "op_type oper")
    case GUAC_DISPLAY_PLAN_OPERATION_COPY
    have "(rect_left (op_dest oper), rect_top (op_dest oper)) \<in> rect_area (op_dest oper)"
      using l(5) by (auto simp: op_wf_def on_screen_def rect_area_def box_def)
    then have "opaque_pixel (?P (op_layer oper) (rect_left (op_dest oper), rect_top (op_dest oper)))"
      "?P (op_layer oper) (rect_left (op_dest oper), rect_top (op_dest oper)) =
        L (op_src_layer oper) (rect_left (op_src_rect oper), rect_top (op_src_rect oper))"
      using l(6-8) GUAC_DISPLAY_PLAN_OPERATION_COPY by (fastforce simp: op_correct_def)+
    then have "op_src_layer oper \<in> kept_buffers d" using L by (fastforce simp: opaque_pixel_def)
    then show ?thesis using l GUAC_DISPLAY_PLAN_OPERATION_COPY by (intro copy_draws [OF b _ l(5, 6)]) auto
  next
    case GUAC_DISPLAY_PLAN_OPERATION_RECT
    have "opaque_pixel (?P (op_layer oper) p)" if "layer_opaque ?l" for p
    proof (cases p)
      case (Pair x y)
      then show ?thesis using that flushed_fields(3) [OF l(2)] visible_opaque target_layer(2) [OF set l(1), of x y] l(7) by simp
    qed
    then show ?thesis using l GUAC_DISPLAY_PLAN_OPERATION_RECT by (intro rect_draws [OF b _ l(5, 6)]) auto
  qed (use o in simp_all)
qed

text \<open>No operation draws to a buffer that keeps a last frame.\<close>

lemma op_area_apart:
  assumes set: "plan_setting blend L d ops d' f" and o: "oper \<in> set ops" and n: "n \<in> kept_buffers d"
  shows "(- int n - 1, p) \<notin> op_area (drawn_layer d' oper) oper"
proof -
  obtain l where l: "l \<in> set (display_layers d)" "layer_layer (drawn_layer d' oper) = layer_layer l" by (rule setting_op [OF set o])
  obtain l' where "l' \<in> set (all_layers d)" "n = layer_last_frame_buffer l'" using n by blast
  then show ?thesis using buffer_indices(1) [of d l l'] l set by (auto simp: op_area_def plan_setting_def)
qed

lemma image_op:
  fixes e :: encoder
  assumes set: "plan_setting blend L d ops d' f" and o: "oper \<in> set ops" "op_type oper = GUAC_DISPLAY_PLAN_OPERATION_IMG"
  defines "gs \<equiv> groups_of (worker_op e (display_layers d')) oper"
  shows "groups_area gs = op_area (drawn_layer d' oper) oper" "groups_ok blend (kept_buffers d) L (target d) gs"
    and "gs = [g] \<Longrightarrow> (j, p) \<in> image_area g \<Longrightarrow> opaque_pixel (target d j p)"
proof -
  let ?l = "drawn_layer d' oper"
  obtain l where l: "l \<in> set (display_layers d)" "flushed l ?l" "layer_of (display_layers d') (op_layer oper) = Some ?l"
    "inside (op_dest oper) (layer_pending_frame l)" "layer_layer ?l = layer_layer l" by (rule setting_op [OF set o(1)])
  have b: "compositing blend" and rep: "reported l" using set l(1) by (simp_all add: plan_setting_def frame_changes_ok_def)
  note fields = flushed_fields [OF l(2)]
  have sf: "same_frame (layer_last_frame ?l) (layer_pending_frame l)" by (rule flushed_same [OF l(2) rep])
  have i: "inside (op_dest oper) (layer_last_frame ?l)" "state_ok (layer_last_frame ?l)"
    using l(4) sf fields(6) by (simp_all add: inside_def same_frame_def layer_inv_def)
  have "target d (layer_layer ?l) (x, y) = visible ?l (rows_of (layer_last_frame ?l) ! nat y ! nat x)"
    if "(x, y) \<in> rect_area (op_dest oper)" for x y
    using target_layer(2) [OF set l(1), of x y] dest_pixels(1) [OF l(4) that] sf fields(3) l(5) by (simp add: same_frame_def visible_def)
  then have t: "\<forall>(x, y) \<in> rect_area (op_dest oper). target d (layer_layer ?l) (x, y) = visible ?l (rows_of (layer_last_frame ?l) ! nat y ! nat x)"
    by auto
  obtain g where g: "worker_op e (display_layers d') oper =
      Inr ((if layer_opaque ?l then [] else [guac_display_layer_clear_non_opaque ?l (op_dest oper)]) @ [g])"
    "image_area g = op_area ?l oper"
    "\<forall>v. painted (\<lambda>j p. blend GUAC_COMP_OVER (target d j p) (view_pixel v j p)) (image_area g) v (show_drawings blend g v)"
    by (rule image_groups [where T = "target d", OF o(2) l(3) i t])
  have gs: "gs = (if layer_opaque ?l then [] else [guac_display_layer_clear_non_opaque ?l (op_dest oper)]) @ [g]"
    using g(1) by (simp add: gs_def groups_of_def)
  show area: "groups_area gs = op_area ?l oper" using gs g(2) by (simp add: groups_area_def)
  have "on_screen (op_dest oper)" using l(4) by (simp add: inside_def)
  then have "painted (\<lambda>_ _. 0) (image_area g) v (show_drawings blend (guac_display_layer_clear_non_opaque ?l (op_dest oper)) v)"
    if "\<not> layer_opaque ?l" "view_ready (kept_buffers d) L v" for v
    using clear_paints [OF b that(1)] that(2) g(2) by (simp add: view_ready_def op_area_def)
  then show "groups_ok blend (kept_buffers d) L (target d) gs"
    using gs g(3) area op_area_apart [OF set o(1)] by (auto simp: groups_ok_def draws_image_def)
  show "opaque_pixel (target d j p)" if s: "gs = [g']" "(j, p) \<in> image_area g'" for g' j p
  proof -
    have "layer_opaque ?l" "g' = g" using s(1) gs by (auto split: if_splits)
    moreover obtain x y where "p = (x, y)" by (cases p)
    ultimately show ?thesis using s(2) g(2) target_layer(2) [OF set l(1), of x y] l(5) fields(3) visible_opaque by (auto simp: op_area_def)
  qed
qed

lemma filter_length_mono: "(\<And>x. x \<in> set xs \<Longrightarrow> P x \<Longrightarrow> Q x) \<Longrightarrow> length (filter P xs) \<le> length (filter Q xs)"
  by (induction xs) (auto simp: le_Suc_eq)

text \<open>Where a pixel is neither fully opaque nor fully transparent, at most one image is drawn.\<close>

lemma few_images:
  assumes set: "plan_setting blend L d ops d' f" and imgs: "imgs = filter (\<lambda>oper. op_type oper = GUAC_DISPLAY_PLAN_OPERATION_IMG) ops"
  shows "crisp (target d j p) \<or> length (filter (\<lambda>oper. (j, p) \<in> op_area (drawn_layer d' oper) oper) imgs) \<le> 1"
proof (cases "\<exists>oper \<in> set imgs. (j, p) \<in> op_area (drawn_layer d' oper) oper")
  case True
  then obtain oper where o: "oper \<in> set ops" "(j, p) \<in> op_area (drawn_layer d' oper) oper" unfolding imgs by auto
  obtain l where l: "l \<in> set (display_layers d)" "op_layer oper = layer_number l" "\<not> guac_rect_is_empty (layer_dirty l)"
    "inside (op_dest oper) (layer_pending_frame l)" "layer_layer (drawn_layer d' oper) = layer_layer l" by (rule setting_op [OF set o(1)])
  obtain x y where p: "p = (x, y)" by (cases p)
  have j: "j = layer_layer l" "(x, y) \<in> rect_area (op_dest oper)" using o(2) l(5) p by (auto simp: op_area_def)
  note t = target_layer(2) [OF set l(1), of x y] dest_pixels(2) [OF l(4) j(2)]
  have "layer_opaque l \<or> length (layer_cells l) \<le> 1 \<or> (\<forall>q \<in> state_pixels (layer_pending_frame l). crisp q)"
    using set l(1, 3) by (auto simp: plan_setting_def frame_changes_ok_def)
  then show ?thesis
  proof (elim disjE)
    assume one: "length (layer_cells l) \<le> 1"
    have "layer_number l = op_layer oper'" if o': "oper' \<in> set ops" "(j, p) \<in> op_area (drawn_layer d' oper') oper'" for oper'
    proof -
      obtain k where k: "k \<in> set (display_layers d)" "op_layer oper' = layer_number k" "layer_layer (drawn_layer d' oper') = layer_layer k"
        by (rule setting_op [OF set o'(1)])
      then have "layer_layer k = layer_layer l" using o'(2) j(1) by (auto simp: op_area_def)
      then have "k = l" using set l(1) k(1) by (auto simp: plan_setting_def frame_changes_ok_def distinct_map dest: inj_onD)
      then show ?thesis using k by simp
    qed
    then have "length (filter (\<lambda>oper. (j, p) \<in> op_area (drawn_layer d' oper) oper) imgs) \<le> length (filter (\<lambda>oper. layer_number l = op_layer oper) ops)"
      unfolding imgs filter_filter by (intro filter_length_mono) auto
    also have "\<dots> = count_list (map op_layer ops) (layer_number l)" by (simp add: count_list_eq_length_filter filter_map comp_def)
    also have "\<dots> \<le> 1" using set l(1) one by (fastforce simp: plan_setting_def frame_flushed_def)
    finally show ?thesis ..
  qed (use t j p visible_opaque in \<open>auto simp: crisp_def visible_def opaque_pixel_def or.assoc\<close>)
qed (auto simp: filter_empty_conv)

lemma plan_drawn:
  assumes set: "plan_setting blend L d ops d' f" and v: "view_ready (kept_buffers d) L v"
    and gs: "merges (mset (map (groups_of (worker_op e (display_layers d'))) (flush_queued f))) gs"
  defines "drawings \<equiv> concat (map (\<lambda>oper. op_drawings (drawn_layer d' oper) oper) ops) @ concat gs"
  obtains A where "painted (target d) A v (show_drawings blend drawings v)" "view_ready (kept_buffers d) L (show_drawings blend drawings v)"
    "\<forall>l \<in> set (display_layers d). {layer_layer l} \<times> changed l \<subseteq> A"
proof -
  let ?T = "target d" and ?ready = "view_ready (kept_buffers d) L" and ?q = "flush_queued f"
  let ?nop = "\<lambda>oper. op_type oper = GUAC_DISPLAY_PLAN_OPERATION_NOP" and ?img = "\<lambda>oper. op_type oper = GUAC_DISPLAY_PLAN_OPERATION_IMG"
  let ?groups = "groups_of (worker_op e (display_layers d'))" and ?area = "\<lambda>oper. op_area (drawn_layer d' oper) oper"
  define M where "M = mset (map ?groups ?q)"
  have b: "compositing blend" and queued: "filter (\<lambda>oper. \<not> ?nop oper) ?q = filter ?img ops"
    and covered: "\<forall>l \<in> set (display_layers d). changed l \<subseteq> drawn ops (layer_number l)"
    using set by (simp_all add: plan_setting_def frame_flushed_def)
  define xs where "xs = map (\<lambda>oper. (if ?nop oper \<or> ?img oper then {} else ?area oper, op_drawings (drawn_layer d' oper) oper)) ops"
  define A where "A = \<Union> (fst ` set xs)"
  have apart: "\<forall>n \<in> kept_buffers d. \<forall>p. (- int n - 1, p) \<notin> A" using op_area_apart [OF set] by (auto simp: A_def xs_def)
  have cheap: "draws blend ?ready ?T A (concat (map snd xs))"
    unfolding A_def
  proof (rule draws_concat)
    show "\<forall>(A, ds) \<in> set xs. draws blend ?ready ?T A ds"
      using cheap_draws [OF set] by (auto simp: xs_def op_drawings_def draws_def painted_def)
    show "?ready v'" if "?ready v" "B \<subseteq> \<Union> (fst ` set xs)" "painted ?T B v v'" for v v' B
      by (rule view_ready_painted [OF that(1, 3)]) (use that(2) apart in \<open>unfold A_def, blast\<close>)
  qed
  let ?v = "show_drawings blend (concat (map snd xs)) v"
  have p1: "painted ?T A v ?v" using cheap v by (simp add: draws_def)
  have r1: "?ready ?v" by (rule view_ready_painted [OF v p1 apart])
  have none: "?groups oper = []" if "?nop oper" for oper using that by (simp add: groups_of_def worker_op_def)
  have mem: "oper \<in> set ops \<and> ?img oper" if "oper \<in> set ?q" "\<not> ?nop oper" for oper
    using that arg_cong [OF queued, of set] by auto
  define B where "B = (\<Union>ys \<in> set_mset M. groups_area ys)"
  have apart2: "\<forall>n \<in> kept_buffers d. \<forall>p. (- int n - 1, p) \<notin> B"
  proof -
    have "(- int n - 1, p) \<notin> groups_area (?groups oper)" if "n \<in> kept_buffers d" "oper \<in> set ?q" for n p oper
      using none image_op(1) [OF set, where oper = oper and e = e] mem [of oper] op_area_apart [OF set, of oper n p] that by (cases "?nop oper") auto
    then show ?thesis by (auto simp: B_def M_def)
  qed
  have p2: "painted ?T B ?v (show_drawings blend (concat gs) ?v)"
    unfolding B_def
  proof (rule merges_paint [OF gs [folded M_def] b _ r1])
    show "\<forall>ys \<in># M. groups_ok blend (kept_buffers d) L ?T ys"
    proof
      fix ys assume "ys \<in># M"
      then obtain oper where o: "oper \<in> set ?q" "ys = ?groups oper" by (auto simp: M_def)
      show "groups_ok blend (kept_buffers d) L ?T ys"
        using o image_op(2) [OF set, where oper = oper and e = e] mem [of oper] none [of oper] by (cases "?nop oper") (auto simp: groups_ok_def)
    qed
    show "\<forall>g. [g] \<in># M \<longrightarrow> (\<forall>j p. (j, p) \<in> image_area g \<longrightarrow> blend GUAC_COMP_OVER (?T j p) (view_pixel ?v j p) = ?T j p)"
    proof (intro allI impI)
      fix g j p assume g: "[g] \<in># M" "(j, p) \<in> image_area g"
      then obtain oper where o: "oper \<in> set ?q" "?groups oper = [g]" by (auto simp: M_def)
      then have "oper \<in> set ops" "?img oper" using none mem by force+
      then have "opaque_pixel (?T j p)" using image_op(3) [OF set _ _ o(2)] g(2) by blast
      then show "blend GUAC_COMP_OVER (?T j p) (view_pixel ?v j p) = ?T j p" using b by (simp add: compositing_def)
    qed
    show "\<forall>j p. crisp (?T j p) \<or> size {#ys \<in># M. (j, p) \<in> groups_area ys#} \<le> 1"
    proof (intro allI)
      fix j p
      have "size {#ys \<in># M. (j, p) \<in> groups_area ys#} = length (filter (\<lambda>oper. (j, p) \<in> groups_area (?groups oper)) ?q)"
        unfolding M_def mset_filter [symmetric] size_mset by (simp add: filter_map comp_def)
      also have "filter (\<lambda>oper. (j, p) \<in> groups_area (?groups oper)) ?q =
          filter (\<lambda>oper. (j, p) \<in> groups_area (?groups oper)) (filter (\<lambda>oper. \<not> ?nop oper) ?q)"
        unfolding filter_filter by (rule filter_cong) (auto simp: none)
      also have "\<dots> = filter (\<lambda>oper. (j, p) \<in> ?area oper) (filter ?img ops)"
        unfolding queued by (rule filter_cong) (use image_op(1) [OF set] in auto)
      finally show "crisp (?T j p) \<or> size {#ys \<in># M. (j, p) \<in> groups_area ys#} \<le> 1" using few_images [OF set refl, of j p] by simp
    qed
  qed
  have "concat (map snd xs) @ concat gs = drawings" by (simp add: xs_def drawings_def comp_def)
  then have shown: "show_drawings blend drawings v = show_drawings blend (concat gs) ?v" by (metis show_drawings_append)
  show thesis
  proof (rule that)
    show "painted ?T (A \<union> B) v (show_drawings blend drawings v)" unfolding shown by (rule painted_trans [OF p1 p2])
    show "?ready (show_drawings blend drawings v)" unfolding shown by (rule view_ready_painted [OF r1 p2 apart2])
    have "(layer_layer l, p) \<in> A \<union> B" if l: "l \<in> set (display_layers d)" "p \<in> changed l" for l p
    proof -
      have "p \<in> drawn ops (layer_number l)" using covered l by blast
      then obtain oper where o: "oper \<in> set ops" "\<not> ?nop oper" "op_layer oper = layer_number l" "p \<in> rect_area (op_dest oper)"
        using nth_mem by (auto simp: drawn_def live_def)
      obtain k where k: "k \<in> set (display_layers d)" "op_layer oper = layer_number k" "layer_layer (drawn_layer d' oper) = layer_layer k"
        by (rule setting_op [OF set o(1)])
      have "k = l" using set k(1, 2) l(1) o(3) display_inv_distinct by (auto simp: plan_setting_def distinct_map dest: inj_onD)
      then have in_area: "(layer_layer l, p) \<in> ?area oper" using k(3) o(4) by (simp add: op_area_def)
      show ?thesis
      proof (cases "?img oper")
        case True
        then have "oper \<in> set ?q" using o(1) arg_cong [OF queued, of set] by auto
        then show ?thesis using in_area image_op(1) [OF set o(1) True, where e = e] by (auto simp: B_def M_def)
      next
        case False
        then show ?thesis using in_area o(1, 2) by (auto simp: A_def xs_def)
      qed
    qed
    then show "\<forall>l \<in> set (display_layers d). {layer_layer l} \<times> changed l \<subseteq> A \<union> B" by blast
  qed
qed

text \<open>Layers of a frame that has been flushed, and the frame that they showed before.\<close>

lemma flushed_dirty:
  assumes "flushed l l'"
  shows "changed l \<subseteq> rect_area (layer_last_dirty l')"
    "on_screen (layer_last_dirty l') \<or> guac_rect_is_empty (layer_last_dirty l')"
proof -
  obtain l2 where l2: "plan_kept l l2" "completed l2 l'" using assms(1) by (auto simp: flushed_def)
  show "changed l \<subseteq> rect_area (layer_last_dirty l')" using l2 by (simp add: plan_kept_def completed_def)
  show "on_screen (layer_last_dirty l') \<or> guac_rect_is_empty (layer_last_dirty l')"
  proof (cases "guac_rect_is_empty (layer_dirty l2)")
    case True
    then have "rect_area (layer_last_dirty l') = {}" using l2(2) by (simp add: completed_def rect_empty_area)
    then have "(rect_left (layer_last_dirty l'), rect_top (layer_last_dirty l')) \<notin> rect_area (layer_last_dirty l')" by simp
    then show ?thesis by (auto simp: rect_area_def box_def guac_rect_is_empty_def)
  next
    case False
    then show ?thesis using l2 by (auto simp: completed_def plan_kept_def)
  qed
qed

text \<open>What a layer shows before the plan is drawn, where nothing has changed.\<close>

lemma unchanged_pixel:
  assumes "reported l" "(x, y) \<in> box 0 0 (state_width (layer_pending_frame l)) (state_height (layer_pending_frame l))" "(x, y) \<notin> changed l"
  shows "(x, y) \<in> box 0 0 (state_width (layer_last_frame l)) (state_height (layer_last_frame l))"
    "rows_of (layer_last_frame l) ! nat y ! nat x = rows_of (layer_pending_frame l) ! nat y ! nat x"
  using reported_changed [OF assms] assms(2) by (auto simp: differs_def box_def)

lemma flushed_pixel:
  assumes "flushed l l'" "(x, y) \<in> box 0 0 (state_width (layer_last_frame l')) (state_height (layer_last_frame l'))" "reported l"
  shows "(x, y) \<in> box 0 0 (state_width (layer_pending_frame l)) (state_height (layer_pending_frame l))"
    "visible l' (rows_of (layer_last_frame l') ! nat y ! nat x) = visible l (rows_of (layer_pending_frame l) ! nat y ! nat x)"
  using flushed_fields(3) [OF assms(1)] flushed_same [OF assms(1, 3)] assms(2) by (auto simp: same_frame_def visible_def)

lemma worker_op_nop: "op_type oper = GUAC_DISPLAY_PLAN_OPERATION_NOP \<Longrightarrow> groups_of (worker_op e layers) oper = []"
  by (simp add: groups_of_def worker_op_def)

lemma worker_idle_start: "(worker_step n process frame_end)\<^sup>*\<^sup>* (worker_start []) s \<Longrightarrow> s = worker_start []"
  by (erule converse_rtranclpE) (auto simp: worker_start_def elim: worker_stepE)

text \<open>The groups that the threads have sent, and the frame ends that follow them.\<close>

lemma worker_sent:
  assumes run: "(worker_step n (worker_op e layers) frame_end)\<^sup>*\<^sup>* (worker_start queued) s" "idle s"
  obtains gs where "ws_sent s = concat gs @ concat (replicate (ws_ended s) frame_end)" "queued \<noteq> [] \<longrightarrow> 0 < ws_ended s"
    "merges (mset (map (groups_of (worker_op e layers)) queued)) gs" "\<not> ws_in_progress s"
proof (cases "queued = []")
  case True
  then have "s = worker_start []" using worker_idle_start run by blast
  then show thesis using True by (intro that [of "[]"]) (simp_all add: worker_start_def merges_Nil)
next
  case False
  show thesis by (rule worker_run [OF run False worker_op_nop]) (auto intro: that)
qed

lemma frame_in_sync:
  assumes b: "compositing blend" and inv: "display_inv d" and v: "in_sync v d" and ok: "frame_changes_ok d"
    and fl: "frame_flushed (kept_frame v d) d ops d' f"
    and run: "(worker_step n (worker_op e (display_layers d')) (end_of_frame t d'))\<^sup>*\<^sup>* (worker_start (flush_queued f)) s" "idle s"
  shows "in_sync (show_drawings blend (flush_sent f @ ws_sent s) v) d'"
proof -
  let ?ls = "display_layers d" and ?ls' = "display_layers d'" and ?L = "kept_frame v d"
  define bufs where "bufs = kept_buffers d"
  obtain gs where gs: "ws_sent s = concat gs @ concat (replicate (ws_ended s) (end_of_frame t d'))" "flush_queued f \<noteq> [] \<longrightarrow> 0 < ws_ended s"
    "merges (mset (map (groups_of (worker_op e ?ls')) (flush_queued f))) gs"
    by (rule worker_sent [OF run])
  have idx: "distinct (map layer_layer ?ls)" using ok by (simp add: frame_changes_ok_def)
  note f = fl [unfolded frame_flushed_def]
  define v1 where "v1 = show_drawings blend (concat (map size_change ?ls)) v"
  let ?ds = "concat (map (\<lambda>oper. op_drawings (the (layer_of ?ls' (op_layer oper))) oper) ops) @ concat gs"
  define v2 where "v2 = show_drawings blend ?ds v1"
  have sent: "show_drawings blend (flush_sent f @ ws_sent s) v = show_drawings blend (concat (replicate (ws_ended s) (end_of_frame t d'))) v2"
  proof -
    have "show_drawings blend (flush_sent f) v = show_drawings blend (filter graphical (flush_sent f)) v" by (simp only: show_graphical)
    then show ?thesis using f by (simp add: v2_def v1_def gs(1))
  qed
  have v1: "view_path v1 = view_path v" "\<And>n p. n \<in> bufs \<Longrightarrow> view_pixel v1 (- int n - 1) p = view_pixel v (- int n - 1) p"
    "\<And>l p. l \<in> set ?ls \<Longrightarrow> p \<in> box 0 0 (state_width (layer_pending_frame l)) (state_height (layer_pending_frame l)) \<Longrightarrow>
      view_pixel v1 (layer_layer l) p = view_pixel v (layer_layer l) p"
  proof -
    show "view_path v1 = view_path v" by (simp add: v1_def size_changes_path)
    show "view_pixel v1 (- int n - 1) p = view_pixel v (- int n - 1) p" if "n \<in> bufs" for n p
      unfolding v1_def by (rule size_changes) (use that buffer_indices(1) [OF inv] in \<open>fastforce simp: bufs_def\<close>)
    show "view_pixel v1 (layer_layer l) p = view_pixel v (layer_layer l) p"
      if "l \<in> set ?ls" "p \<in> box 0 0 (state_width (layer_pending_frame l)) (state_height (layer_pending_frame l))" for l p
      unfolding v1_def by (rule size_changes) (use that idx in \<open>auto simp: distinct_map dest: inj_onD\<close>)
  qed
  have r1: "view_ready bufs ?L v1" using v1(1, 2) v by (simp add: view_ready_def in_sync_def kept_frame_def bufs_def)
  have set: "plan_setting blend ?L d ops d' f"
    using b inv ok fl kept_fits [OF v ok] by (simp add: plan_setting_def kept_frame_def)
  obtain A where p: "painted (target d) A v1 v2" "view_ready bufs ?L v2" "\<forall>l \<in> set ?ls. {layer_layer l} \<times> changed l \<subseteq> A"
    unfolding v2_def by (rule plan_drawn [OF set r1 [unfolded bufs_def] gs(3)]) (auto simp: bufs_def)
  note layer = flushed_from [OF fl]
  have old: "shows_layer v l" "keeps_layer v l" "reported l" if "l \<in> set ?ls" for l
    using that v ok by (auto simp: in_sync_def frame_changes_ok_def)
  have shown: "view_pixel v2 (layer_layer l) (x, y) = visible l (rows_of (layer_pending_frame l) ! nat y ! nat x)"
    if l: "l \<in> set ?ls" and q: "(x, y) \<in> box 0 0 (state_width (layer_pending_frame l)) (state_height (layer_pending_frame l))" for l x y
  proof (cases "(layer_layer l, x, y) \<in> A")
    case True
    then show ?thesis using p(1) target_layer(2) [OF set l] by (simp add: painted_def)
  next
    case False
    then have "(x, y) \<notin> changed l" using p(3) l by blast
    from unchanged_pixel [OF old(3) [OF l] q this] show ?thesis
      using False p(1) v1(3) [OF l q] old(1) [OF l] by (simp add: painted_def shows_layer_def)
  qed
  show ?thesis unfolding sent
  proof (rule replicate_commits [OF b])
    show "on_screen (layer_last_dirty l) \<or> guac_rect_is_empty (layer_last_dirty l)" if "l \<in> set ?ls'" for l
      using layer [OF that] flushed_dirty(2) by blast
    show "\<forall>i. view_path v2 i = {}" using p(2) by (simp add: view_ready_def)
    show "\<forall>l \<in> set ?ls'. shows_layer v2 l"
    proof
      fix l' assume "l' \<in> set ?ls'"
      then obtain l where l: "l \<in> set ?ls" "flushed l l'" using layer by blast
      show "shows_layer v2 l'"
        unfolding shows_layer_def flushed_fields(2) [OF l(2)] using shown [OF l(1)] flushed_pixel [OF l(2) _ old(3) [OF l(1)]] by metis
    qed
    show "\<forall>l \<in> set ?ls'. \<forall>x y. (x, y) \<in> box 0 0 (state_width (layer_last_frame l)) (state_height (layer_last_frame l)) \<longrightarrow>
      (x, y) \<in> rect_area (layer_last_dirty l) \<and> 0 < ws_ended s \<or>
      view_pixel v2 (- int (layer_last_frame_buffer l) - 1) (x, y) = visible l (rows_of (layer_last_frame l) ! nat y ! nat x)"
    proof (intro ballI allI impI)
      fix l' x y
      assume l': "l' \<in> set ?ls'" and q: "(x, y) \<in> box 0 0 (state_width (layer_last_frame l')) (state_height (layer_last_frame l'))"
      obtain l where l: "l \<in> set ?ls" "flushed l l'" using layer [OF l'] by blast
      show "(x, y) \<in> rect_area (layer_last_dirty l') \<and> 0 < ws_ended s \<or>
        view_pixel v2 (- int (layer_last_frame_buffer l') - 1) (x, y) = visible l' (rows_of (layer_last_frame l') ! nat y ! nat x)"
      proof (cases "(x, y) \<in> changed l")
        case True
        then have "ops \<noteq> []" using f l(1) by (auto simp: drawn_def live_def)
        then show ?thesis using True f gs(2) flushed_dirty(1) [OF l(2)] by blast
      next
        case False
        note fp = flushed_pixel [OF l(2) q old(3) [OF l(1)]]
        note u = unchanged_pixel [OF old(3) [OF l(1)] fp(1) False]
        have "view_pixel v2 (- int (layer_last_frame_buffer l) - 1) (x, y) = view_pixel v (- int (layer_last_frame_buffer l) - 1) (x, y)"
          using p(2) l(1) by (simp add: view_ready_def bufs_def kept_frame_def)
        then show ?thesis
          using u old(2) [OF l(1)] fp(2) flushed_fields(4) [OF l(2)] by (simp add: keeps_layer_def)
      qed
    qed
  qed (use f in auto)
qed

text \<open>
  Removed layers are disposed of while the worker threads run. Their indices are neither drawn to
  nor read, so the place of these instructions does not matter.
\<close>

definition agree :: "int set \<Rightarrow> view \<Rightarrow> view \<Rightarrow> bool" where
  "agree R v v' \<longleftrightarrow> view_path v' = view_path v \<and> view_closed v' = view_closed v \<and> (\<forall>j. j \<notin> R \<longrightarrow> view_pixel v' j = view_pixel v j)"

fun reads_outside :: "int set \<Rightarrow> drawing \<Rightarrow> bool" where
  "reads_outside R (Draw_copy s x y w h mode d dx dy) \<longleftrightarrow> s \<notin> R"
| "reads_outside R _ \<longleftrightarrow> True"

lemma show_drawing_agree:
  assumes "agree R v v'" "reads_outside R x"
  shows "agree R (show_drawing blend x v) (show_drawing blend x v')"
  using assms by (cases x) (auto simp: agree_def paint_def)

lemma shuffled_disposals:
  assumes "zs \<in> shuffles xs (map Draw_dispose js)" "list_all (reads_outside R) xs" "set js \<subseteq> R" "agree R v v'"
  shows "agree R (show_drawings blend xs v) (show_drawings blend zs v')"
  using assms
proof (induction zs arbitrary: xs js v v')
  case (Cons z zs)
  consider x xs' where "xs = x # xs'" "z = x" "zs \<in> shuffles xs' (map Draw_dispose js)"
    | j js' where "js = j # js'" "z = Draw_dispose j" "zs \<in> shuffles xs (map Draw_dispose js')"
    using Cons.prems(1) by (cases xs; cases js) (auto simp: Cons_in_shuffles_iff)
  then show ?case
  proof cases
    case 1
    then show ?thesis using Cons.IH [OF 1(3), of _ "show_drawing blend x v'"] Cons.prems show_drawing_agree by simp
  next
    case 2
    have "agree R v (show_drawing blend z v')" using Cons.prems(3, 4) 2 by (auto simp: agree_def paint_def)
    then show ?thesis using Cons.IH [OF 2(3) Cons.prems(2)] Cons.prems(3) 2(1) by simp
  qed
qed simp

lemma in_sync_agree:
  assumes "in_sync v d" "agree R v v'" "\<forall>l \<in> set (display_layers d). layer_layer l \<notin> R"
    and "\<forall>l \<in> set (all_layers d). - int (layer_last_frame_buffer l) - 1 \<notin> R"
  shows "in_sync v' d"
  using assms unfolding in_sync_def agree_def shows_layer_def keeps_layer_def by (simp add: ball_Un)

lemma groups_read: "g \<in> set (groups_of (worker_op e layers) oper) \<Longrightarrow> list_all (reads_outside R) g"
  by (auto simp: groups_of_def worker_op_def guac_display_layer_clear_non_opaque_def
      split: sum.splits guac_display_plan_operation_type.splits option.splits if_splits)

lemma end_of_frame_read:
  assumes "\<forall>l \<in> set (all_layers d). layer_layer l \<notin> R"
  shows "list_all (reads_outside R) (end_of_frame now d)"
  using assms last_layers_mem
  by (fastforce simp: end_of_frame_def commit_layer_def Let_def list_all_iff split: option.splits)

lemma frame_in_sync_disposed:
  assumes b: "compositing blend" and inv: "display_inv d" and v: "in_sync v d" and ok: "frame_changes_ok d"
    and fl: "frame_flushed (kept_frame v d) d ops d' f"
    and run: "(worker_step n (worker_op e (display_layers d')) (end_of_frame t d'))\<^sup>*\<^sup>* (worker_start (flush_queued f)) s" "idle s"
    and ds: "ds \<in> shuffles (ws_sent s) (flush_disposed f)"
  shows "in_sync (show_drawings blend (flush_sent f @ ds) v) d'"
proof -
  let ?R = "layer_layer ` set (display_removed d)"
  have f: "display_removed d' = []"
    "flush_disposed f = map Draw_dispose (filter (\<lambda>i. i \<noteq> 0) (map layer_layer (display_removed d)))"
    using fl by (simp_all add: frame_flushed_def)
  have out: "layer_layer l \<notin> ?R" "- int (layer_last_frame_buffer l) - 1 \<notin> ?R" if l: "l \<in> set (display_layers d')" for l
  proof -
    obtain k where k: "k \<in> set (display_layers d)" "flushed k l" using flushed_from [OF fl l] by blast
    show "layer_layer l \<notin> ?R" using ok k(1) flushed_fields(2) [OF k(2)] by (auto simp: frame_changes_ok_def)
    show "- int (layer_last_frame_buffer l) - 1 \<notin> ?R"
      using buffer_indices(1) [OF inv, of _ k] k(1) flushed_fields(4) [OF k(2)] by fastforce
  qed
  obtain gs where gs: "ws_sent s = concat gs @ concat (replicate (ws_ended s) (end_of_frame t d'))"
    "merges (mset (map (groups_of (worker_op e (display_layers d'))) (flush_queued f))) gs"
    by (rule worker_sent [OF run])
  have "list_all (reads_outside ?R) g" if "g \<in> set gs" for g
    using that merges_set [OF gs(2)] groups_read by auto
  moreover have "list_all (reads_outside ?R) (end_of_frame t d')" using out(1) f(1) by (intro end_of_frame_read) simp
  ultimately have reads: "list_all (reads_outside ?R) (ws_sent s)" unfolding gs(1) by (auto simp: list_all_iff)
  let ?v = "show_drawings blend (flush_sent f) v"
  have "agree ?R ?v ?v" by (simp add: agree_def)
  from shuffled_disposals [OF ds [unfolded f(2)] reads _ this]
  have "agree ?R (show_drawings blend (ws_sent s) ?v) (show_drawings blend ds ?v)" by auto
  moreover have "in_sync (show_drawings blend (ws_sent s) ?v) d'" using frame_in_sync [OF b inv v ok fl run] by simp
  ultimately show ?thesis using in_sync_agree out f(1) by auto
qed

text \<open>Every run of the threads can be continued until they are idle.\<close>

lemma worker_step_queue:
  "worker_step n process frame_end s t \<Longrightarrow> set (ws_queue t) \<union> set (ws_waiting t) \<subseteq> set (ws_queue s) \<union> set (ws_waiting s)"
  by (induction rule: worker_step.induct) auto

lemma worker_step_room:
  "worker_step n process frame_end s t \<Longrightarrow> length (ws_queue s) \<le> GUAC_DISPLAY_WORKER_FIFO_SIZE \<Longrightarrow>
    length (ws_queue t) \<le> GUAC_DISPLAY_WORKER_FIFO_SIZE"
  by (induction rule: worker_step.induct) auto

lemma worker_finishes:
  assumes "0 < n" "\<forall>oper \<in> set (ws_queue s) \<union> set (ws_waiting s). \<exists>groups. process oper = Inr groups"
  shows "\<exists>t. (worker_step n process frame_end)\<^sup>*\<^sup>* s t \<and> idle t"
  using assms
proof (induction "work process s" arbitrary: s rule: less_induct)
  case less
  show ?case
  proof (cases "idle s")
    case False
    then obtain u where u: "worker_step n process frame_end s u" using worker_progress less.prems by blast
    from less.hyps [OF worker_step_work [OF u]] show ?thesis
      using u worker_step_queue [OF u] less.prems by (blast intro: converse_rtranclp_into_rtranclp)
  qed blast
qed

lemma worker_run_bound:
  assumes "(worker_step n process frame_end ^^ k) s t"
  shows "k + work process t \<le> work process s"
  using assms
proof (induction k arbitrary: t)
  case (Suc k)
  then obtain u where "(worker_step n process frame_end ^^ k) s u" "worker_step n process frame_end u t" by auto
  then show ?case using Suc.IH [of u] worker_step_work [of n process frame_end u t] by simp
qed simp

lemma queued_images:
  assumes inv: "display_inv d" and fl: "frame_flushed L d ops d' f" and o: "oper \<in> set (flush_queued f)"
  shows "\<exists>groups. worker_op e (display_layers d') oper = Inr groups"
proof (cases "op_type oper = GUAC_DISPLAY_PLAN_OPERATION_NOP")
  case True
  then show ?thesis by (simp add: worker_op_def)
next
  case False
  have "filter (\<lambda>oper. op_type oper \<noteq> GUAC_DISPLAY_PLAN_OPERATION_NOP) (flush_queued f) =
       filter (\<lambda>oper. op_type oper = GUAC_DISPLAY_PLAN_OPERATION_IMG) ops" using fl by (simp add: frame_flushed_def)
  from arg_cong [OF this, of set]
  have "oper \<in> set (filter (\<lambda>oper. op_type oper = GUAC_DISPLAY_PLAN_OPERATION_IMG) ops)" using o False by auto
  then have i: "oper \<in> set ops" "op_type oper = GUAC_DISPLAY_PLAN_OPERATION_IMG" by auto
  obtain l l' where l: "flushed l l'" "layer_of (display_layers d') (op_layer oper) = Some l'" "inside (op_dest oper) (layer_pending_frame l)"
    by (rule flushed_op [OF inv fl i(1)])
  have "in_rows (op_dest oper) (rows_of (layer_last_frame l'))"
    using l(3) flushed_fields(6, 7, 9) [OF l(1)] state_ok_buffer [of "layer_last_frame l'"]
    by (fastforce simp: inside_def on_screen_def layer_inv_def buffer_ok_def in_rows_def list_all_iff)
  then show ?thesis using i(2) l(2) by (simp add: worker_op_def LFR_guac_display_layer_cairo_rect_def)
qed

section \<open>Displays in use\<close>

text \<open>
  The operations of a display, in any order. A resize is to a size that the display supports (and, for
  an external buffer, that fits the buffer) and a raw context that is closed fits its layer. A frame may be
  ended at any time, with whatever has been drawn.
\<close>

definition resize_ok :: "guac_display_layer \<Rightarrow> int \<Rightarrow> int \<Rightarrow> bool" where
  "resize_ok l w h \<longleftrightarrow> extent_ok w \<and> extent_ok h \<and> (state_buffer_is_external (layer_pending_frame l) \<longrightarrow>
     w \<le> state_buffer_width (layer_pending_frame l) \<and> h \<le> state_buffer_height (layer_pending_frame l))"

inductive display_step :: "(int \<Rightarrow> int) \<Rightarrow> guac_display \<Rightarrow> guac_display \<Rightarrow> bool" for cs where
  alloc_layer: "guac_display_alloc_layer cs d is_opaque = Inr (n, d') \<Longrightarrow> display_step cs d d'"
| alloc_buffer: "guac_display_alloc_buffer cs d is_opaque = Inr (n, d') \<Longrightarrow> display_step cs d d'"
| remove_layer: "guac_display_remove_layer d n = Inr d' \<Longrightarrow> display_step cs d d'"
| move: "display_step cs d (guac_display_layer_move n x y d)"
| stack: "display_step cs d (guac_display_layer_stack n z d)"
| set_parent: "display_step cs d (guac_display_layer_set_parent n i d)"
| set_opacity: "display_step cs d (guac_display_layer_set_opacity n a d)"
| set_lossless: "display_step cs d (guac_display_layer_set_lossless n b d)"
| set_multitouch: "display_step cs d (guac_display_layer_set_multitouch n t d)"
| resize: "layer_of (display_layers d) n = Some l \<Longrightarrow> resize_ok l w h \<Longrightarrow>
    guac_display_layer_resize cs n w h d = Inr d' \<Longrightarrow> display_step cs d d'"
| close_raw: "layer_of (display_layers d) n = Some l \<Longrightarrow> context_for l context \<Longrightarrow>
    guac_display_layer_close_raw cs n context d = Inr d' \<Longrightarrow> display_step cs d d'"
| end_frames: "guac_display_end_multiple_frames users busy now frames d = Some (Inr (d', f)) \<Longrightarrow> display_step cs d d'"
| user_left: "display_step cs d (guac_display_notify_user_left user d)"
| moved_mouse: "guac_display_notify_user_moved_mouse users busy now user x y m d = Some (Inr (d', f)) \<Longrightarrow> display_step cs d d'"

text \<open>What the invariant and the conditions do not depend on.\<close>

lemma display_frames_irrelevant [simp]:
  "display_inv (d\<lparr>display_pending_frame := st\<rparr>) = display_inv d" "display_cells (d\<lparr>display_pending_frame := st\<rparr>) = display_cells d"
  "display_inv (d\<lparr>display_frame_deferred := busy\<rparr>) = display_inv d" "display_cells (d\<lparr>display_frame_deferred := busy\<rparr>) = display_cells d"
  by (simp_all add: display_inv_def display_cells_def)

lemma end_frames_ok:
  assumes "display_inv d"
  obtains "guac_display_end_multiple_frames users busy now frames d = Some (Inl Deadlock)" "GUAC_DISPLAY_WORKER_FIFO_SIZE < display_cells d"
  | d' f where "guac_display_end_multiple_frames users busy now frames d = Some (Inr (d', f))" "display_inv d'"
proof (cases busy)
  case True
  then show thesis using assms that(2) by (simp add: guac_display_end_multiple_frames_def Let_def)
next
  case False
  let ?d = "d\<lparr>display_pending_frame := (display_pending_frame d)\<lparr>frame_frames := frame_frames (display_pending_frame d) + frames\<rparr>,
          display_frame_deferred := busy\<rparr>"
  let ?img = "\<lambda>oper. op_type oper = GUAC_DISPLAY_PLAN_OPERATION_IMG"
  obtain d' f ops where fl: "flush_frame users now ?d = Some (if GUAC_DISPLAY_WORKER_FIFO_SIZE < length (filter ?img ops)
      then Inl Deadlock else Inr (d', f))" "frame_flushed (\<lambda>_ _. 0) ?d ops d' f"
    by (rule flush_frame_spec [of ?d]) (use assms in auto)
  have "length (filter ?img ops) \<le> display_cells d"
    by (rule le_trans [OF length_filter_le]) (use flushed_count [OF _ fl(2)] assms in simp)
  then show thesis using False fl that
    by (cases "GUAC_DISPLAY_WORKER_FIFO_SIZE < length (filter ?img ops)")
      (auto simp: guac_display_end_multiple_frames_def Let_def frame_flushed_def)
qed

lemma end_frames_inv:
  assumes "display_inv d" "guac_display_end_multiple_frames users busy now frames d = Some (Inr (d', f))"
  shows "display_inv d'"
  by (rule end_frames_ok [OF assms(1), of users busy now frames]) (use assms(2) in auto)

lemma end_frames_room:
  assumes "display_inv d" "display_cells d \<le> GUAC_DISPLAY_WORKER_FIFO_SIZE"
  obtains d' f where "guac_display_end_multiple_frames users busy now frames d = Some (Inr (d', f))" "display_inv d'"
  by (rule end_frames_ok [OF assms(1), of users busy now frames]) (use assms(2) in auto)

lemma end_mouse_frame_room:
  assumes "display_inv d" "display_cells d \<le> GUAC_DISPLAY_WORKER_FIFO_SIZE"
  obtains d' f where "guac_display_end_mouse_frame users busy now d = Some (Inr (d', f))" "display_inv d'"
proof (cases "display_dirty_excluding_mouse d")
  case True
  then show thesis using assms by (intro that) (auto simp: guac_display_end_mouse_frame_def)
next
  case False
  obtain d' f where "guac_display_end_multiple_frames users busy now 0 d = Some (Inr (d', f))" "display_inv d'"
    by (rule end_frames_room [OF assms])
  then show thesis using False by (intro that) (auto simp: guac_display_end_mouse_frame_def)
qed

lemma moved_mouse_inv:
  assumes "display_inv d" "guac_display_notify_user_moved_mouse users busy now user x y m d = Some (Inr (d', f))"
  shows "display_inv d'"
proof (cases "display_dirty_excluding_mouse d")
  case True
  then show ?thesis using assms by (auto simp: guac_display_notify_user_moved_mouse_def guac_display_end_mouse_frame_def)
next
  case False
  let ?d = "d\<lparr>display_pending_frame := (display_pending_frame d)\<lparr>frame_cursor_user := Some user, frame_cursor_x := x,
    frame_cursor_y := y, frame_cursor_mask := m\<rparr>\<rparr>"
  show ?thesis by (rule end_frames_inv [of ?d users busy now 0])
    (use assms False in \<open>simp_all add: guac_display_notify_user_moved_mouse_def guac_display_end_mouse_frame_def\<close>)
qed

lemma alloc_display_inv:
  assumes cs: "stride_ok cs" and p: "pool_ok (client_buffer_pool client) U" "0 \<le> active (client_layer_pool client)"
    and a: "guac_display_alloc cs now client = Inr d"
  shows "display_inv d"
proof -
  let ?s = "\<lparr>frame_timestamp = now, frame_cursor_hotspot_x = 0, frame_cursor_hotspot_y = 0, frame_cursor_user = None,
          frame_cursor_x = 0, frame_cursor_y = 0, frame_cursor_mask = 0, frame_frames = 0\<rparr>"
  let ?d = "\<lparr>display_client = client, display_last_frame = ?s, display_pending_frame = ?s, display_layers = [],
          display_removed = [], display_last_layers = [], display_next = 0, display_default_layer = 0, display_cursor_buffer = 0,
          display_dirty_excluding_mouse = False, display_frame_deferred = False\<rparr>"
  obtain m d1 n d2 where d: "guac_display_add_layer cs ?d 0 True = Inr (m, d1)" "guac_display_alloc_buffer cs d1 False = Inr (n, d2)"
    "d = d2\<lparr>display_default_layer := m, display_cursor_buffer := n\<rparr>"
    using a by (auto simp: guac_display_alloc_def Let_def split: sum.splits)
  have "display_inv ?d" using p by (auto simp: display_inv_def)
  then have "display_inv d1" using add_layer_inv [OF cs _ d(1)] by simp
  then have "display_inv d2" by (rule alloc_buffer_inv [OF cs _ d(2)])
  then show ?thesis by (simp add: d(3) display_inv_def)
qed

lemma display_step_inv:
  assumes "display_step cs d d'" "stride_ok cs" "display_inv d"
  shows "display_inv d'"
  using assms(1)
proof cases
  case (resize n l w h)
  then show ?thesis using resize_inv [OF assms(2, 3) resize(1), of w h] by (auto simp: resize_ok_def)
next
  case (close_raw n l ctx)
  then show ?thesis using close_inv [OF assms(3) close_raw(1, 2), of cs] by auto
next
  case (end_frames users busy now frames f)
  then show ?thesis by (rule end_frames_inv [OF assms(3)])
next
  case (moved_mouse users busy now user x y m f)
  then show ?thesis by (rule moved_mouse_inv [OF assms(3)])
next
  case (user_left user)
  then show ?thesis using assms(3) by (simp add: guac_display_notify_user_left_def)
next
  case alloc_layer
  then show ?thesis by (rule alloc_layer_inv [OF assms(2, 3)])
next
  case alloc_buffer
  then show ?thesis by (rule alloc_buffer_inv [OF assms(2, 3)])
next
  case remove_layer
  then show ?thesis by (rule remove_layer_inv [OF assms(3)])
qed (simp_all add: setters_inv [OF assms(3)])

lemma display_reachable_inv:
  assumes "(display_step cs)\<^sup>*\<^sup>* d d'" "stride_ok cs" "display_inv d"
  shows "display_inv d'"
  using assms by (induction rule: rtranclp_induct) (auto intro: display_step_inv)

section \<open>Properties\<close>

text \<open>A display with one opaque layer of two pixels, of which the second has changed, and its client.\<close>

definition example_client :: guac_client where
  "example_client = \<lparr>client_buffer_pool = \<lparr>min_size = 0, active = 1, next_value = 5, free_ints = [0, 1, 2, 3]\<rparr>,
     client_layer_pool = \<lparr>min_size = 0, active = 1, next_value = 1, free_ints = []\<rparr>,
     client_stream_pool = guac_pool_alloc 0, client_output_streams = []\<rparr>"

definition example_display :: guac_display where
  "example_display = (let st = \<lparr>frame_timestamp = 0, frame_cursor_hotspot_x = 0, frame_cursor_hotspot_y = 0, frame_cursor_user = None,
       frame_cursor_x = 0, frame_cursor_y = 0, frame_cursor_mask = 0, frame_frames = 0\<rparr>
     in \<lparr>display_client = example_client, display_last_frame = st, display_pending_frame = st, display_layers = [example_layer],
       display_removed = [], display_last_layers = [3], display_next = 4, display_default_layer = 3, display_cursor_buffer = 0,
       display_dirty_excluding_mouse = False, display_frame_deferred = False\<rparr>)"

definition example_view :: view where
  "example_view = \<lparr>view_pixel = \<lambda>j p. if p = (0, 0) then 0xFF000005 else 0xFF000006, view_path = \<lambda>j. {}, view_closed = \<lambda>j. {}\<rparr>"

definition example_blend :: "int \<Rightarrow> pixel \<Rightarrow> pixel \<Rightarrow> pixel" where
  "example_blend mode s d = (if mode = GUAC_COMP_OVER then (if s = 0 then d else s) else 0)"

lemma example_compositing: "compositing example_blend"
  by (auto simp: compositing_def example_blend_def opaque_pixel_def GUAC_COMP_OVER_def GUAC_COMP_ROUT_def GUAC_COMP_RATOP_def)

lemma example_display_simps [simp]:
  "display_layers example_display = [example_layer]" "display_removed example_display = []"
  "display_client example_display = example_client" "display_next example_display = 4" "display_last_layers example_display = [3]"
  by (simp_all add: example_display_def Let_def)

lemma example_layer_inv: "layer_inv example_layer"
  by (simp add: layer_inv_def state_ok_def extent_ok_def cells_wf_def example_layer_def example_state_def rows_of_def
      GUAC_DISPLAY_CELL_DIMENSION_def GUAC_DISPLAY_CELL_SIZE_def sdiv_pos rect_ok_def guac_rect_init_def coord_def)

lemma example_display_inv: "display_inv example_display"
proof -
  have "pool_ok (client_buffer_pool example_client) {4}"
    by (auto simp: pool_ok_def example_client_def)
  then show ?thesis
    unfolding display_inv_def example_display_simps using example_layer_inv
    by (auto simp: example_layer_def example_client_def layer_buffers_def)
qed

lemma pixel_cases: "(x, y) \<in> box 0 0 2 1 \<Longrightarrow> (x, y) = (0, 0) \<or> (x, y) = (1, 0)"
  by (auto simp: box_def)

lemma example_in_sync: "in_sync example_view example_display"
  unfolding in_sync_def shows_layer_def keeps_layer_def
  using pixel_cases by (fastforce simp: example_view_def example_layer_def example_state_def rows_of_def visible_def)

text \<open>
  The same display with a second layer, which has an alpha channel (like the buffer of the cursor) and the
  same change.
\<close>

definition example_cursor :: guac_display_layer where
  "example_cursor = example_layer\<lparr>layer_number := 2, layer_layer := - 1, layer_opaque := False, layer_last_frame_buffer := 1\<rparr>"

definition mixed_display :: guac_display where
  "mixed_display = example_display\<lparr>display_layers := [example_layer, example_cursor], display_last_layers := [3, 2], display_cursor_buffer := 2,
     display_client := example_client\<lparr>client_buffer_pool := \<lparr>min_size = 0, active = 3, next_value = 5, free_ints = [2, 3]\<rparr>\<rparr>\<rparr>"

definition mixed_view :: view where
  "mixed_view = \<lparr>view_pixel = \<lambda>j p. (if p = (0, 0) then 5 else 6) OR (if j = - 1 \<or> j = - 2 then 0 else 0xFF000000),
     view_path = \<lambda>j. {}, view_closed = \<lambda>j. {}\<rparr>"

lemma mixed_display_simps [simp]:
  "display_layers mixed_display = [example_layer, example_cursor]" "display_removed mixed_display = []"
  "display_next mixed_display = 4" "display_last_layers mixed_display = [3, 2]" "client_layer_pool (display_client mixed_display) = client_layer_pool example_client"
  "client_buffer_pool (display_client mixed_display) = \<lparr>min_size = 0, active = 3, next_value = 5, free_ints = [2, 3]\<rparr>"
  by (simp_all add: mixed_display_def)

lemma mixed_display_inv: "display_inv mixed_display"
proof -
  have "pool_ok (client_buffer_pool (display_client mixed_display)) {0, 1, 4}" by (auto simp: pool_ok_def)
  moreover have "layer_inv example_cursor"
    using example_layer_inv by (simp add: layer_inv_def cells_wf_def example_cursor_def)
  ultimately show ?thesis
    unfolding display_inv_def mixed_display_simps using example_layer_inv
    by (intro conjI exI [of _ "{0, 1, 4}"]) (auto simp: example_layer_def example_cursor_def example_client_def layer_buffers_def)
qed

lemma mixed_in_sync: "in_sync mixed_view mixed_display"
  unfolding in_sync_def shows_layer_def keeps_layer_def
  using pixel_cases by (fastforce simp: mixed_view_def example_layer_def example_cursor_def example_state_def rows_of_def visible_def)

lemma mixed_changes_ok: "frame_changes_ok mixed_display"
  using pixel_cases
  by (auto simp: frame_changes_ok_def reported_def example_layer_def example_cursor_def example_state_def guac_rect_init_def rect_area_def
      holds_cell_def)

lemma example_cells: "display_cells example_display \<le> GUAC_DISPLAY_WORKER_FIFO_SIZE" "display_cells mixed_display \<le> GUAC_DISPLAY_WORKER_FIFO_SIZE"
  by (simp_all add: display_cells_def fifo_size example_cursor_def) (simp_all add: example_layer_def)



text \<open>
  C4: The worker threads finish: after any frame that has been flushed, every run of at least one thread has
  at most as many steps as a measure of the queue says, from each state of a run the threads can go
  on until they are idle (the queue has its limited number of slots), and then no frame is in progress and the
  frame has been ended if anything was queued for it.
\<close>

theorem guac_display_worker_finishes:
  assumes "display_inv d" "0 < n"
    and "guac_display_end_multiple_frames users False now frames d = Some (Inr (d', f))"
    and "(worker_step n (worker_op e (display_layers d')) (end_of_frame t d') ^^ k) (worker_start (flush_queued f)) s"
  shows "k \<le> work (worker_op e (display_layers d')) (worker_start (flush_queued f)) \<and>
    length (ws_queue s) \<le> GUAC_DISPLAY_WORKER_FIFO_SIZE \<and>
    (\<exists>u. (worker_step n (worker_op e (display_layers d')) (end_of_frame t d'))\<^sup>*\<^sup>* s u \<and> idle u \<and> \<not> ws_in_progress u \<and>
      (flush_queued f \<noteq> [] \<longrightarrow> 0 < ws_ended u))"
proof -
  let ?d = "d\<lparr>display_pending_frame := (display_pending_frame d)\<lparr>frame_frames := frame_frames (display_pending_frame d) + frames\<rparr>,
          display_frame_deferred := False\<rparr>"
  let ?p = "worker_op e (display_layers d')" and ?q = "flush_queued f"
  let ?step = "worker_step n ?p (end_of_frame t d')" and ?img = "\<lambda>oper. op_type oper = GUAC_DISPLAY_PLAN_OPERATION_IMG"
  obtain ops where fl: "frame_flushed (\<lambda>_ _. 0) ?d ops d' f" "length (filter ?img ops) \<le> GUAC_DISPLAY_WORKER_FIFO_SIZE"
    by (rule flush_frame_spec [of ?d users now "\<lambda>_ _. 0"])
      (use assms(1, 3) in \<open>auto simp: guac_display_end_multiple_frames_def split: if_splits\<close>)
  have run: "?step\<^sup>*\<^sup>* (worker_start ?q) s" by (rule relpowp_imp_rtranclp [OF assms(4)])
  then have "set (ws_queue s) \<union> set (ws_waiting s) \<subseteq> set ?q"
    by (induction rule: rtranclp_induct) (auto simp: worker_start_def dest: worker_step_queue)
  then have ok: "\<forall>oper \<in> set (ws_queue s) \<union> set (ws_waiting s). \<exists>groups. ?p oper = Inr groups"
    using queued_images [OF _ fl(1), of _ e] assms(1) by auto
  have "length (ws_queue (worker_start ?q)) \<le> GUAC_DISPLAY_WORKER_FIFO_SIZE"
    using fl by (simp add: worker_start_def frame_flushed_def)
  with run have room: "length (ws_queue s) \<le> GUAC_DISPLAY_WORKER_FIFO_SIZE"
    by (induction rule: rtranclp_induct) (auto dest: worker_step_room)
  from worker_finishes [OF assms(2) ok] obtain u where u: "?step\<^sup>*\<^sup>* s u" "idle u" by blast
  obtain gs where "?q \<noteq> [] \<longrightarrow> 0 < ws_ended u" "\<not> ws_in_progress u" by (rule worker_sent [OF rtranclp_trans [OF run u(1)] u(2)])
  then show ?thesis using u room worker_run_bound [OF assms(4)] by auto
qed

theorem guac_display_worker_finishes_witness:
  "\<exists>d' f. guac_display_end_multiple_frames [] False 20 1 mixed_display = Some (Inr (d', f)) \<and>
     (\<exists>u. (worker_step 2 (worker_op \<lparr>encoder_webp = True, encoder_lag = 0\<rparr> (display_layers d')) (end_of_frame 21 d'))\<^sup>*\<^sup>*
        (worker_start (flush_queued f)) u \<and> idle u \<and> \<not> ws_in_progress u)"
proof -
  obtain d' f where e: "guac_display_end_multiple_frames [] False 20 1 mixed_display = Some (Inr (d', f))"
    by (rule end_frames_room [OF mixed_display_inv example_cells(2)])
  let ?e = "\<lparr>encoder_webp = True, encoder_lag = 0\<rparr>"
  have "(worker_step 2 (worker_op ?e (display_layers d')) (end_of_frame 21 d') ^^ 0) (worker_start (flush_queued f)) (worker_start (flush_queued f))" by simp
  from guac_display_worker_finishes [OF mixed_display_inv _ e this] e show ?thesis by auto
qed

text \<open>
  C5: In every display that the operations reach from its allocation, however they are ordered, the
  invariant holds: the buffers of all layers have the sizes they claim, the cells cover the layers, and no
  two layers share a buffer of the client. So resizing a layer to a supported size succeeds, and
  ending a frame, with whatever has been drawn, succeeds as well unless the layers have more cells than the queue of the
  worker threads has slots; then it succeeds or deadlocks.
\<close>

theorem guac_display_invariant:
  assumes "stride_ok cs" "pool_ok (client_buffer_pool client) U" "0 \<le> active (client_layer_pool client)"
    and "guac_display_alloc cs now client = Inr d0" "(display_step cs)\<^sup>*\<^sup>* d0 d"
  shows "display_inv d \<and>
    (\<forall>users busy time frames.
      (\<exists>d' f. guac_display_end_multiple_frames users busy time frames d = Some (Inr (d', f))) \<or>
      GUAC_DISPLAY_WORKER_FIFO_SIZE < display_cells d \<and>
        guac_display_end_multiple_frames users busy time frames d = Some (Inl Deadlock)) \<and>
    (\<forall>n l w h. layer_of (display_layers d) n = Some l \<longrightarrow> resize_ok l w h \<longrightarrow> (\<exists>d'. guac_display_layer_resize cs n w h d = Inr d'))"
proof -
  have i: "display_inv d" by (rule display_reachable_inv [OF assms(5, 1) alloc_display_inv [OF assms(1-4)]])
  have "(\<exists>d' f. guac_display_end_multiple_frames users busy time frames d = Some (Inr (d', f))) \<or>
      GUAC_DISPLAY_WORKER_FIFO_SIZE < display_cells d \<and>
        guac_display_end_multiple_frames users busy time frames d = Some (Inl Deadlock)" for users busy time frames
    by (rule end_frames_ok [OF i, of users busy time frames]) blast+
  moreover have "\<exists>d'. guac_display_layer_resize cs n w h d = Inr d'" if "layer_of (display_layers d) n = Some l" "resize_ok l w h" for n l w h
    using resize_inv [OF assms(1) i that(1), of w h] that(2) by (auto simp: resize_ok_def)
  ultimately show ?thesis using i by blast
qed

definition new_client :: guac_client where
  "new_client = \<lparr>client_buffer_pool = guac_pool_alloc 0, client_layer_pool = guac_pool_alloc 0,
     client_stream_pool = guac_pool_alloc 0, client_output_streams = []\<rparr>"

lemma new_display: "\<exists>d. guac_display_alloc (\<lambda>w. 4 * w) 5 new_client = Inr d"
  by (simp add: guac_display_alloc_def guac_display_add_layer_def PFW_LFW_guac_display_layer_state_init_def zero_state_def
      guac_display_alloc_buffer_def guac_client_alloc_buffer_def guac_pool_next_int_def pool_next_int_def guac_pool_alloc_def
      XFW_guac_display_layer_buffer_resize_def resize_round_def GUAC_DISPLAY_RESIZE_FACTOR_def guac_assert_def Let_def
      PFW_guac_display_layer_pending_frame_cells_resize_def GUAC_DISPLAY_CELL_DIMENSION_def GUAC_DISPLAY_CELL_SIZE_def
      INT_MAX_def sdiv_pos new_client_def)

theorem guac_display_invariant_witness:
  "\<exists>d. guac_display_alloc (\<lambda>w. 4 * w) 5 new_client = Inr d \<and> display_inv (guac_display_layer_set_lossless 0 True d)"
proof -
  obtain d where d: "guac_display_alloc (\<lambda>w. 4 * w) 5 new_client = Inr d" using new_display by blast
  have p: "stride_ok (\<lambda>w. 4 * w)" "pool_ok (client_buffer_pool new_client) {}" "0 \<le> active (client_layer_pool new_client)"
    using pool_ok_alloc by (simp_all add: stride_ok_def new_client_def guac_pool_alloc_def)
  have "(display_step (\<lambda>w. 4 * w))\<^sup>*\<^sup>* d (guac_display_layer_set_lossless 0 True d)"
    by (rule r_into_rtranclp) (rule display_step.set_lossless)
  from guac_display_invariant [OF p d this] d show ?thesis by blast
qed

lemma layer_of_update:
  assumes "\<And>l. layer_number l = n \<Longrightarrow> layer_number (f l) = n"
  shows "layer_of (map (\<lambda>l. if layer_number l = n then f l else l) ls) m = (if m = n then map_option f (layer_of ls n) else layer_of ls m)"
  by (induction ls) (auto simp: layer_of_def assms)

lemma close_raw_draws:
  assumes a: "display_inv d" "layer_of (display_layers d) n = Some l" "close_raw_layer cs l raw = Inr l1" "layer_inv l1" "same_layer l l1"
    "context_hint_from raw = Some n"
  defines "l' \<equiv> l1\<lparr>layer_pending_frame := (layer_pending_frame l1)\<lparr>state_search_for_copies := True\<rparr>\<rparr>"
  obtains d' where "guac_display_layer_close_raw cs n raw d = Inr d'" "display_inv d'" "layer_of (display_layers d') n = Some l'"
    "\<forall>m. m \<noteq> n \<longrightarrow> layer_of (display_layers d') m = layer_of (display_layers d) m"
proof -
  let ?d1 = "PFW_guac_display_layer_touch n (update_layer n (\<lambda>_. l1) d)"
  let ?d' = "update_pending n (\<lambda>st. st\<lparr>state_search_for_copies := True\<rparr>) ?d1"
  have n1: "layer_number l1 = n" using a(2, 5) layer_of_mem by (auto simp: same_layer_def)
  have "display_inv ?d1" using update_layer_inv [OF a(1, 2), of "\<lambda>_. l1"] a(4, 5) by simp
  then have inv: "display_inv ?d'" by (rule update_pending_inv) (simp add: state_ok_def)
  have one: "layer_of (display_layers ?d1) m = (if m = n then Some l1 else layer_of (display_layers d) m)" for m
    using a(2) n1 by (auto simp: PFW_guac_display_layer_touch_def update_layer_def layer_of_update)
  have two: "layer_of (display_layers ?d') m = (if m = n then map_option (\<lambda>l. l\<lparr>layer_pending_frame :=
      (layer_pending_frame l)\<lparr>state_search_for_copies := True\<rparr>\<rparr>) (layer_of (display_layers ?d1) n) else layer_of (display_layers ?d1) m)" for m
    by (subst update_pending_def, subst update_layer_def) (simp add: layer_of_update)
  show thesis by (rule that [of ?d']) (use a(2, 3, 6) inv one two in \<open>simp_all add: guac_display_layer_close_raw_def l'_def Let_def\<close>)
qed

text \<open>
  C6: Opening a layer, putting an image into its raw context and closing it changes the pending frame of
  this layer to the image within the rectangle and to nothing else, keeps the invariant of the display, and
  reports the change: if all earlier changes were reported, all changes are.
\<close>

theorem guac_display_layer_put_reported:
  assumes "display_inv d" "layer_of (display_layers d) n = Some l" "\<not> state_buffer_is_external (layer_pending_frame l)"
    and "inside dst (layer_pending_frame l)"
    and "rect_bottom dst - rect_top dst \<le> int (length src)" "\<forall>row \<in> set src. rect_right dst - rect_left dst \<le> int (length row)"
  shows "\<exists>raw d' l'. guac_display_layer_raw_context_put (guac_display_layer_open_raw l) dst src = Inr raw \<and>
    guac_display_layer_close_raw cs n raw d = Inr d' \<and> display_inv d' \<and> layer_of (display_layers d') n = Some l' \<and>
    (\<forall>x y. (x, y) \<in> box 0 0 (state_width (layer_pending_frame l)) (state_height (layer_pending_frame l)) \<longrightarrow>
      rows_of (layer_pending_frame l') ! nat y ! nat x =
        (if (x, y) \<in> rect_area dst then src ! nat (y - rect_top dst) ! nat (x - rect_left dst) else rows_of (layer_pending_frame l) ! nat y ! nat x)) \<and>
    (\<forall>m. m \<noteq> n \<longrightarrow> layer_of (display_layers d') m = layer_of (display_layers d) m) \<and>
    (reported l \<longrightarrow> reported l')"
proof -
  let ?st = "layer_pending_frame l"
  have l: "layer_inv l" "layer_number l = n" using assms(1, 2) by (auto simp: display_inv_def list_all_iff layer_of_def find_Some_iff)
  obtain rows where rows: "state_buffer ?st = Some rows" "state_buffer_height ?st \<le> int (length rows)"
    "\<forall>row \<in> set rows. state_buffer_width ?st \<le> int (length row)" using l(1) by (auto simp: layer_inv_def state_ok_def)
  have size: "state_width ?st \<le> state_buffer_width ?st" "state_height ?st \<le> state_buffer_height ?st" "state_width ?st \<le> 8192" "state_height ?st \<le> 8192"
    using l(1) by (auto simp: layer_inv_def state_ok_def extent_ok_def)
  have dst: "on_screen dst" "in_rows dst rows"
    using assms(4) rows size by (fastforce simp: inside_def on_screen_def in_rows_def list_all_iff)+
  obtain raw where raw: "guac_display_layer_raw_context_put (guac_display_layer_open_raw l) dst src = Inr raw"
    "drew (guac_display_layer_open_raw l) dst (\<lambda>x y. src ! nat (y - rect_top dst) ! nat (x - rect_left dst)) raw"
    by (rule raw_put_drew [of "guac_display_layer_open_raw l" rows, OF _ dst(2, 1) assms(5, 6)])
      (simp_all add: guac_display_layer_open_raw_def rows Let_def)
  have r: "rect_ok dst" "\<not> guac_rect_is_empty dst" using assms(4) size
    by (auto simp: inside_def on_screen_def rect_ok_def coord_def guac_rect_is_empty_def)
  obtain l1 where l1: "close_raw_layer cs l raw = Inr l1" "layer_inv l1" "same_layer l l1"
    "\<forall>x y. (x, y) \<in> box 0 0 (state_width ?st) (state_height ?st) \<longrightarrow> rows_of (layer_pending_frame l1) ! nat y ! nat x =
      (if (x, y) \<in> rect_area dst then src ! nat (y - rect_top dst) ! nat (x - rect_left dst) else rows_of ?st ! nat y ! nat x)"
    "reported l \<longrightarrow> reported l1"
    by (rule draw_layer [OF l(1) assms(3) raw(2) r]) blast
  have hint: "context_hint_from raw = Some n" using raw(2) l(2) by (auto simp: drew_def guac_display_layer_open_raw_def Let_def)
  obtain d' where d': "guac_display_layer_close_raw cs n raw d = Inr d'" "display_inv d'"
    "layer_of (display_layers d') n = Some (l1\<lparr>layer_pending_frame := (layer_pending_frame l1)\<lparr>state_search_for_copies := True\<rparr>\<rparr>)"
    "\<forall>m. m \<noteq> n \<longrightarrow> layer_of (display_layers d') m = layer_of (display_layers d) m"
    by (rule close_raw_draws [OF assms(1, 2) l1(1-3) hint])
  show ?thesis using raw(1) d' l1(4, 5) by (intro exI [of _ raw] exI [of _ d'] exI conjI [OF raw(1)] conjI [OF d'(1)] conjI [OF d'(2)] conjI [OF d'(3)])
    (auto simp: rows_of_def reported_def differs_def)
qed

theorem guac_display_layer_put_reported_witness:
  "\<exists>raw d' l'. guac_display_layer_raw_context_put (guac_display_layer_open_raw example_layer) (guac_rect_init 1 0 1 1) [[9]] = Inr raw \<and>
    guac_display_layer_close_raw (\<lambda>w. 4 * w) 3 raw example_display = Inr d' \<and> layer_of (display_layers d') 3 = Some l' \<and>
    rows_of (layer_pending_frame l') ! 0 ! 1 = 9"
proof -
  have a: "layer_of (display_layers example_display) 3 = Some example_layer" "\<not> state_buffer_is_external (layer_pending_frame example_layer)"
    "inside (guac_rect_init 1 0 1 1) (layer_pending_frame example_layer)"
    by (simp_all add: layer_of_def example_layer_def example_state_def inside_def on_screen_def guac_rect_init_def)
  have b: "(1, 0) \<in> box 0 0 (state_width (layer_pending_frame example_layer)) (state_height (layer_pending_frame example_layer))"
    "(1, 0) \<in> rect_area (guac_rect_init 1 0 1 1)"
    by (simp_all add: example_layer_def example_state_def guac_rect_init_def rect_area_def)
  have c: "rect_left (guac_rect_init 1 0 1 1) = 1" "rect_top (guac_rect_init 1 0 1 1) = 0"
    "rect_right (guac_rect_init 1 0 1 1) = 2" "rect_bottom (guac_rect_init 1 0 1 1) = 1"
    by (simp_all add: guac_rect_init_def)
  have "\<exists>raw d' l'. guac_display_layer_raw_context_put (guac_display_layer_open_raw example_layer) (guac_rect_init 1 0 1 1) [[9]] = Inr raw \<and>
    guac_display_layer_close_raw (\<lambda>w. 4 * w) 3 raw example_display = Inr d' \<and> layer_of (display_layers d') 3 = Some l' \<and>
    rows_of (layer_pending_frame l') ! nat 0 ! nat 1 = [[9]] ! nat 0 ! nat 0"
    using guac_display_layer_put_reported [OF example_display_inv a, of "[[9]]" "\<lambda>w. 4 * w", unfolded c] b by fastforce
  then show ?thesis by simp
qed

text \<open>
  C7: An image of a layer that is marked as lossless is never sent in a lossy encoding, whatever the frame
  rate, the lag and the image; and every encoding has a quality from 30 to 90, however large the lag.
\<close>

theorem guac_display_worker_format:
  assumes "worker_op e layers oper = Inr groups" "layer_of layers (op_layer oper) = Some l"
    and "g \<in> set groups" "Draw_image fmt mode i x y rows \<in> set g"
  shows "(state_lossless (layer_last_frame l) \<longrightarrow> fmt = Image_PNG \<or> (\<exists>q. fmt = Image_WebP q True)) \<and>
    (\<forall>q. fmt = Image_JPEG q \<longrightarrow> layer_opaque l \<and> 30 \<le> q \<and> q \<le> 90) \<and>
    (\<forall>q lossless. fmt = Image_WebP q lossless \<longrightarrow> encoder_webp e \<and> 30 \<le> q \<and> q \<le> 90)"
proof -
  have q: "30 \<le> guac_display_suggest_quality lag \<and> guac_display_suggest_quality lag \<le> 90" for lag
    by (simp add: guac_display_suggest_quality_def Let_def)
  have "fmt = choose_format e l (op_dest oper) (op_framerate oper)"
    using assms by (auto simp: worker_op_def guac_display_layer_clear_non_opaque_def
      split: sum.splits guac_display_plan_operation_type.splits if_splits)
  then show ?thesis using q
    by (auto simp: choose_format_def LFR_guac_display_layer_should_use_jpeg_def LFR_guac_display_layer_should_use_webp_def split: if_splits)
qed

theorem guac_display_worker_format_witness:
  "\<exists>rows. worker_op \<lparr>encoder_webp = True, encoder_lag = 0\<rparr> [example_layer\<lparr>layer_last_frame := (example_state [5, 6])\<lparr>state_lossless := True\<rparr>\<rparr>]
       ((example_op GUAC_DISPLAY_PLAN_OPERATION_IMG (guac_rect_init 0 0 2 1) 1)\<lparr>op_layer := 3\<rparr>) =
       Inr [[Draw_image (Image_WebP 90 True) GUAC_COMP_OVER 1 0 0 rows]] \<and>
     (Image_WebP 90 True = Image_PNG \<or> (\<exists>q. Image_WebP 90 True = Image_WebP q True))"
proof -
  let ?e = "\<lparr>encoder_webp = True, encoder_lag = 0\<rparr>" and ?l = "example_layer\<lparr>layer_last_frame := (example_state [5, 6])\<lparr>state_lossless := True\<rparr>\<rparr>"
  let ?o = "(example_op GUAC_DISPLAY_PLAN_OPERATION_IMG (guac_rect_init 0 0 2 1) 1)\<lparr>op_layer := 3\<rparr>"
  have "worker_op ?e [?l] ?o = Inr [[Draw_image (Image_WebP 90 True) GUAC_COMP_OVER 1 0 0 [[0xFF000005, 0xFF000006]]]]" by code_simp
  moreover have "layer_of [?l] (op_layer ?o) = Some ?l" "state_lossless (layer_last_frame ?l)"
    by (simp_all add: layer_of_def example_layer_def)
  ultimately show ?thesis using guac_display_worker_format [of ?e "[?l]" ?o] by fastforce
qed

end
