(* ===== verification/DisplayDup.thy ===== *)
theory DisplayDup
  imports DisplayWorker
begin

text \<open>
  Synchronising a user that joins a connection with its display (\<open>guac_display_dup\<close> in
  \<open>libguac/display.c\<close>): the theorems show that such a user sees the last frame, and how this fails
  when a layer is being resized.
\<close>

section \<open>Duplicating a display\<close>

text \<open>
  The bounds are those of the pending frame; the image is read from the buffer of the last frame. Reading
  past the rows or lines of this buffer is \<open>Undefined\<close>.
\<close>

definition dup_image :: "guac_display_layer \<Rightarrow> guac_rect \<Rightarrow> drawing list outcome" where
  "dup_image l bounds = (
    let width = guac_rect_width bounds; height = guac_rect_height bounds
    in if width > 0 \<and> height > 0
       then (case LFR_guac_display_layer_cairo_rect l bounds of
           Inl e \<Rightarrow> Inl e
         | Inr rows \<Rightarrow> Inr [Draw_image Image_PNG GUAC_COMP_OVER (layer_layer l) 0 0 rows,
             Draw_copy (layer_layer l) 0 0 width height GUAC_COMP_OVER (- int (layer_last_frame_buffer l) - 1) 0 0])
       else Inr [])"

definition dup_layer :: "guac_display_layer \<Rightarrow> drawing list outcome" where
  "dup_layer l = (
    let bounds = guac_display_layer_get_bounds l; st = layer_last_frame l
    in case dup_image l bounds of
        Inl e \<Rightarrow> Inl e
      | Inr sent \<Rightarrow> Inr (
          [Draw_size (layer_layer l) (guac_rect_width bounds) (guac_rect_height bounds)] @ sent @
          (if layer_layer l > 0 then [Draw_shade (layer_layer l) (state_opacity st),
             Draw_move (layer_layer l) (state_parent st) (state_x st) (state_y st) (state_z st)] else []) @
          (if layer_layer l \<ge> 0 then [Draw_set_int (layer_layer l) GUAC_PROTOCOL_LAYER_PARAMETER_MULTI_TOUCH (state_touches st)] else [])))"

fun dup_layers :: "guac_display_layer list \<Rightarrow> drawing list outcome" where
  "dup_layers [] = Inr []"
| "dup_layers (l # ls) = (case dup_layer l of
      Inl e \<Rightarrow> Inl e
    | Inr sent \<Rightarrow> (case dup_layers ls of Inl e \<Rightarrow> Inl e | Inr sents \<Rightarrow> Inr (sent @ sents)))"

definition guac_display_dup :: "int \<Rightarrow> guac_display \<Rightarrow> drawing list outcome" where
  "guac_display_dup last_sent d = (case dup_layers (last_layers d) of
      Inl e \<Rightarrow> Inl e
    | Inr sent \<Rightarrow>
        (case layer_of (all_layers d) (display_cursor_buffer d) of
          None \<Rightarrow> Inl Undefined
        | Some cursor \<Rightarrow> Inr (sent @
            [Draw_cursor (frame_cursor_hotspot_x (display_last_frame d)) (frame_cursor_hotspot_y (display_last_frame d))
               (layer_layer cursor) 0 0 (state_width (layer_last_frame cursor)) (state_height (layer_last_frame cursor)),
             Draw_mouse (frame_cursor_x (display_last_frame d)) (frame_cursor_y (display_last_frame d))
               (frame_cursor_mask (display_last_frame d)) last_sent,
             Draw_sync last_sent (frame_frames (display_last_frame d))])))"

section \<open>A user that joins: specification\<close>

definition blank_view :: view where
  "blank_view = \<lparr>view_pixel = \<lambda>_ _. 0, view_path = \<lambda>_. {}, view_closed = \<lambda>_. {}\<rparr>"

text \<open>A layer, or buffer, of a view on which nothing has been drawn.\<close>

definition blank :: "view \<Rightarrow> int \<Rightarrow> bool" where
  "blank v i \<longleftrightarrow> (\<forall>p. view_pixel v i p = 0)"

definition same_size :: "guac_display_layer \<Rightarrow> bool" where
  "same_size l \<longleftrightarrow> state_width (layer_pending_frame l) = state_width (layer_last_frame l) \<and>
     state_height (layer_pending_frame l) = state_height (layer_last_frame l)"

lemma dup_layer_spec:
  assumes b: "compositing blend" and l: "layer_inv l" "same_size l" "layer_layer l \<noteq> - int (layer_last_frame_buffer l) - 1"
  obtains ds where "dup_layer l = Inr ds"
    "\<forall>v. blank v (layer_layer l) \<longrightarrow> blank v (- int (layer_last_frame_buffer l) - 1) \<longrightarrow>
      shows_layer (show_drawings blend ds v) l \<and> keeps_layer (show_drawings blend ds v) l \<and>
      view_path (show_drawings blend ds v) = view_path v \<and>
      (\<forall>j. j \<noteq> layer_layer l \<longrightarrow> j \<noteq> - int (layer_last_frame_buffer l) - 1 \<longrightarrow> view_pixel (show_drawings blend ds v) j = view_pixel v j)"
proof -
  let ?r = "guac_display_layer_get_bounds l" and ?i = "layer_layer l" and ?j = "- int (layer_last_frame_buffer l) - 1"
  let ?w = "state_width (layer_last_frame l)" and ?h = "state_height (layer_last_frame l)"
  have ok: "state_ok (layer_last_frame l)" "0 < ?w" "0 < ?h" "?w \<le> 8192" "?h \<le> 8192"
    using l(1) by (auto simp: layer_inv_def state_ok_def extent_ok_def)
  have r: "?r = \<lparr>rect_left = 0, rect_top = 0, rect_right = ?w, rect_bottom = ?h\<rparr>"
    using l(2) by (simp add: guac_display_layer_get_bounds_def same_size_def)
  have ins: "inside ?r (layer_last_frame l)" using ok by (simp add: r inside_def on_screen_def)
  obtain img where img: "LFR_guac_display_layer_cairo_rect l ?r = Inr img" "image_pixels (rect_left ?r) (rect_top ?r) img = rect_area ?r"
    "\<forall>(px, py) \<in> rect_area ?r. img ! nat (py - rect_top ?r) ! nat (px - rect_left ?r) = visible l (rows_of (layer_last_frame l) ! nat py ! nat px)"
    by (rule cairo_rect_pixels [OF ins ok(1)])
  have wh: "guac_rect_width ?r = ?w" "guac_rect_height ?r = ?h" using ins by (simp_all add: inside_def on_screen_size) (simp_all add: r)
  have area: "image_pixels 0 0 img = box 0 0 ?w ?h" "rect_area ?r = box 0 0 ?w ?h" using img(2) by (simp_all add: r rect_area_def)
  let ?tail = "(if ?i > 0 then [Draw_shade ?i (state_opacity (layer_last_frame l)),
             Draw_move ?i (state_parent (layer_last_frame l)) (state_x (layer_last_frame l)) (state_y (layer_last_frame l)) (state_z (layer_last_frame l))] else []) @
          (if ?i \<ge> 0 then [Draw_set_int ?i GUAC_PROTOCOL_LAYER_PARAMETER_MULTI_TOUCH (state_touches (layer_last_frame l))] else [])"
  let ?ds = "[Draw_size ?i ?w ?h, Draw_image Image_PNG GUAC_COMP_OVER ?i 0 0 img, Draw_copy ?i 0 0 ?w ?h GUAC_COMP_OVER ?j 0 0] @ ?tail"
  have "dup_layer l = Inr ?ds" using img(1) wh ok by (simp add: dup_layer_def dup_image_def Let_def)
  moreover have "shows_layer (show_drawings blend ?ds v) l \<and> keeps_layer (show_drawings blend ?ds v) l \<and>
      view_path (show_drawings blend ?ds v) = view_path v \<and>
      (\<forall>j. j \<noteq> ?i \<longrightarrow> j \<noteq> ?j \<longrightarrow> view_pixel (show_drawings blend ?ds v) j = view_pixel v j)" if v: "blank v ?i" "blank v ?j" for v
  proof -
    have o: "blend GUAC_COMP_OVER s 0 = s" for s using b by (simp add: compositing_def)
    have px: "img ! nat y ! nat x = visible l (rows_of (layer_last_frame l) ! nat y ! nat x)" if "(x, y) \<in> box 0 0 ?w ?h" for x y
      using bspec [OF img(3), of "(x, y)"] that by (simp add: area r rect_area_def)
    have tail: "show_drawings blend ?tail v' = v'" for v' by simp
    let ?v1 = "paint ?i (box 0 0 ?w ?h) (\<lambda>(x, y). img ! nat y ! nat x) v"
    let ?v2 = "paint ?j (box 0 0 ?w ?h) (\<lambda>(x, y). img ! nat y ! nat x) ?v1"
    have "show_drawing blend (Draw_size ?i ?w ?h) v = v" using v(1) by (auto simp: paint_def blank_def fun_eq_iff intro!: view.equality)
    moreover have "show_drawing blend (Draw_image Image_PNG GUAC_COMP_OVER ?i 0 0 img) v = ?v1"
      using v(1) area(1) by (auto simp: paint_def blank_def image_pixels_def o fun_eq_iff intro!: view.equality)
    moreover have "show_drawing blend (Draw_copy ?i 0 0 ?w ?h GUAC_COMP_OVER ?j 0 0) ?v1 = ?v2"
      using v(2) l(3) by (auto simp: paint_def blank_def o fun_eq_iff intro!: view.equality)
    ultimately have s: "show_drawings blend ?ds v = ?v2" using tail by (simp del: show_drawing.simps)
    show ?thesis unfolding s using px l(3) by (auto simp: shows_layer_def keeps_layer_def paint_def)
  qed
  ultimately show thesis by (intro that) blast+
qed

text \<open>The indices of a layer and of its buffer at the client.\<close>

definition client_ids :: "guac_display_layer \<Rightarrow> int list" where
  "client_ids l = [layer_layer l, - int (layer_last_frame_buffer l) - 1]"

lemma client_ids_distinct:
  assumes "display_inv d" "distinct (map layer_layer (display_layers d))"
  shows "distinct (concat (map client_ids (display_layers d)))"
proof (rule distinct_concat)
  note idx = buffer_indices [OF assms(1)]
  have inj: "inj_on layer_layer (set (display_layers d))" "distinct (display_layers d)" using assms(2) by (simp_all add: distinct_map)
  have eq: "l = l'" if "l \<in> set (display_layers d)" "l' \<in> set (display_layers d)" "set (client_ids l) \<inter> set (client_ids l') \<noteq> {}" for l l'
    using that idx [of l l'] idx [of l' l] inj(1) by (auto simp: client_ids_def dest: inj_onD)
  then show "set ys \<inter> set zs = {}" if "ys \<in> set (map client_ids (display_layers d))" "zs \<in> set (map client_ids (display_layers d))" "ys \<noteq> zs" for ys zs
    using that by fastforce
  show "distinct ys" if "ys \<in> set (map client_ids (display_layers d))" for ys
    using that idx(1) by (auto simp: client_ids_def)
  have "inj_on client_ids (set (display_layers d))" using eq by (fastforce intro!: inj_onI simp: client_ids_def)
  then show "distinct (map client_ids (display_layers d))" using inj(2) by (simp add: distinct_map)
qed

lemma dup_layers_spec:
  assumes b: "compositing blend" and ls: "\<forall>l \<in> set ls. layer_inv l \<and> same_size l" "distinct (concat (map client_ids ls))"
  shows "\<exists>ds. dup_layers ls = Inr ds \<and> (\<forall>v. (\<forall>i \<in> set (concat (map client_ids ls)). blank v i) \<longrightarrow>
    (\<forall>l \<in> set ls. shows_layer (show_drawings blend ds v) l \<and> keeps_layer (show_drawings blend ds v) l) \<and>
    view_path (show_drawings blend ds v) = view_path v \<and>
    (\<forall>j. j \<notin> set (concat (map client_ids ls)) \<longrightarrow> view_pixel (show_drawings blend ds v) j = view_pixel v j))"
  using ls
proof (induction ls)
  case (Cons l ls)
  let ?ids = "set (concat (map client_ids ls))"
  obtain ds where ds: "dup_layers ls = Inr ds" "\<forall>v. (\<forall>i \<in> ?ids. blank v i) \<longrightarrow>
    (\<forall>l \<in> set ls. shows_layer (show_drawings blend ds v) l \<and> keeps_layer (show_drawings blend ds v) l) \<and>
    view_path (show_drawings blend ds v) = view_path v \<and>
    (\<forall>j. j \<notin> ?ids \<longrightarrow> view_pixel (show_drawings blend ds v) j = view_pixel v j)"
    using Cons by auto
  have apart: "layer_layer l \<noteq> - int (layer_last_frame_buffer l) - 1" "layer_layer l \<notin> ?ids" "- int (layer_last_frame_buffer l) - 1 \<notin> ?ids"
    using Cons.prems(2) by (auto simp: client_ids_def)
  obtain s where s: "dup_layer l = Inr s" "\<forall>v. blank v (layer_layer l) \<longrightarrow> blank v (- int (layer_last_frame_buffer l) - 1) \<longrightarrow>
      shows_layer (show_drawings blend s v) l \<and> keeps_layer (show_drawings blend s v) l \<and>
      view_path (show_drawings blend s v) = view_path v \<and>
      (\<forall>j. j \<noteq> layer_layer l \<longrightarrow> j \<noteq> - int (layer_last_frame_buffer l) - 1 \<longrightarrow> view_pixel (show_drawings blend s v) j = view_pixel v j)"
    by (rule dup_layer_spec [OF b _ _ apart(1)]) (use Cons.prems(1) in auto)
  show ?case
  proof (intro exI [of _ "s @ ds"] conjI allI impI)
    show "dup_layers (l # ls) = Inr (s @ ds)" using s(1) ds(1) by simp
    fix v assume v: "\<forall>i \<in> set (concat (map client_ids (l # ls))). blank v i"
    let ?v = "show_drawings blend s v" and ?w = "show_drawings blend (s @ ds) v"
    have "blank v (layer_layer l)" "blank v (- int (layer_last_frame_buffer l) - 1)" using v by (simp_all add: client_ids_def)
    with s(2) have one: "shows_layer ?v l" "keeps_layer ?v l" "view_path ?v = view_path v"
      "\<forall>j. j \<noteq> layer_layer l \<longrightarrow> j \<noteq> - int (layer_last_frame_buffer l) - 1 \<longrightarrow> view_pixel ?v j = view_pixel v j" by blast+
    have "\<forall>i \<in> ?ids. blank ?v i" using v one(4) apart(2, 3) by (metis (no_types, lifting) Un_iff blank_def concat.simps(2) list.simps(9) set_append)
    with ds(2) have two: "\<forall>k \<in> set ls. shows_layer ?w k \<and> keeps_layer ?w k" "view_path ?w = view_path ?v"
      "\<forall>j. j \<notin> ?ids \<longrightarrow> view_pixel ?w j = view_pixel ?v j" by (simp_all del: set_concat)
    have "shows_layer ?w l \<and> keeps_layer ?w l" using one(1, 2) two(3) apart(2, 3) by (simp add: shows_layer_def keeps_layer_def del: show_drawings_append)
    then show "\<forall>k \<in> set (l # ls). shows_layer ?w k \<and> keeps_layer ?w k" using two(1) by (simp del: show_drawings_append)
    show "view_path ?w = view_path v" using one(3) two(2) by simp
    show "view_pixel ?w j = view_pixel v j" if "j \<notin> set (concat (map client_ids (l # ls)))" for j
      using that one(4) two(3) by (simp add: client_ids_def del: show_drawings_append)
  qed
qed simp

section \<open>Properties\<close>

text \<open>
  C3: A user that joins between two frames, while no layer is being added, removed or resized, is sent
  instructions after which its view, blank before, shows the last frame of every layer, opaque or not, and
  keeps it in the buffers that later copies are taken from. So the following frames reach this user, too.
\<close>

theorem guac_display_dup_in_sync:
  assumes "compositing blend" "display_inv d" "distinct (map layer_layer (display_layers d))" "display_removed d = []"
    and "display_last_layers d = map layer_number (display_layers d)" "\<forall>l \<in> set (display_layers d). same_size l"
    and "layer_of (display_layers d) (display_cursor_buffer d) = Some cursor"
  shows "\<exists>ds. guac_display_dup last_sent d = Inr ds \<and> in_sync (show_drawings blend ds blank_view) d"
proof -
  let ?ls = "display_layers d"
  have last: "last_layers d = ?ls" by (rule last_layers_all [OF assms(2, 4, 5)])
  have "\<forall>l \<in> set ?ls. layer_inv l \<and> same_size l" using assms(2, 6) by (auto simp: display_inv_def list_all_iff)
  from dup_layers_spec [OF assms(1) this client_ids_distinct [OF assms(2, 3)]] obtain ds where ds: "dup_layers ?ls = Inr ds"
    "(\<forall>l \<in> set ?ls. shows_layer (show_drawings blend ds blank_view) l \<and> keeps_layer (show_drawings blend ds blank_view) l) \<and>
    view_path (show_drawings blend ds blank_view) = view_path blank_view" by (auto simp: blank_def blank_view_def)
  then show ?thesis using assms(4, 7) last by (auto simp: guac_display_dup_def in_sync_def blank_view_def)
qed

lemma example_same_size: "same_size example_layer"
  by (simp add: same_size_def example_layer_def example_state_def)

theorem guac_display_dup_in_sync_witness:
  "\<exists>ds. guac_display_dup 11 (example_display\<lparr>display_cursor_buffer := 3\<rparr>) = Inr ds \<and>
     in_sync (show_drawings example_blend ds blank_view) (example_display\<lparr>display_cursor_buffer := 3\<rparr>)"
proof (rule guac_display_dup_in_sync [OF example_compositing])
  show "display_inv (example_display\<lparr>display_cursor_buffer := 3\<rparr>)" using example_display_inv by (simp add: display_inv_def)
  show "layer_of (display_layers (example_display\<lparr>display_cursor_buffer := 3\<rparr>)) (display_cursor_buffer (example_display\<lparr>display_cursor_buffer := 3\<rparr>)) =
    Some example_layer" by (simp add: layer_of_def example_layer_def)
qed (simp_all add: example_same_size, simp add: example_layer_def)

text \<open>What a layer that has grown since the last frame does to a user that joins.\<close>

lemma dup_layers_undefined:
  assumes "l \<in> set ls" "dup_layer l = Inl Undefined"
  shows "dup_layers ls = Inl Undefined"
proof -
  have one: "dup_layer k = Inl e \<Longrightarrow> e = Undefined" for k e
    by (auto simp: dup_layer_def dup_image_def LFR_guac_display_layer_cairo_rect_def Let_def split: sum.splits if_splits)
  have all: "dup_layers ks = Inl e \<Longrightarrow> e = Undefined" for ks e
    by (induction ks) (auto simp: one split: sum.splits)
  show ?thesis using assms(1)
  proof (induction ls)
    case (Cons k ks)
    then show ?case using assms(2) one [of k] by (auto split: sum.splits)
  qed simp
qed

text \<open>
  C34: When a layer of the last frame has been resized in the pending frame to a height that its last
  frame's buffer does not have, sending the display to a user that joins reads past the end of that buffer.
\<close>

theorem guac_display_dup_overreads:
  assumes "display_inv d" "l \<in> set (last_layers d)" "l \<in> set (display_layers d)"
    and "int (length (rows_of (layer_last_frame l))) < state_height (layer_pending_frame l)"
  shows "guac_display_dup last_sent d = Inl Undefined"
proof -
  let ?r = "guac_display_layer_get_bounds l"
  have "extent_ok (state_width (layer_pending_frame l))" "extent_ok (state_height (layer_pending_frame l))"
    using assms(1, 3) by (auto simp: display_inv_def list_all_iff layer_inv_def state_ok_def)
  then have "on_screen ?r" "0 < rect_right ?r" "0 < rect_bottom ?r" "rect_left ?r = 0" "rect_top ?r = 0"
    by (auto simp: on_screen_def guac_display_layer_get_bounds_def extent_ok_def)
  moreover have "\<not> in_rows ?r (rows_of (layer_last_frame l))"
    using assms(4) by (simp add: in_rows_def guac_display_layer_get_bounds_def)
  ultimately have "dup_layer l = Inl Undefined"
    by (simp add: dup_layer_def dup_image_def LFR_guac_display_layer_cairo_rect_def on_screen_size Let_def)
  from dup_layers_undefined [OF assms(2) this] show ?thesis by (simp add: guac_display_dup_def)
qed

definition tall_layer :: guac_display_layer where
  "tall_layer = example_layer\<lparr>layer_pending_frame := (example_state [5, 7])\<lparr>state_height := 2, state_buffer := Some [[5, 7], [0, 0]],
     state_buffer_height := 2\<rparr>\<rparr>"

theorem guac_display_dup_overreads_witness:
  "guac_display_dup 11 (example_display\<lparr>display_layers := [tall_layer]\<rparr>) = Inl Undefined"
proof (rule guac_display_dup_overreads [where l = tall_layer])
  have "layer_inv tall_layer"
    by (simp add: layer_inv_def state_ok_def extent_ok_def cells_wf_def tall_layer_def example_layer_def example_state_def rows_of_def
      GUAC_DISPLAY_CELL_DIMENSION_def GUAC_DISPLAY_CELL_SIZE_def sdiv_pos rect_ok_def guac_rect_init_def coord_def)
  moreover have "layer_buffers tall_layer = layer_buffers example_layer" "layer_number tall_layer = layer_number example_layer"
    "layer_layer tall_layer = layer_layer example_layer" by (simp_all add: tall_layer_def layer_buffers_def)
  ultimately show "display_inv (example_display\<lparr>display_layers := [tall_layer]\<rparr>)"
    using example_display_inv by (simp add: display_inv_def split: if_splits)
qed (simp_all add: last_layers_def List.map_filter_def layer_of_def tall_layer_def example_layer_def example_state_def rows_of_def)

text \<open>A layer without a buffer that is not external.\<close>

lemma refine_layers_null:
  assumes "refine_layers ls c = Some r" "l \<in> set ls"
    and "state_buffer (layer_pending_frame l) = None" "\<not> state_buffer_is_external (layer_pending_frame l)"
  shows "\<exists>e. r = Inl e"
proof -
  have "l \<in> set ls \<longrightarrow> (\<exists>e. r = Inl e)"
    by (rule refine_layers.raw_induct [where P = "\<lambda>ls c r. l \<in> set ls \<longrightarrow> (\<exists>e. r = Inl e)", OF _ assms(1)])
      (use assms(3, 4) in \<open>fastforce split: list.splits if_splits sum.splits bind_splits\<close>)
  then show ?thesis using assms(2) by blast
qed

lemma resize_zero_layer:
  assumes "layer_inv l" "\<not> state_buffer_is_external (layer_pending_frame l)" "cs 0 = 0" "extent_ok h"
  obtains l' where "PFW_guac_display_layer_resize cs l 0 h = Inr l'" "layer_number l' = layer_number l"
    "state_buffer (layer_pending_frame l') = None" "\<not> state_buffer_is_external (layer_pending_frame l')"
proof -
  let ?st = "layer_pending_frame l"
  have st: "0 < state_buffer_width ?st" "0 \<le> state_buffer_height ?st" using assms(1) by (auto simp: layer_inv_def state_ok_def extent_ok_def)
  have r: "resize_round 0 = 0" "0 \<le> resize_round h" "GUAC_DISPLAY_CELL_DIMENSION 0 = 0"
    using assms(4) resize_round_eq [of h] by (auto simp: resize_round_def GUAC_DISPLAY_RESIZE_FACTOR_def sdiv_pos
        GUAC_DISPLAY_CELL_DIMENSION_def GUAC_DISPLAY_CELL_SIZE_def extent_ok_def)
  have d: "0 \<le> GUAC_DISPLAY_CELL_DIMENSION h" using cell_dimension_eq [OF assms(4)] by simp
  obtain rows where rows: "state_buffer ?st = Some rows" using assms(1) by (auto simp: layer_inv_def state_ok_def)
  let ?st' = "?st\<lparr>state_buffer := None, state_buffer_width := 0, state_buffer_height := resize_round h, state_buffer_stride := 0\<rparr>"
  have b: "XFW_guac_display_layer_buffer_resize cs ?st 0 h = Inr ?st'"
    using assms(2, 3) st r rows by (simp add: XFW_guac_display_layer_buffer_resize_def guac_imgcpy_def guac_assert_def Let_def)
  obtain k where k: "PFW_guac_display_layer_pending_frame_cells_resize (l\<lparr>layer_pending_frame := ?st'\<rparr>) 0 h = Inr k"
    "layer_number k = layer_number l" "layer_pending_frame k = ?st'"
  proof -
    have "\<exists>k. PFW_guac_display_layer_pending_frame_cells_resize (l\<lparr>layer_pending_frame := ?st'\<rparr>) 0 h = Inr k \<and>
        layer_number k = layer_number l \<and> layer_pending_frame k = ?st'"
      unfolding PFW_guac_display_layer_pending_frame_cells_resize_def using r(3) d by (simp add: guac_imgcpy_def guac_assert_def Let_def)
    then show thesis using that by blast
  qed
  show thesis using assms(2) b k
    by (intro that [of "k\<lparr>layer_pending_frame := (layer_pending_frame k)\<lparr>state_width := 0, state_height := h\<rparr>\<rparr>"])
      (simp_all add: PFW_guac_display_layer_resize_def)
qed

text \<open>
  C35: Resizing a layer with a buffer of its own to no width succeeds, but leaves the layer without a
  buffer, and then no frame of the display can be ended: an assertion fails. (A stride of no bytes for
  no pixels is what Cairo computes.)
\<close>

theorem guac_display_layer_resize_zero_fails:
  assumes "display_inv d" "layer_of (display_layers d) n = Some l" "\<not> state_buffer_is_external (layer_pending_frame l)"
    and "cs 0 = 0" "extent_ok h"
  shows "\<exists>d'. guac_display_layer_resize cs n 0 h d = Inr d' \<and>
    (\<forall>users now frames r. guac_display_end_multiple_frames users False now frames d' \<noteq> Some (Inr r))"
proof -
  have "layer_inv l" "layer_number l = n" using assms(1, 2) by (auto simp: display_inv_def list_all_iff layer_of_def find_Some_iff)
  then obtain l' where l': "PFW_guac_display_layer_resize cs l 0 h = Inr l'" "layer_number l' = n"
    "state_buffer (layer_pending_frame l') = None" "\<not> state_buffer_is_external (layer_pending_frame l')"
    using resize_zero_layer [of l cs h] assms(3-5) by metis
  let ?d = "PFW_guac_display_layer_touch n (update_layer n (\<lambda>_. l') d)"
  have "l' \<in> set (display_layers ?d)"
    using assms(2) layer_of_mem [OF assms(2)] by (force simp: PFW_guac_display_layer_touch_def update_layer_def)
  then have "PFW_LFR_guac_display_plan_create now (display_layers ?d) \<noteq> Some (Inr r)" for now r
    using refine_layers_null [of "display_layers ?d" 0 _ l'] l'(3, 4)
    by (auto simp: PFW_LFR_guac_display_plan_create_def split: option.splits sum.splits)
  then have "guac_display_end_multiple_frames users False now frames ?d \<noteq> Some (Inr r)" for users now frames r
    by (cases "PFW_LFR_guac_display_plan_create now (display_layers ?d)")
      (auto simp: guac_display_end_multiple_frames_def flush_frame_def split: sum.splits)
  then show ?thesis using assms(2) l'(1) by (intro exI [of _ ?d]) (simp add: guac_display_layer_resize_def)
qed

theorem guac_display_layer_resize_zero_fails_witness:
  "\<exists>d'. guac_display_layer_resize (\<lambda>w. 4 * w) 3 0 1 example_display = Inr d' \<and>
    (\<forall>users now frames r. guac_display_end_multiple_frames users False now frames d' \<noteq> Some (Inr r))"
  by (rule guac_display_layer_resize_zero_fails [OF example_display_inv, where l = example_layer])
    (simp_all add: layer_of_def extent_ok_def, simp_all add: example_layer_def example_state_def)

end
