(* ===== verification/DisplayCursor.thy ===== *)
theory DisplayCursor
  imports DisplayWorker
begin

text \<open>
  The mouse cursor of a display and the cursor images that are built in (\<open>libguac/display-cursor.c\<close>,
  \<open>libguac/display-builtin-cursors.c\<close>).
\<close>

section \<open>Built-in cursors\<close>

text \<open>The bytes of a pixel are those of a 32-bit integer, the lowest first.\<close>

abbreviation X_pixel :: pixel where "X_pixel \<equiv> 0xFF000000"
abbreviation U_pixel :: pixel where "U_pixel \<equiv> 0xFF808080"
abbreviation O_pixel :: pixel where "O_pixel \<equiv> 0xFFFFFFFF"

text \<open>The lines of an image are written as in the source.\<close>

definition cursor_row :: "string \<Rightarrow> pixel list" where
  "cursor_row cs = map (\<lambda>c. if c = CHR ''X'' then X_pixel else if c = CHR ''U'' then U_pixel
     else if c = CHR ''O'' then O_pixel else 0) cs"

record guac_display_builtin_cursor =
  builtin_buffer :: "pixel list list"
  builtin_width :: int
  builtin_height :: int
  builtin_hotspot_x :: int
  builtin_hotspot_y :: int

definition guac_display_cursor_none :: guac_display_builtin_cursor where
  "guac_display_cursor_none = \<lparr>builtin_buffer = map cursor_row [''_''], builtin_width = 1, builtin_height = 1,
     builtin_hotspot_x = 0, builtin_hotspot_y = 0\<rparr>"

definition guac_display_cursor_dot :: guac_display_builtin_cursor where
  "guac_display_cursor_dot = \<lparr>builtin_buffer = map cursor_row
     [''_OOO_'',
      ''OXXXO'',
      ''OXXXO'',
      ''OXXXO'',
      ''_OOO_''], builtin_width = 5, builtin_height = 5, builtin_hotspot_x = 2, builtin_hotspot_y = 2\<rparr>"

definition guac_display_cursor_ibar :: guac_display_builtin_cursor where
  "guac_display_cursor_ibar = \<lparr>builtin_buffer = map cursor_row
     [''XXXXXXX'',
      ''XOOUOOX'',
      ''XXXOXXX'',
      ''__XOX__'',
      ''__XOX__'',
      ''__XOX__'',
      ''__XOX__'',
      ''__XOX__'',
      ''__XOX__'',
      ''__XOX__'',
      ''__XOX__'',
      ''__XOX__'',
      ''__XOX__'',
      ''XXXOXXX'',
      ''XOOUOOX'',
      ''XXXXXXX''], builtin_width = 7, builtin_height = 16, builtin_hotspot_x = 3, builtin_hotspot_y = 7\<rparr>"

definition guac_display_cursor_pointer :: guac_display_builtin_cursor where
  "guac_display_cursor_pointer = \<lparr>builtin_buffer = map cursor_row
     [''O__________'',
      ''OO_________'',
      ''OXO________'',
      ''OXXO_______'',
      ''OXXXO______'',
      ''OXXXXO_____'',
      ''OXXXXXO____'',
      ''OXXXXXXO___'',
      ''OXXXXXXXO__'',
      ''OXXXXXXXXO_'',
      ''OXXXXXOOOOO'',
      ''OXXOXXO____'',
      ''OXO_OXXO___'',
      ''OO__OXXO___'',
      ''O____OXXO__'',
      ''_____OOOO__''], builtin_width = 11, builtin_height = 16, builtin_hotspot_x = 0, builtin_hotspot_y = 0\<rparr>"

datatype guac_display_cursor_type = GUAC_DISPLAY_CURSOR_NONE | GUAC_DISPLAY_CURSOR_DOT | GUAC_DISPLAY_CURSOR_IBAR
  | GUAC_DISPLAY_CURSOR_POINTER

definition builtin_cursor :: "guac_display_cursor_type \<Rightarrow> guac_display_builtin_cursor" where
  "builtin_cursor cursor_type = (case cursor_type of
      GUAC_DISPLAY_CURSOR_NONE \<Rightarrow> guac_display_cursor_none
    | GUAC_DISPLAY_CURSOR_DOT \<Rightarrow> guac_display_cursor_dot
    | GUAC_DISPLAY_CURSOR_IBAR \<Rightarrow> guac_display_cursor_ibar
    | GUAC_DISPLAY_CURSOR_POINTER \<Rightarrow> guac_display_cursor_pointer)"

section \<open>Setting the cursor\<close>

definition guac_display_cursor :: "guac_display \<Rightarrow> nat" where
  "guac_display_cursor display = display_cursor_buffer display"

definition guac_display_set_cursor_hotspot :: "int \<Rightarrow> int \<Rightarrow> guac_display \<Rightarrow> guac_display" where
  "guac_display_set_cursor_hotspot x y display = display\<lparr>display_pending_frame :=
     (display_pending_frame display)\<lparr>frame_cursor_hotspot_x := x, frame_cursor_hotspot_y := y\<rparr>\<rparr>"

text \<open>The lines of the image are copied to the start of the lines of the buffer.\<close>

definition copy_cursor :: "guac_display_builtin_cursor \<Rightarrow> guac_display_layer_raw_context \<Rightarrow> guac_display_layer_raw_context outcome" where
  "copy_cursor cursor raw = (
    let r = \<lparr>rect_left = 0, rect_top = 0, rect_right = builtin_width cursor, rect_bottom = builtin_height cursor\<rparr>
    in case context_buffer raw of
        None \<Rightarrow> Inl Undefined
      | Some rows \<Rightarrow>
          if \<not> (in_rows r rows \<and> in_rows r (builtin_buffer cursor)) then Inl Undefined
          else Inr (raw\<lparr>context_buffer := Some (draw_rows r (\<lambda>y. take (nat (builtin_width cursor)) (builtin_buffer cursor ! y)) rows),
              context_dirty := r\<rparr>))"

text \<open>\<open>guac_display_set_cursor\<close> up to the end of the frame.\<close>

definition place_cursor :: "(int \<Rightarrow> int) \<Rightarrow> guac_display_cursor_type \<Rightarrow> guac_display \<Rightarrow> guac_display outcome" where
  "place_cursor cs cursor_type display = (
    let cursor = builtin_cursor cursor_type; n = guac_display_cursor display
    in case guac_display_layer_resize cs n (builtin_width cursor) (builtin_height cursor) display of
        Inl e \<Rightarrow> Inl e
      | Inr display \<Rightarrow>
          (case layer_of (display_layers display) n of
            None \<Rightarrow> Inl Undefined
          | Some cursor_layer \<Rightarrow>
              guac_assert (\<not> state_buffer_is_external (layer_pending_frame cursor_layer)) (
                case copy_cursor cursor (guac_display_layer_open_raw cursor_layer) of
                  Inl e \<Rightarrow> Inl e
                | Inr raw \<Rightarrow> guac_display_layer_close_raw cs n raw
                    (guac_display_set_cursor_hotspot (builtin_hotspot_x cursor) (builtin_hotspot_y cursor) display))))"

definition guac_display_set_cursor ::
    "(int \<Rightarrow> int) \<Rightarrow> nat list \<Rightarrow> bool \<Rightarrow> int \<Rightarrow> guac_display_cursor_type \<Rightarrow> guac_display \<Rightarrow> (guac_display \<times> flush) outcome option" where
  "guac_display_set_cursor cs users busy now cursor_type display = (
    case place_cursor cs cursor_type display of
      Inl e \<Rightarrow> Some (Inl e)
    | Inr display \<Rightarrow> guac_display_end_mouse_frame users busy now display)"

section \<open>Properties\<close>

lemma builtin_cursor_ok:
  "extent_ok (builtin_width (builtin_cursor t)) \<and> extent_ok (builtin_height (builtin_cursor t)) \<and>
   builtin_height (builtin_cursor t) = int (length (builtin_buffer (builtin_cursor t))) \<and>
   list_all (\<lambda>row. builtin_width (builtin_cursor t) = int (length row)) (builtin_buffer (builtin_cursor t))"
  by (cases t) (simp_all add: builtin_cursor_def guac_display_cursor_none_def guac_display_cursor_dot_def
      guac_display_cursor_ibar_def guac_display_cursor_pointer_def extent_ok_def cursor_row_def)

lemma builtin_cursor_size:
  "0 < builtin_width (builtin_cursor t) \<and> builtin_width (builtin_cursor t) \<le> 64 \<and>
   0 < builtin_height (builtin_cursor t) \<and> builtin_height (builtin_cursor t) \<le> 64"
  by (cases t) (simp_all add: builtin_cursor_def guac_display_cursor_none_def guac_display_cursor_dot_def
      guac_display_cursor_ibar_def guac_display_cursor_pointer_def)

lemma copy_cursor_drew:
  assumes "context_buffer raw = Some rows" "context_dirty raw = zero_rect"
    and "builtin_height (builtin_cursor t) \<le> int (length rows)" "\<forall>row \<in> set rows. builtin_width (builtin_cursor t) \<le> int (length row)"
  defines "r \<equiv> \<lparr>rect_left = 0, rect_top = 0, rect_right = builtin_width (builtin_cursor t), rect_bottom = builtin_height (builtin_cursor t)\<rparr>"
  obtains raw' where "copy_cursor (builtin_cursor t) raw = Inr raw'"
    "drew raw r (\<lambda>x y. builtin_buffer (builtin_cursor t) ! nat y ! nat x) raw'" "rect_ok r" "\<not> guac_rect_is_empty r"
proof -
  let ?c = "builtin_cursor t"
  note ok = builtin_cursor_ok [of t]
  have size: "0 < builtin_width ?c" "builtin_width ?c \<le> 8192" "0 < builtin_height ?c" "builtin_height ?c \<le> 8192"
    using ok by (auto simp: extent_ok_def)
  have r: "on_screen r" "in_rows r rows" "in_rows r (builtin_buffer ?c)" "rect_ok r" "\<not> guac_rect_is_empty r"
    using assms(3, 4) ok size by (auto simp: in_rows_def r_def list_all_iff on_screen_def rect_ok_def coord_def guac_rect_is_empty_def)
  have src: "rect_bottom r - rect_top r \<le> int (length (builtin_buffer ?c))"
    "\<forall>row \<in> set (builtin_buffer ?c). rect_right r - rect_left r \<le> int (length row)"
    using ok by (auto simp: r_def list_all_iff)
  obtain raw' where put: "guac_display_layer_raw_context_put raw r (builtin_buffer ?c) = Inr raw'"
    "drew raw r (\<lambda>x y. builtin_buffer ?c ! nat (y - rect_top r) ! nat (x - rect_left r)) raw'"
    by (rule raw_put_drew [OF assms(1) r(2, 1) src])
  have ext: "guac_rect_extend (context_dirty raw) r = r"
    using r(5) assms(2) by (simp add: guac_rect_extend_def zero_rect_def guac_rect_is_empty_def)
  have wh: "guac_rect_width r = builtin_width ?c" "guac_rect_height r = builtin_height ?c"
    using on_screen_size [OF r(1)] by (simp_all add: r_def)
  have "copy_cursor ?c raw = Inr raw'"
    using put(1) assms(1) r ext wh by (auto simp: copy_cursor_def guac_display_layer_raw_context_put_def r_def Let_def)
  then show thesis using put(2) r by (intro that) (simp_all add: r_def)
qed

text \<open>The cells of a display, by the numbers of its layers.\<close>

lemma display_cells_sum:
  assumes "display_inv d"
  shows "display_cells d = (\<Sum>n \<in> {n. layer_of (display_layers d) n \<noteq> None}. length (layer_cells (the (layer_of (display_layers d) n))))"
proof -
  note dist = display_inv_distinct [OF assms]
  have "{n. layer_of (display_layers d) n \<noteq> None} = layer_number ` set (display_layers d)"
    by (auto simp: layer_of_def find_None_iff)
  moreover have "the (layer_of (display_layers d) (layer_number l)) = l" if "l \<in> set (display_layers d)" for l
    using find_unique_key [OF dist that] by (simp add: layer_of_def)
  ultimately show ?thesis
    using dist by (simp add: display_cells_def distinct_map sum.reindex sum_list_distinct_conv_sum_set)
qed

lemma display_cells_le:
  assumes "display_inv d" "display_inv d'" "layer_of (display_layers d) n = Some l" "layer_of (display_layers d') n = Some l'"
    and "length (layer_cells l') \<le> length (layer_cells l)" "\<forall>m. m \<noteq> n \<longrightarrow> layer_of (display_layers d') m = layer_of (display_layers d) m"
  shows "display_cells d' \<le> display_cells d"
proof -
  have "{m. layer_of (display_layers d') m \<noteq> None} = {m. layer_of (display_layers d) m \<noteq> None}" using assms(3, 4, 6) by force
  moreover have "length (layer_cells (the (layer_of (display_layers d') m))) \<le> length (layer_cells (the (layer_of (display_layers d) m)))" for m
    using assms(3-6) by (cases "m = n") simp_all
  ultimately show ?thesis unfolding display_cells_sum [OF assms(1)] display_cells_sum [OF assms(2)] by (simp add: sum_mono)
qed

lemma one_cell:
  assumes "layer_inv l" "0 < state_width (layer_pending_frame l)" "state_width (layer_pending_frame l) \<le> 64"
    "0 < state_height (layer_pending_frame l)" "state_height (layer_pending_frame l) \<le> 64"
  shows "length (layer_cells l) = 1"
proof -
  have "GUAC_DISPLAY_CELL_DIMENSION v = 1" if "0 < v" "v \<le> 64" for v
    using that by (simp add: GUAC_DISPLAY_CELL_DIMENSION_def GUAC_DISPLAY_CELL_SIZE_def sdiv_pos)
  then have "int (layer_cells_width l) = 1" "int (layer_cells_height l) = 1" using assms by (simp_all add: layer_inv_def)
  then show ?thesis using assms(1) by (simp add: layer_inv_def cells_wf_def)
qed

lemma some_cell: "layer_inv l \<Longrightarrow> 1 \<le> length (layer_cells l)"
  using cell_dimension_eq by (fastforce simp: layer_inv_def cells_wf_def state_ok_def)

text \<open>
  C9: Setting a built-in cursor succeeds on every well-formed display within the limit of the queue whose cursor
  has a buffer of its own; at the end of the frame that it makes, the pending frame of the cursor has the size and
  the pixels of the image, all of it is reported as modified, and the hotspot is that of the image.
\<close>

theorem guac_display_set_cursor_shows:
  assumes "stride_ok cs" "display_inv d" "layer_of (display_layers d) (guac_display_cursor d) = Some l"
    and "\<not> state_buffer_is_external (layer_pending_frame l)" "display_cells d \<le> GUAC_DISPLAY_WORKER_FIFO_SIZE"
  shows "\<exists>d' l' d'' f. guac_display_set_cursor cs users busy now t d = Some (Inr (d'', f)) \<and> display_inv d'' \<and>
    guac_display_end_mouse_frame users busy now d' = Some (Inr (d'', f)) \<and>
    display_inv d' \<and> layer_of (display_layers d') (guac_display_cursor d) = Some l' \<and> reported l' \<and>
    state_width (layer_pending_frame l') = builtin_width (builtin_cursor t) \<and>
    state_height (layer_pending_frame l') = builtin_height (builtin_cursor t) \<and>
    (\<forall>x y. (x, y) \<in> box 0 0 (builtin_width (builtin_cursor t)) (builtin_height (builtin_cursor t)) \<longrightarrow>
      rows_of (layer_pending_frame l') ! nat y ! nat x = builtin_buffer (builtin_cursor t) ! nat y ! nat x) \<and>
    frame_cursor_hotspot_x (display_pending_frame d') = builtin_hotspot_x (builtin_cursor t) \<and>
    frame_cursor_hotspot_y (display_pending_frame d') = builtin_hotspot_y (builtin_cursor t)"
proof -
  let ?c = "builtin_cursor t" and ?n = "guac_display_cursor d"
  let ?r = "\<lparr>rect_left = 0, rect_top = 0, rect_right = builtin_width ?c, rect_bottom = builtin_height ?c\<rparr>"
  have l: "layer_inv l" "layer_number l = ?n" using assms(2, 3) by (auto simp: display_inv_def list_all_iff layer_of_def find_Some_iff)
  obtain l1 where l1: "PFW_guac_display_layer_resize cs l (builtin_width ?c) (builtin_height ?c) = Inr l1" "layer_inv l1" "same_layer l l1"
    "state_width (layer_pending_frame l1) = builtin_width ?c" "state_height (layer_pending_frame l1) = builtin_height ?c"
    "state_buffer_is_external (layer_pending_frame l1) = state_buffer_is_external (layer_pending_frame l)"
    by (rule layer_resize_inv [OF assms(1) l(1), of "builtin_width ?c" "builtin_height ?c"]) (use builtin_cursor_ok [of t] assms(4) in blast)+
  define d1 where "d1 = PFW_guac_display_layer_touch ?n (update_layer ?n (\<lambda>_. l1) d)"
  have n1: "layer_number l1 = ?n" using l1(3) l(2) by (simp add: same_layer_def)
  have inv1: "display_inv d1" using update_layer_inv [OF assms(2, 3), of "\<lambda>_. l1"] l1(2, 3) by (simp add: d1_def)
  have of1: "layer_of (display_layers d1) ?n = Some l1"
    using assms(3) n1 by (auto simp: d1_def PFW_guac_display_layer_touch_def update_layer_def layer_of_update)
  have step1: "guac_display_layer_resize cs ?n (builtin_width ?c) (builtin_height ?c) d = Inr d1"
    using assms(3) l1(1) by (simp add: guac_display_layer_resize_def d1_def)
  obtain rows where rows: "state_buffer (layer_pending_frame l1) = Some rows"
    "builtin_height ?c \<le> int (length rows)" "\<forall>row \<in> set rows. builtin_width ?c \<le> int (length row)"
    using l1(2, 4, 5) by (fastforce simp: layer_inv_def state_ok_def)
  obtain raw where raw: "copy_cursor ?c (guac_display_layer_open_raw l1) = Inr raw"
    "drew (guac_display_layer_open_raw l1) ?r (\<lambda>x y. builtin_buffer ?c ! nat y ! nat x) raw" "rect_ok ?r" "\<not> guac_rect_is_empty ?r"
    by (rule copy_cursor_drew [of "guac_display_layer_open_raw l1" rows t])
      (simp_all add: guac_display_layer_open_raw_def rows Let_def)
  have int1: "\<not> state_buffer_is_external (layer_pending_frame l1)" using l1(6) assms(4) by simp
  obtain l2 where l2: "close_raw_layer cs l1 raw = Inr l2" "layer_inv l2" "same_layer l1 l2"
    "\<forall>x y. (x, y) \<in> box 0 0 (builtin_width ?c) (builtin_height ?c) \<longrightarrow> rows_of (layer_pending_frame l2) ! nat y ! nat x =
      (if (x, y) \<in> rect_area ?r then builtin_buffer ?c ! nat y ! nat x else rows_of (layer_pending_frame l1) ! nat y ! nat x)"
    "rect_area ?r \<subseteq> rect_area (layer_dirty l2)" "state_width (layer_pending_frame l2) = builtin_width ?c"
    "state_height (layer_pending_frame l2) = builtin_height ?c"
    by (rule draw_layer [OF l1(2) int1 raw(2-4), of cs]) (use l1(4, 5) in metis)
  have area: "rect_area ?r = box 0 0 (builtin_width ?c) (builtin_height ?c)" by (simp add: rect_area_def)
  define d2 where "d2 = guac_display_set_cursor_hotspot (builtin_hotspot_x ?c) (builtin_hotspot_y ?c) d1"
  have d2: "display_inv d2" "layer_of (display_layers d2) ?n = Some l1" using inv1 of1 by (simp_all add: d2_def guac_display_set_cursor_hotspot_def)
  have hint: "context_hint_from raw = Some ?n" using raw(2) n1 by (auto simp: drew_def guac_display_layer_open_raw_def Let_def)
  let ?l' = "l2\<lparr>layer_pending_frame := (layer_pending_frame l2)\<lparr>state_search_for_copies := True\<rparr>\<rparr>"
  obtain d' where d': "guac_display_layer_close_raw cs ?n raw d2 = Inr d'" "display_inv d'" "layer_of (display_layers d') ?n = Some ?l'"
    "\<forall>m. m \<noteq> ?n \<longrightarrow> layer_of (display_layers d') m = layer_of (display_layers d2) m"
    by (rule close_raw_draws [OF d2 l2(1-3) hint])
  have hot: "display_pending_frame d' = display_pending_frame d2"
    using d'(1) d2(2) l2(1) hint by (auto simp: guac_display_layer_close_raw_def update_pending_def update_layer_def PFW_guac_display_layer_touch_def Let_def)
  have "guac_display_set_cursor cs users busy now t d = guac_display_end_mouse_frame users busy now d'"
    using step1 of1 int1 raw(1) d'(1) by (simp add: guac_display_set_cursor_def place_cursor_def guac_assert_def d2_def)
  moreover have "reported ?l'" using l2(5-7) area by (auto simp: reported_def)
  moreover have "display_cells d' \<le> display_cells d"
  proof (rule display_cells_le [OF assms(2) d'(2) assms(3) d'(3)])
    have "length (layer_cells l2) = 1" using builtin_cursor_size [of t] l2(2, 6, 7) by (intro one_cell) simp_all
    then show "length (layer_cells ?l') \<le> length (layer_cells l)" using some_cell [OF l(1)] by simp
    show "\<forall>m. m \<noteq> ?n \<longrightarrow> layer_of (display_layers d') m = layer_of (display_layers d) m"
      using d'(4) n1 by (simp add: d2_def guac_display_set_cursor_hotspot_def d1_def PFW_guac_display_layer_touch_def update_layer_def layer_of_update)
  qed
  then obtain d'' f where "guac_display_end_mouse_frame users busy now d' = Some (Inr (d'', f))" "display_inv d''"
    using end_mouse_frame_room [OF d'(2), of users busy now] assms(5) le_trans by metis
  ultimately show ?thesis using d' l2(4, 6, 7) area hot
    by (intro exI [of _ d'] exI [of _ ?l'] exI [of _ d''] exI [of _ f] conjI)
      (simp_all add: rows_of_def d2_def guac_display_set_cursor_hotspot_def)
qed

theorem guac_display_set_cursor_shows_witness:
  "\<exists>d' l' d'' f. guac_display_set_cursor (\<lambda>w. 4 * w) [] False 5 GUAC_DISPLAY_CURSOR_IBAR mixed_display = Some (Inr (d'', f)) \<and>
      guac_display_end_mouse_frame [] False 5 d' = Some (Inr (d'', f)) \<and>
      layer_of (display_layers d') 2 = Some l' \<and> state_height (layer_pending_frame l') = 16"
proof -
  have cursor: "guac_display_cursor mixed_display = 2" by (simp add: guac_display_cursor_def mixed_display_def)
  have "stride_ok (\<lambda>w. 4 * w)" "layer_of (display_layers mixed_display) 2 = Some example_cursor"
    "\<not> state_buffer_is_external (layer_pending_frame example_cursor)"
    by (simp_all add: stride_ok_def layer_of_def example_cursor_def example_layer_def example_state_def)
  from guac_display_set_cursor_shows [OF this(1) mixed_display_inv this(2) [folded cursor] this(3) example_cells(2), of "[]" False 5 GUAC_DISPLAY_CURSOR_IBAR]
  show ?thesis unfolding cursor by (auto simp: builtin_cursor_def guac_display_cursor_ibar_def)
qed

end
