(* ===== verification/Fifo.thy ===== *)
theory Fifo
  imports Prelude
begin

text \<open>
  \<open>libguac/flag.c\<close> and \<open>libguac/fifo.c\<close>: an integer whose bits threads set, clear and wait for, and
  the bounded queue built on it. Everything between taking and releasing the flag's mutex is one step
  of the calling thread. A wait that cannot go on in the present state has no result (\<open>None\<close>): the
  thread stays in \<open>pthread_cond_wait\<close> until another thread changes the flag, and then tries again.
\<close>

section \<open>Flags\<close>

text \<open>
  \<open>value_mutex\<close> is the number of times the running thread holds the recursive mutex and
  \<open>value_changed\<close> counts the broadcasts of the condition variable.
\<close>

record guac_flag =
  flag_value :: "32 word"
  value_mutex :: nat
  value_changed :: nat

definition guac_flag_init :: guac_flag where
  "guac_flag_init = \<lparr>flag_value = 0, value_mutex = 0, value_changed = 0\<rparr>"

definition guac_flag_lock :: "guac_flag \<Rightarrow> guac_flag" where
  "guac_flag_lock f = f\<lparr>value_mutex := Suc (value_mutex f)\<rparr>"

definition guac_flag_unlock :: "guac_flag \<Rightarrow> guac_flag" where
  "guac_flag_unlock f = f\<lparr>value_mutex := value_mutex f - 1\<rparr>"

definition guac_flag_set_and_lock :: "guac_flag \<Rightarrow> 32 word \<Rightarrow> guac_flag" where
  "guac_flag_set_and_lock f flags =
     (let f = guac_flag_lock f;
          old_value = flag_value f;
          f = f\<lparr>flag_value := flag_value f OR flags\<rparr>
      in if flag_value f \<noteq> old_value then f\<lparr>value_changed := Suc (value_changed f)\<rparr> else f)"

definition guac_flag_set :: "guac_flag \<Rightarrow> 32 word \<Rightarrow> guac_flag" where
  "guac_flag_set f flags = guac_flag_unlock (guac_flag_set_and_lock f flags)"

definition guac_flag_clear_and_lock :: "guac_flag \<Rightarrow> 32 word \<Rightarrow> guac_flag" where
  "guac_flag_clear_and_lock f flags =
     (let f = guac_flag_lock f in f\<lparr>flag_value := flag_value f AND NOT flags\<rparr>)"

definition guac_flag_clear :: "guac_flag \<Rightarrow> 32 word \<Rightarrow> guac_flag" where
  "guac_flag_clear f flags = guac_flag_unlock (guac_flag_clear_and_lock f flags)"

definition guac_flag_wait_and_lock :: "guac_flag \<Rightarrow> 32 word \<Rightarrow> guac_flag option" where
  "guac_flag_wait_and_lock f flags =
     (if flag_value f AND flags \<noteq> 0 then Some (guac_flag_lock f) else None)"

text \<open>
  The absolute time until which \<open>guac_flag_timedwait_and_lock\<close> waits, from the present time in
  seconds and nanoseconds. The product of the timeout with 1000000 is computed in 32 bits.
\<close>

definition flag_deadline :: "32 word \<Rightarrow> int \<Rightarrow> int \<Rightarrow> int \<times> int" where
  "flag_deadline msec_timeout tv_sec tv_nsec =
     (let nsec_timeout = uint (msec_timeout * 1000000) + tv_nsec
      in (tv_sec + nsec_timeout div 1000000000, nsec_timeout mod 1000000000))"

text \<open>\<open>lapsed\<close>: the deadline is over, so \<open>pthread_cond_timedwait\<close> fails.\<close>

definition guac_flag_timedwait_and_lock :: "guac_flag \<Rightarrow> 32 word \<Rightarrow> 32 word \<Rightarrow> bool \<Rightarrow> (int \<times> guac_flag) option" where
  "guac_flag_timedwait_and_lock f flags msec_timeout lapsed =
     (let f = guac_flag_lock f
      in if msec_timeout = 0
         then let retval = uint (flag_value f AND flags)
              in Some (retval, if retval = 0 then guac_flag_unlock f else f)
         else if flag_value f AND flags \<noteq> 0 then Some (1, f)
         else if lapsed then Some (0, guac_flag_unlock f)
         else None)"

section \<open>Queues\<close>

definition GUAC_FIFO_STATE_READY :: "32 word" where "GUAC_FIFO_STATE_READY = 1"

definition GUAC_FIFO_STATE_NONEMPTY :: "32 word" where "GUAC_FIFO_STATE_NONEMPTY = 2"

definition GUAC_FIFO_STATE_INVALID :: "32 word" where "GUAC_FIFO_STATE_INVALID = 4"

text \<open>\<open>items\<close> is the caller's array of \<open>max_items\<close> items.\<close>

record 'a guac_fifo =
  fifo_state :: guac_flag
  max_items :: nat
  head_index :: nat
  item_count :: nat
  items :: "'a list"

definition guac_fifo_init :: "'a list \<Rightarrow> 'a guac_fifo" where
  "guac_fifo_init mem =
     \<lparr>fifo_state = guac_flag_set guac_flag_init GUAC_FIFO_STATE_READY, max_items = length mem,
      head_index = 0, item_count = 0, items = mem\<rparr>"

definition guac_fifo_invalidate :: "'a guac_fifo \<Rightarrow> 'a guac_fifo" where
  "guac_fifo_invalidate q = q\<lparr>fifo_state := guac_flag_set (fifo_state q) GUAC_FIFO_STATE_INVALID\<rparr>"

definition guac_fifo_lock :: "'a guac_fifo \<Rightarrow> 'a guac_fifo" where
  "guac_fifo_lock q = q\<lparr>fifo_state := guac_flag_lock (fifo_state q)\<rparr>"

definition guac_fifo_unlock :: "'a guac_fifo \<Rightarrow> 'a guac_fifo" where
  "guac_fifo_unlock q = q\<lparr>fifo_state := guac_flag_unlock (fifo_state q)\<rparr>"

definition guac_fifo_is_valid :: "'a guac_fifo \<Rightarrow> bool" where
  "guac_fifo_is_valid q \<longleftrightarrow> flag_value (fifo_state q) AND GUAC_FIFO_STATE_INVALID = 0"

text \<open>\<open>None\<close>: the thread waits. Otherwise the process aborts, or the call returns.\<close>

definition guac_fifo_enqueue_and_lock :: "'a guac_fifo \<Rightarrow> 'a \<Rightarrow> (bool \<times> 'a guac_fifo) outcome option" where
  "guac_fifo_enqueue_and_lock q item =
     (case guac_flag_wait_and_lock (fifo_state q) (GUAC_FIFO_STATE_INVALID OR GUAC_FIFO_STATE_READY) of
        None \<Rightarrow> None
      | Some f \<Rightarrow>
          (let q = q\<lparr>fifo_state := f\<rparr>
           in if flag_value f AND GUAC_FIFO_STATE_INVALID \<noteq> 0 then Some (Inr (False, guac_fifo_unlock q))
              else if item_count q \<ge> max_items q then Some (Inl Assertion)
              else let q = q\<lparr>item_count := Suc (item_count q)\<rparr>;
                       q = (if item_count q = max_items q
                            then q\<lparr>fifo_state := guac_flag_clear (fifo_state q) GUAC_FIFO_STATE_READY\<rparr> else q);
                       tail = (head_index q + item_count q - 1) mod max_items q;
                       q = q\<lparr>items := (items q)[tail := item]\<rparr>
                   in Some (Inr (True,
                        q\<lparr>fifo_state := guac_flag_set (fifo_state q) GUAC_FIFO_STATE_NONEMPTY\<rparr>))))"

definition guac_fifo_enqueue :: "'a guac_fifo \<Rightarrow> 'a \<Rightarrow> (bool \<times> 'a guac_fifo) outcome option" where
  "guac_fifo_enqueue q item =
     (case guac_fifo_enqueue_and_lock q item of
        Some (Inr (True, q')) \<Rightarrow> Some (Inr (True, guac_fifo_unlock q'))
      | r \<Rightarrow> r)"

definition dequeue :: "'a guac_fifo \<Rightarrow> 'a \<times> 'a guac_fifo" where
  "dequeue q =
     (let item = items q ! head_index q;
          q = q\<lparr>item_count := item_count q - 1, head_index := (head_index q + 1) mod max_items q\<rparr>;
          q = (if item_count q = 0
               then q\<lparr>fifo_state := guac_flag_clear (fifo_state q) GUAC_FIFO_STATE_NONEMPTY\<rparr> else q)
      in (item, q\<lparr>fifo_state := guac_flag_set (fifo_state q) GUAC_FIFO_STATE_READY\<rparr>))"

text \<open>The item a call stores in its buffer, if it returns 1.\<close>

definition guac_fifo_dequeue_and_lock :: "'a guac_fifo \<Rightarrow> ('a option \<times> 'a guac_fifo) option" where
  "guac_fifo_dequeue_and_lock q =
     (case guac_flag_wait_and_lock (fifo_state q) (GUAC_FIFO_STATE_NONEMPTY OR GUAC_FIFO_STATE_INVALID) of
        None \<Rightarrow> None
      | Some f \<Rightarrow>
          (let q = q\<lparr>fifo_state := f\<rparr>
           in if flag_value f AND GUAC_FIFO_STATE_INVALID \<noteq> 0 then Some (None, guac_fifo_unlock q)
              else let (item, q) = dequeue q in Some (Some item, q)))"

definition guac_fifo_dequeue :: "'a guac_fifo \<Rightarrow> ('a option \<times> 'a guac_fifo) option" where
  "guac_fifo_dequeue q =
     (case guac_fifo_dequeue_and_lock q of
        Some (Some item, q') \<Rightarrow> Some (Some item, guac_fifo_unlock q')
      | r \<Rightarrow> r)"

text \<open>The \<open>int\<close> timeout is converted to \<open>unsigned int\<close> by the call.\<close>

definition guac_fifo_timed_dequeue_and_lock ::
    "'a guac_fifo \<Rightarrow> int \<Rightarrow> bool \<Rightarrow> ('a option \<times> 'a guac_fifo) option" where
  "guac_fifo_timed_dequeue_and_lock q msec_timeout lapsed =
     (case guac_flag_timedwait_and_lock (fifo_state q) (GUAC_FIFO_STATE_NONEMPTY OR GUAC_FIFO_STATE_INVALID)
             (word_of_int msec_timeout) lapsed of
        None \<Rightarrow> None
      | Some (retval, f) \<Rightarrow>
          (let q = q\<lparr>fifo_state := f\<rparr>
           in if retval = 0 then Some (None, q)
              else if flag_value f AND GUAC_FIFO_STATE_INVALID \<noteq> 0 then Some (None, guac_fifo_unlock q)
              else let (item, q) = dequeue q in Some (Some item, q)))"

definition guac_fifo_timed_dequeue :: "'a guac_fifo \<Rightarrow> int \<Rightarrow> bool \<Rightarrow> ('a option \<times> 'a guac_fifo) option" where
  "guac_fifo_timed_dequeue q msec_timeout lapsed =
     (case guac_fifo_timed_dequeue_and_lock q msec_timeout lapsed of
        Some (Some item, q') \<Rightarrow> Some (Some item, guac_fifo_unlock q')
      | r \<Rightarrow> r)"

section \<open>Flag bits\<close>

lemma and_pow_eq_0: "v AND 2 ^ n = 0 \<longleftrightarrow> \<not> bit v n" for v :: "32 word"
  using and_exp_eq_0_iff_not_bit [of v n] by simp

lemma flag_tests:
  "v AND GUAC_FIFO_STATE_INVALID = 0 \<longleftrightarrow> \<not> bit v 2"
  "v AND (GUAC_FIFO_STATE_INVALID OR GUAC_FIFO_STATE_READY) = 0 \<longleftrightarrow> \<not> bit v 2 \<and> \<not> bit v 0"
  "v AND (GUAC_FIFO_STATE_NONEMPTY OR GUAC_FIFO_STATE_INVALID) = 0 \<longleftrightarrow> \<not> bit v 1 \<and> \<not> bit v 2"
proof -
  have b: "v AND 1 = 0 \<longleftrightarrow> \<not> bit v 0" "v AND 2 = 0 \<longleftrightarrow> \<not> bit v 1" "v AND 4 = 0 \<longleftrightarrow> \<not> bit v 2"
    using and_pow_eq_0 [of v 0] and_pow_eq_0 [of v 1] and_pow_eq_0 [of v 2] by simp_all
  have o: "x OR y = 0 \<longleftrightarrow> x = 0 \<and> y = 0" for x y :: "32 word" by (rule or_eq_0_iff)
  show "v AND GUAC_FIFO_STATE_INVALID = 0 \<longleftrightarrow> \<not> bit v 2"
    by (simp add: GUAC_FIFO_STATE_INVALID_def b)
  show "v AND (GUAC_FIFO_STATE_INVALID OR GUAC_FIFO_STATE_READY) = 0 \<longleftrightarrow> \<not> bit v 2 \<and> \<not> bit v 0"
    by (simp only: GUAC_FIFO_STATE_INVALID_def GUAC_FIFO_STATE_READY_def bit.conj_disj_distrib o b)
  show "v AND (GUAC_FIFO_STATE_NONEMPTY OR GUAC_FIFO_STATE_INVALID) = 0 \<longleftrightarrow> \<not> bit v 1 \<and> \<not> bit v 2"
    by (simp only: GUAC_FIFO_STATE_INVALID_def GUAC_FIFO_STATE_NONEMPTY_def bit.conj_disj_distrib o b)
qed

lemma flag_constant_bits:
  "bit GUAC_FIFO_STATE_READY n \<longleftrightarrow> n = 0"
  "bit GUAC_FIFO_STATE_NONEMPTY n \<longleftrightarrow> n = 1"
  "bit GUAC_FIFO_STATE_INVALID n \<longleftrightarrow> n = 2"
proof -
  have "bit (2 ^ k :: 32 word) n \<longleftrightarrow> k < 32 \<and> n = k" for k by (auto simp: bit_exp_iff)
  from this [of 0] this [of 1] this [of 2]
  show "bit GUAC_FIFO_STATE_READY n \<longleftrightarrow> n = 0" "bit GUAC_FIFO_STATE_NONEMPTY n \<longleftrightarrow> n = 1"
    "bit GUAC_FIFO_STATE_INVALID n \<longleftrightarrow> n = 2"
    by (simp_all add: GUAC_FIFO_STATE_READY_def GUAC_FIFO_STATE_NONEMPTY_def GUAC_FIFO_STATE_INVALID_def)
qed

lemma flag_set_value: "flag_value (guac_flag_set f flags) = flag_value f OR flags"
  by (simp add: guac_flag_set_def guac_flag_unlock_def guac_flag_set_and_lock_def guac_flag_lock_def Let_def)

lemma flag_set_bit [simp]: "bit (flag_value (guac_flag_set f flags)) n \<longleftrightarrow> bit (flag_value f) n \<or> bit flags n"
  by (simp add: flag_set_value bit_or_iff)

lemma flag_clear_bit [simp]:
  "n < 32 \<Longrightarrow> bit (flag_value (guac_flag_clear f flags)) n \<longleftrightarrow> bit (flag_value f) n \<and> \<not> bit flags n"
  by (simp add: guac_flag_clear_def guac_flag_unlock_def guac_flag_clear_and_lock_def guac_flag_lock_def
      bit_and_iff bit_not_iff)

lemma flag_lock_value [simp]:
  "flag_value (guac_flag_lock f) = flag_value f"
  "flag_value (guac_flag_unlock f) = flag_value f"
  by (simp_all add: guac_flag_lock_def guac_flag_unlock_def)

lemma flag_mutex [simp]:
  "value_mutex (guac_flag_lock f) = Suc (value_mutex f)"
  "value_mutex (guac_flag_unlock f) = value_mutex f - 1"
  "value_mutex (guac_flag_set f flags) = value_mutex f"
  "value_mutex (guac_flag_clear f flags) = value_mutex f"
  by (simp_all add: guac_flag_lock_def guac_flag_unlock_def guac_flag_set_def guac_flag_set_and_lock_def
      guac_flag_clear_def guac_flag_clear_and_lock_def Let_def)

section \<open>The ring as a list\<close>

definition fifo_ok :: "'a guac_fifo \<Rightarrow> bool" where
  "fifo_ok q \<longleftrightarrow> 0 < max_items q \<and> length (items q) = max_items q \<and> head_index q < max_items q \<and>
     item_count q \<le> max_items q \<and>
     (bit (flag_value (fifo_state q)) 0 \<longleftrightarrow> item_count q < max_items q) \<and>
     (bit (flag_value (fifo_state q)) 1 \<longleftrightarrow> 0 < item_count q)"

definition fifo_contents :: "'a guac_fifo \<Rightarrow> 'a list" where
  "fifo_contents q = map (\<lambda>i. items q ! ((head_index q + i) mod max_items q)) [0..<item_count q]"

lemma length_fifo_contents [simp]: "length (fifo_contents q) = item_count q"
  by (simp add: fifo_contents_def)

lemma fifo_valid_bit: "guac_fifo_is_valid q \<longleftrightarrow> \<not> bit (flag_value (fifo_state q)) 2"
  by (simp add: guac_fifo_is_valid_def flag_tests)

text \<open>The slot after the last item is none of the slots in use.\<close>

lemma tail_slot_free: "i < c \<Longrightarrow> c < m \<Longrightarrow> (h + i) mod m \<noteq> (h + c) mod m" for h i c m :: nat
proof
  assume "i < c" "c < m" "(h + i) mod m = (h + c) mod m"
  then have "m dvd (h + c) - (h + i)" by (metis mod_eq_dvd_iff_nat add_le_mono1 add.commute less_imp_le)
  with \<open>i < c\<close> \<open>c < m\<close> show False by (auto dest: dvd_imp_le)
qed

lemma enqueue_cases:
  assumes ok: "fifo_ok q"
  obtains (refused) q' where "\<not> guac_fifo_is_valid q" "guac_fifo_enqueue q x = Some (Inr (False, q'))"
      "fifo_ok q'" "\<not> guac_fifo_is_valid q'" "fifo_contents q' = fifo_contents q"
      "value_mutex (fifo_state q') = value_mutex (fifo_state q)"
  | (waits) "guac_fifo_is_valid q" "item_count q = max_items q" "guac_fifo_enqueue q x = None"
  | (added) q' where "guac_fifo_is_valid q" "item_count q < max_items q"
      "guac_fifo_enqueue q x = Some (Inr (True, q'))" "fifo_ok q'" "guac_fifo_is_valid q'"
      "fifo_contents q' = fifo_contents q @ [x]" "max_items q' = max_items q"
      "value_mutex (fifo_state q') = value_mutex (fifo_state q)"
proof -
  let ?f = "fifo_state q"
  consider "bit (flag_value ?f) 2" | "\<not> bit (flag_value ?f) 2" "item_count q = max_items q"
    | "\<not> bit (flag_value ?f) 2" "item_count q < max_items q"
    using ok by (fastforce simp: fifo_ok_def)
  then show thesis
  proof cases
    case 1
    then show thesis using ok
      by (intro refused [of "guac_fifo_unlock (q\<lparr>fifo_state := guac_flag_lock ?f\<rparr>)"])
        (simp_all add: guac_fifo_enqueue_def guac_fifo_enqueue_and_lock_def guac_flag_wait_and_lock_def flag_tests
          fifo_valid_bit fifo_ok_def fifo_contents_def guac_fifo_unlock_def)
  next
    case 2
    then show thesis using ok
      by (intro waits) (simp_all add: guac_fifo_enqueue_def guac_fifo_enqueue_and_lock_def
          guac_flag_wait_and_lock_def flag_tests fifo_valid_bit fifo_ok_def)
  next
    case 3
    let ?c = "item_count q" and ?m = "max_items q" and ?h = "head_index q"
    let ?f1 = "if Suc ?c = ?m then guac_flag_clear (guac_flag_lock ?f) GUAC_FIFO_STATE_READY else guac_flag_lock ?f"
    let ?q = "q\<lparr>item_count := Suc ?c, items := (items q)[(?h + ?c) mod ?m := x],
      fifo_state := guac_flag_unlock (guac_flag_set ?f1 GUAC_FIFO_STATE_NONEMPTY)\<rparr>"
    have "bit (flag_value ?f) 0" using ok 3 by (simp add: fifo_ok_def)
    moreover have "Suc ?c = ?m \<Longrightarrow> ?h + ?m - Suc 0 = ?h + ?c" by simp
    ultimately have r: "guac_fifo_enqueue q x = Some (Inr (True, ?q))"
      using 3 by (simp add: guac_fifo_enqueue_def guac_fifo_enqueue_and_lock_def guac_flag_wait_and_lock_def
          flag_tests guac_fifo_unlock_def Let_def)
    have "fifo_contents ?q = fifo_contents q @ [x]"
    proof (rule nth_equalityI)
      fix i assume i: "i < length (fifo_contents ?q)"
      have "(?h + ?c) mod ?m < length (items q)" using ok by (simp add: fifo_ok_def)
      with i 3 show "fifo_contents ?q ! i = (fifo_contents q @ [x]) ! i"
        using tail_slot_free [of i ?c ?m ?h]
        by (cases "i < ?c") (auto simp: fifo_contents_def nth_append nth_list_update)
    qed simp
    with r 3 ok show thesis
      by (intro added [of ?q]) (simp_all add: fifo_ok_def fifo_valid_bit flag_constant_bits)
  qed
qed

lemma dequeue_spec:
  assumes ok: "fifo_ok q" and "0 < item_count q" "dequeue q = (x, q')"
  shows "fifo_ok q' \<and> fifo_contents q = x # fifo_contents q' \<and> max_items q' = max_items q \<and>
    guac_fifo_is_valid q' = guac_fifo_is_valid q \<and> value_mutex (fifo_state q') = value_mutex (fifo_state q)"
proof -
  let ?c = "item_count q" and ?m = "max_items q" and ?h = "head_index q"
  from assms(3) have x: "x = items q ! ?h" and q': "items q' = items q" "max_items q' = ?m" "item_count q' = ?c - 1"
    "head_index q' = (?h + 1) mod ?m"
    and f: "fifo_state q' = guac_flag_set (if ?c - 1 = 0 then guac_flag_clear (fifo_state q) GUAC_FIFO_STATE_NONEMPTY
      else fifo_state q) GUAC_FIFO_STATE_READY"
    by (auto simp: dequeue_def Let_def)
  have "fifo_contents q = x # fifo_contents q'"
  proof (rule nth_equalityI)
    show "length (fifo_contents q) = length (x # fifo_contents q')" using q' assms(2) by simp
    fix i assume i: "i < length (fifo_contents q)"
    show "fifo_contents q ! i = (x # fifo_contents q') ! i"
    proof (cases i)
      case 0
      with assms x show ?thesis by (simp add: fifo_contents_def fifo_ok_def)
    next
      case (Suc j)
      have "((?h + 1) mod ?m + j) mod ?m = (?h + Suc j) mod ?m" by (simp add: mod_add_left_eq)
      moreover have "j < ?c - Suc 0" using Suc i by simp
      ultimately show ?thesis using Suc i q' by (simp add: fifo_contents_def)
    qed
  qed
  moreover have "fifo_ok q'" using ok q' f assms(2)
    by (auto simp: fifo_ok_def flag_constant_bits)
  ultimately show ?thesis using q' f by (auto simp: fifo_valid_bit flag_constant_bits)
qed

text \<open>
  Both ways to take an item: without a timeout, or with one that may have lapsed.
\<close>

datatype deq_call = Wait | Wait_for int bool

fun fifo_deq :: "deq_call \<Rightarrow> 'a guac_fifo \<Rightarrow> ('a option \<times> 'a guac_fifo) option" where
  "fifo_deq Wait q = guac_fifo_dequeue q"
| "fifo_deq (Wait_for msec lapsed) q = guac_fifo_timed_dequeue q msec lapsed"

lemma locked_dequeue_spec:
  assumes ok: "fifo_ok q" and "0 < item_count q"
    and "dequeue (q\<lparr>fifo_state := guac_flag_lock (fifo_state q)\<rparr>) = (x, q')"
  shows "fifo_ok (guac_fifo_unlock q') \<and> fifo_contents q = x # fifo_contents (guac_fifo_unlock q') \<and>
    max_items (guac_fifo_unlock q') = max_items q \<and>
    guac_fifo_is_valid (guac_fifo_unlock q') = guac_fifo_is_valid q \<and>
    value_mutex (fifo_state (guac_fifo_unlock q')) = value_mutex (fifo_state q)"
proof -
  let ?q = "q\<lparr>fifo_state := guac_flag_lock (fifo_state q)\<rparr>"
  have "fifo_ok ?q" using ok by (simp add: fifo_ok_def)
  with dequeue_spec [OF this _ assms(3)] assms(2) show ?thesis
    by (simp add: fifo_ok_def fifo_contents_def guac_fifo_unlock_def fifo_valid_bit)
qed

lemma deq_cases:
  assumes ok: "fifo_ok q"
  obtains (refused) q' where "\<not> guac_fifo_is_valid q" "fifo_deq c q = Some (None, q')"
      "fifo_ok q'" "\<not> guac_fifo_is_valid q'" "fifo_contents q' = fifo_contents q"
      "value_mutex (fifo_state q') = value_mutex (fifo_state q)"
  | (waits) "guac_fifo_is_valid q" "item_count q = 0" "fifo_deq c q = None"
  | (timeout) q' where "c \<noteq> Wait" "guac_fifo_is_valid q" "item_count q = 0" "fifo_deq c q = Some (None, q')"
      "fifo_ok q'" "guac_fifo_is_valid q'" "fifo_contents q' = fifo_contents q"
      "value_mutex (fifo_state q') = value_mutex (fifo_state q)"
  | (taken) x q' where "guac_fifo_is_valid q" "0 < item_count q" "fifo_deq c q = Some (Some x, q')" "fifo_ok q'"
      "guac_fifo_is_valid q'" "fifo_contents q = x # fifo_contents q'"
      "value_mutex (fifo_state q') = value_mutex (fifo_state q)"
proof -
  let ?f = "fifo_state q" and ?l = "q\<lparr>fifo_state := guac_flag_lock (fifo_state q)\<rparr>"
  note defs = guac_fifo_dequeue_def guac_fifo_dequeue_and_lock_def guac_flag_wait_and_lock_def
    guac_fifo_timed_dequeue_def guac_fifo_timed_dequeue_and_lock_def guac_flag_timedwait_and_lock_def
    flag_tests fifo_valid_bit Let_def unsigned_eq_0_iff
  have u: "q\<lparr>fifo_state := guac_flag_unlock (guac_flag_lock ?f)\<rparr> = q" "guac_fifo_unlock ?l = q"
    by (simp_all add: guac_fifo_unlock_def guac_flag_unlock_def guac_flag_lock_def)
  consider "bit (flag_value ?f) 2" | "\<not> bit (flag_value ?f) 2" "item_count q = 0"
    | "\<not> bit (flag_value ?f) 2" "0 < item_count q" by blast
  then show thesis
  proof cases
    case 1
    then have "fifo_deq c q = Some (None, q)"
      by (cases c) (simp_all add: defs u)
    with 1 ok show thesis by (intro refused [of q]) (simp_all add: fifo_valid_bit)
  next
    case 2
    then have b: "\<not> bit (flag_value ?f) 1" using ok by (simp add: fifo_ok_def)
    have "fifo_deq c q = None \<or> c \<noteq> Wait \<and> fifo_deq c q = Some (None, q)"
      using 2 b by (cases c) (simp_all add: defs u)
    with 2 ok show thesis by (elim disjE) (auto simp: fifo_valid_bit intro: waits timeout [of q])
  next
    case 3
    then have b: "bit (flag_value ?f) 1" using ok by (simp add: fifo_ok_def)
    obtain x q' where d: "dequeue ?l = (x, q')" by fastforce
    have "fifo_deq c q = Some (Some x, guac_fifo_unlock q')"
      using 3 b d by (cases c) (simp_all add: defs)
    with 3 locked_dequeue_spec [OF ok _ d] show thesis
      by (intro taken [of x "guac_fifo_unlock q'"]) (simp_all add: fifo_valid_bit)
  qed
qed

section \<open>Queues shared by threads\<close>

text \<open>
  The calls that threads complete on a queue, in the order in which they hold its lock. \<open>Put x\<close> and
  \<open>Got x\<close> are calls that return 1, \<open>Refused\<close> is any call that returns 0.
\<close>

datatype 'a event = Put 'a | Got 'a | Refused | Invalidated

inductive queue_run ::
    "('q \<Rightarrow> 'a \<Rightarrow> (bool \<times> 'q) outcome option) \<Rightarrow> ('c \<Rightarrow> 'q \<Rightarrow> ('a option \<times> 'q) option) \<Rightarrow> ('q \<Rightarrow> 'q) \<Rightarrow>
     'q \<Rightarrow> 'a event list \<Rightarrow> 'q \<Rightarrow> bool"
  for enq deq inval q where
  run_start: "queue_run enq deq inval q [] q"
| run_put: "queue_run enq deq inval q es q1 \<Longrightarrow> enq q1 x = Some (Inr (True, q2)) \<Longrightarrow>
    queue_run enq deq inval q (es @ [Put x]) q2"
| run_put_refused: "queue_run enq deq inval q es q1 \<Longrightarrow> enq q1 x = Some (Inr (False, q2)) \<Longrightarrow>
    queue_run enq deq inval q (es @ [Refused]) q2"
| run_get: "queue_run enq deq inval q es q1 \<Longrightarrow> deq c q1 = Some (Some x, q2) \<Longrightarrow>
    queue_run enq deq inval q (es @ [Got x]) q2"
| run_get_refused: "queue_run enq deq inval q es q1 \<Longrightarrow> deq c q1 = Some (None, q2) \<Longrightarrow>
    queue_run enq deq inval q (es @ [Refused]) q2"
| run_invalidate: "queue_run enq deq inval q es q1 \<Longrightarrow>
    queue_run enq deq inval q (es @ [Invalidated]) (inval q1)"

fun puts :: "'a event list \<Rightarrow> 'a list" where
  "puts [] = []"
| "puts (Put x # es) = x # puts es"
| "puts (e # es) = puts es"

fun gots :: "'a event list \<Rightarrow> 'a list" where
  "gots [] = []"
| "gots (Got x # es) = x # gots es"
| "gots (e # es) = gots es"

lemma puts_append [simp]: "puts (xs @ ys) = puts xs @ puts ys"
  by (induction xs rule: puts.induct) simp_all

lemma gots_append [simp]: "gots (xs @ ys) = gots xs @ gots ys"
  by (induction xs rule: gots.induct) simp_all

text \<open>The contract of a queue, and what follows from it for every interleaving.\<close>

locale shared_queue =
  fixes enq :: "'q \<Rightarrow> 'a \<Rightarrow> (bool \<times> 'q) outcome option"
    and deq :: "'c \<Rightarrow> 'q \<Rightarrow> ('a option \<times> 'q) option"
    and inval :: "'q \<Rightarrow> 'q"
    and ok :: "'q \<Rightarrow> bool"
    and contents :: "'q \<Rightarrow> 'a list"
  assumes enq_result: "ok q \<Longrightarrow> enq q x = Some r \<Longrightarrow>
      \<exists>b q'. r = Inr (b, q') \<and> ok q' \<and> contents q' = (if b then contents q @ [x] else contents q)"
    and deq_result: "ok q \<Longrightarrow> deq c q = Some (item, q') \<Longrightarrow>
      ok q' \<and> contents q = (case item of None \<Rightarrow> contents q' | Some x \<Rightarrow> x # contents q')"
    and inval_result: "ok q \<Longrightarrow> ok (inval q) \<and> contents (inval q) = contents q"
begin

lemma run_order:
  "queue_run enq deq inval q es q' \<Longrightarrow> ok q \<Longrightarrow> ok q' \<and> contents q @ puts es = gots es @ contents q'"
proof (induction rule: queue_run.induct)
  case (run_put es q1 x q2)
  then show ?case using enq_result [of q1 x "Inr (True, q2)"] by auto
next
  case (run_put_refused es q1 x q2)
  then show ?case using enq_result [of q1 x "Inr (False, q2)"] by auto
next
  case (run_get es q1 c x q2)
  then show ?case using deq_result [of q1 c "Some x" q2] by auto
next
  case (run_get_refused es q1 c q2)
  then show ?case using deq_result [of q1 c None q2] by auto
next
  case (run_invalidate es q1)
  then show ?case using inval_result [of q1] by auto
qed simp

end

interpretation fifo: shared_queue guac_fifo_enqueue fifo_deq guac_fifo_invalidate fifo_ok fifo_contents
proof (unfold_locales, goal_cases)
  case (1 q x r)
  then show ?case by (cases rule: enqueue_cases [OF 1(1), of x]) auto
next
  case (2 q c r q')
  then show ?case by (cases rule: deq_cases [OF 2(1), of c]) auto
next
  case (3 q)
  then show ?case
    by (simp add: fifo_ok_def fifo_contents_def guac_fifo_invalidate_def flag_constant_bits)
qed

lemma fifo_init_ok: "mem \<noteq> [] \<Longrightarrow> fifo_ok (guac_fifo_init mem) \<and> fifo_contents (guac_fifo_init mem) = []"
  by (simp add: fifo_ok_def fifo_contents_def guac_fifo_init_def flag_constant_bits guac_flag_init_def)

section \<open>Properties\<close>

text \<open>
  C29: first in, first out. From an empty queue, in every interleaving of completed calls by any
  number of threads, with or without timeouts and invalidation, the items taken are the items put, in
  the same order, followed by those still in the ring; and the queue stays well formed.
\<close>

theorem guac_fifo_order:
  assumes "mem \<noteq> []" "queue_run guac_fifo_enqueue fifo_deq guac_fifo_invalidate (guac_fifo_init mem) es q"
  shows "fifo_ok q \<and> puts es = gots es @ fifo_contents q"
  using fifo.run_order [OF assms(2)] fifo_init_ok [OF assms(1)] by simp

theorem guac_fifo_order_witness:
  "\<exists>q. queue_run guac_fifo_enqueue fifo_deq guac_fifo_invalidate (guac_fifo_init [0, 0 :: nat])
      [Put 7, Put 8, Got 7] q \<and> fifo_contents q = [8]"
proof -
  let ?i = "guac_fifo_init [0, 0 :: nat]"
  have i: "fifo_ok ?i" "fifo_contents ?i = []" "guac_fifo_is_valid ?i" "item_count ?i = 0" "max_items ?i = 2"
    using fifo_init_ok [of "[0, 0 :: nat]"]
    by (simp_all add: guac_fifo_init_def guac_flag_init_def fifo_valid_bit flag_constant_bits)
  obtain q1 where q1: "guac_fifo_enqueue ?i 7 = Some (Inr (True, q1))" "fifo_ok q1" "guac_fifo_is_valid q1"
    "fifo_contents q1 = [7]" "max_items q1 = 2"
    by (rule enqueue_cases [OF i(1), of 7]) (use i in auto)
  then have c1: "item_count q1 = 1" by (metis length_fifo_contents length_Cons list.size(3) One_nat_def)
  obtain q2 where q2: "guac_fifo_enqueue q1 8 = Some (Inr (True, q2))" "fifo_ok q2" "guac_fifo_is_valid q2"
    "fifo_contents q2 = [7, 8]"
    by (rule enqueue_cases [OF q1(2), of 8]) (use q1 c1 in auto)
  then have c2: "item_count q2 = 2" by (metis length_fifo_contents length_Cons list.size(3) numeral_2_eq_2)
  obtain q3 where q3: "fifo_deq Wait q2 = Some (Some 7, q3)"
    by (rule deq_cases [OF q2(2), of Wait]) (use q2 c2 in auto)
  have "queue_run guac_fifo_enqueue fifo_deq guac_fifo_invalidate ?i ((([] @ [Put 7]) @ [Put 8]) @ [Got 7]) q3"
    by (rule run_get [of guac_fifo_enqueue fifo_deq, OF _ q3])
      (rule run_put [of guac_fifo_enqueue fifo_deq, OF _ q2(1)],
        rule run_put [of guac_fifo_enqueue fifo_deq, OF _ q1(1)], rule run_start)
  with guac_fifo_order [of "[0, 0 :: nat]" "(([] @ [Put 7]) @ [Put 8]) @ [Got 7]" q3] show ?thesis by auto
qed

text \<open>
  What an enqueue does in each state. It never aborts; on a valid queue it waits exactly when the
  ring is full and otherwise appends the item; on an invalidated queue it returns 0 and changes
  nothing; and the lock is released.
\<close>

theorem guac_fifo_enqueue_spec:
  assumes "fifo_ok q"
  shows "case guac_fifo_enqueue q x of
      None \<Rightarrow> guac_fifo_is_valid q \<and> item_count q = max_items q
    | Some (Inl e) \<Rightarrow> False
    | Some (Inr (added, q')) \<Rightarrow> added = guac_fifo_is_valid q \<and> fifo_ok q' \<and>
        fifo_contents q' = (if added then fifo_contents q @ [x] else fifo_contents q) \<and>
        value_mutex (fifo_state q') = value_mutex (fifo_state q)"
  by (rule enqueue_cases [OF assms, of x]) auto

theorem guac_fifo_enqueue_spec_witness:
  "fifo_ok (guac_fifo_init [0 :: nat]) \<and> (case guac_fifo_enqueue (guac_fifo_init [0 :: nat]) 5 of
     None \<Rightarrow> False | Some (Inl e) \<Rightarrow> False | Some (Inr (added, q')) \<Rightarrow> added)"
proof -
  let ?i = "guac_fifo_init [0 :: nat]"
  have "fifo_ok ?i" "guac_fifo_is_valid ?i" "item_count ?i = 0" "max_items ?i = 1"
    using fifo_init_ok [of "[0 :: nat]"]
    by (simp_all add: guac_fifo_init_def guac_flag_init_def fifo_valid_bit flag_constant_bits)
  with guac_fifo_enqueue_spec [of ?i 5] show ?thesis
    by (auto split: option.splits sum.splits prod.splits)
qed

text \<open>
  The deadline of a timed wait. Up to 4294 milliseconds it lies exactly the timeout after the
  present time, with the nanoseconds normalised.
\<close>

theorem flag_deadline_exact:
  assumes "uint msec \<le> 4294" "flag_deadline msec sec nsec = (s, n)"
  shows "0 \<le> n \<and> n < 1000000000 \<and> s * 1000000000 + n = sec * 1000000000 + nsec + uint msec * 1000000"
proof -
  have "uint (msec * 1000000) = uint msec * 1000000 mod 2 ^ 32"
    by (simp add: uint_word_ariths take_bit_eq_mod)
  also have "\<dots> = uint msec * 1000000" using assms(1) by (intro mod_pos_pos_trivial) simp_all
  finally show ?thesis using assms(2) by (auto simp: flag_deadline_def Let_def distrib_right)
qed

theorem flag_deadline_exact_witness: "flag_deadline 1500 7 600000000 = (9, 100000000)"
proof -
  obtain s n where d: "flag_deadline 1500 7 600000000 = (s, n)" by fastforce
  from flag_deadline_exact [OF _ d] have "0 \<le> n" "n < 1000000000" "s * 1000000000 + n = 9100000000" by simp_all
  then have "s = 9" by linarith
  with \<open>s * 1000000000 + n = 9100000000\<close> d show ?thesis by simp
qed

text \<open>
  C39: the product of a timeout of 4295 milliseconds or more with 1000000 does not fit \<open>unsigned int\<close>: every such
  wait ends too early, after the product modulo \<open>2 ^ 32\<close> nanoseconds, which is less than 4.3 seconds.
\<close>

theorem flag_deadline_wraps:
  assumes "4295 \<le> uint msec" "flag_deadline msec sec nsec = (s, n)"
  shows "s * 1000000000 + n = sec * 1000000000 + nsec + uint msec * 1000000 mod 2 ^ 32 \<and>
    s * 1000000000 + n < sec * 1000000000 + nsec + uint msec * 1000000 \<and>
    s * 1000000000 + n < sec * 1000000000 + nsec + 4295000000"
proof -
  have "uint (msec * 1000000) = uint msec * 1000000 mod 2 ^ 32" by (simp add: uint_word_ariths)
  then have "s * 1000000000 + n = sec * 1000000000 + nsec + uint msec * 1000000 mod 2 ^ 32"
    using assms(2) by (auto simp: flag_deadline_def Let_def distrib_right)
  moreover have "uint msec * 1000000 mod 2 ^ 32 < 4294967296" by simp
  ultimately show ?thesis using assms(1) by linarith
qed

theorem flag_deadline_wraps_witness: "flag_deadline 5000 0 0 = (0, 705032704) \<and> (705032704 :: int) < 5000 * 1000000"
proof -
  have d: "flag_deadline 5000 0 0 = (0, 705032704)" by (simp add: flag_deadline_def)
  from flag_deadline_wraps [OF _ d] d show ?thesis by simp
qed

end
