(* ===== verification/DisplayRender.thy ===== *)
theory DisplayRender
  imports DisplayFlush Fifo
begin

text \<open>
  The render thread (\<open>libguac/display-render-thread.c\<close>), which decides where one frame of a display ends
  and the next begins, with the notifications of other threads: as steps between which any other
  thread may run. The theorems show that no frame that has been announced is lost or counted twice,
  and how the position of the mouse can be lost.
\<close>

section \<open>The state\<close>

definition GUAC_DISPLAY_RENDER_THREAD_STATE_STOPPING :: "32 word" where "GUAC_DISPLAY_RENDER_THREAD_STATE_STOPPING = 1"
definition GUAC_DISPLAY_RENDER_THREAD_STATE_FRAME_MODIFIED :: "32 word" where "GUAC_DISPLAY_RENDER_THREAD_STATE_FRAME_MODIFIED = 2"
definition GUAC_DISPLAY_RENDER_THREAD_STATE_FRAME_READY :: "32 word" where "GUAC_DISPLAY_RENDER_THREAD_STATE_FRAME_READY = 4"

lemmas render_flags = GUAC_DISPLAY_RENDER_THREAD_STATE_STOPPING_def GUAC_DISPLAY_RENDER_THREAD_STATE_FRAME_MODIFIED_def
  GUAC_DISPLAY_RENDER_THREAD_STATE_FRAME_READY_def

definition GUAC_DISPLAY_RENDER_THREAD_MAX_FRAME_DURATION :: int where "GUAC_DISPLAY_RENDER_THREAD_MAX_FRAME_DURATION = 100"
definition GUAC_DISPLAY_RENDER_THREAD_MIN_FRAME_DURATION :: int where "GUAC_DISPLAY_RENDER_THREAD_MIN_FRAME_DURATION = 10"
definition GUAC_DISPLAY_MAX_LAG_COMPENSATION :: int where "GUAC_DISPLAY_MAX_LAG_COMPENSATION = 500"

record guac_display_render_thread_cursor_state =
  cursor_user :: "nat option"
  cursor_x :: int
  cursor_y :: int
  cursor_mask :: int

record guac_display_render_thread =
  render_state :: guac_flag
  render_cursor :: guac_display_render_thread_cursor_state
  render_frames :: "32 word"

definition guac_display_render_thread_create :: guac_display_render_thread where
  "guac_display_render_thread_create = \<lparr>render_state = guac_flag_init,
     render_cursor = \<lparr>cursor_user = None, cursor_x = 0, cursor_y = 0, cursor_mask = 0\<rparr>, render_frames = 0\<rparr>"

section \<open>Notifications\<close>

definition guac_display_render_thread_notify_modified :: "guac_display_render_thread \<Rightarrow> guac_display_render_thread" where
  "guac_display_render_thread_notify_modified rt =
     rt\<lparr>render_state := guac_flag_set (render_state rt) GUAC_DISPLAY_RENDER_THREAD_STATE_FRAME_MODIFIED\<rparr>"

definition guac_display_render_thread_notify_frame :: "guac_display_render_thread \<Rightarrow> guac_display_render_thread" where
  "guac_display_render_thread_notify_frame rt =
     rt\<lparr>render_state := guac_flag_unlock (guac_flag_set_and_lock (render_state rt) GUAC_DISPLAY_RENDER_THREAD_STATE_FRAME_READY),
        render_frames := render_frames rt + 1\<rparr>"

definition guac_display_render_thread_notify_user_moved_mouse ::
    "nat \<Rightarrow> int \<Rightarrow> int \<Rightarrow> int \<Rightarrow> guac_display_render_thread \<Rightarrow> guac_display_render_thread" where
  "guac_display_render_thread_notify_user_moved_mouse user x y mask_bits rt =
     rt\<lparr>render_state := guac_flag_unlock (guac_flag_set_and_lock (render_state rt) GUAC_DISPLAY_RENDER_THREAD_STATE_FRAME_MODIFIED),
        render_cursor := \<lparr>cursor_user = Some user, cursor_x = x, cursor_y = y, cursor_mask = mask_bits\<rparr>\<rparr>"

text \<open>The signal of \<open>guac_display_render_thread_destroy\<close>, which then waits for the end of the thread.\<close>

definition guac_display_render_thread_destroy :: "guac_display_render_thread \<Rightarrow> guac_display_render_thread" where
  "guac_display_render_thread_destroy rt =
     rt\<lparr>render_state := guac_flag_set (render_state rt) GUAC_DISPLAY_RENDER_THREAD_STATE_STOPPING\<rparr>"

section \<open>The render loop\<close>

text \<open>
  Where the thread is between two steps: at the head of the loop; waiting for a change; before the check
  for an explicit frame boundary, after the delay; before the check for further changes; about to end the
  frame; or finished. The copy of the cursor state, the start of the frame and the number of rendered
  frames are its local variables.
\<close>

datatype render_point =
    At_head
  | At_wait guac_display_render_thread_cursor_state
  | At_boundary guac_display_render_thread_cursor_state int "32 word"
  | At_more guac_display_render_thread_cursor_state int "32 word"
  | At_end guac_display_render_thread_cursor_state "32 word"
  | Stopped

text \<open>
  The delay before the check for a frame boundary, from the duration of the frame, the time since the
  last frame and the processing lag of the client.
\<close>

definition required_wait :: "int \<Rightarrow> int \<Rightarrow> int \<Rightarrow> int" where
  "required_wait frame_duration time_since_last_frame processing_lag = (
    let required = wrap32 (processing_lag - time_since_last_frame);
        minimum = wrap32 (GUAC_DISPLAY_RENDER_THREAD_MIN_FRAME_DURATION - frame_duration)
    in if minimum > required then minimum
       else if required > GUAC_DISPLAY_MAX_LAG_COMPENSATION then GUAC_DISPLAY_MAX_LAG_COMPENSATION
       else required)"

text \<open>
  The head of the inner loop, with the state locked, at the time \<open>now\<close>: either the frame has lasted too
  long, or the cursor is copied and the modification is taken note of. Both unlock the state.
\<close>

definition frame_turn :: "int \<Rightarrow> guac_display_render_thread_cursor_state \<Rightarrow> int \<Rightarrow> 32 word \<Rightarrow>
    guac_display_render_thread \<Rightarrow> render_point \<times> guac_display_render_thread" where
  "frame_turn now cursor frame_start rendered_frames rt = (
    let frame_duration = wrap32 (now - frame_start)
    in if frame_duration > GUAC_DISPLAY_RENDER_THREAD_MAX_FRAME_DURATION
       then (At_end cursor rendered_frames, rt\<lparr>render_state := guac_flag_unlock (render_state rt)\<rparr>)
       else (At_boundary (render_cursor rt) frame_start rendered_frames,
         rt\<lparr>render_state := guac_flag_unlock (guac_flag_clear (render_state rt) GUAC_DISPLAY_RENDER_THREAD_STATE_FRAME_MODIFIED)\<rparr>))"

text \<open>
  One step of the thread at the time \<open>now\<close> (\<open>start\<close> is the reading of the clock just before, at which a frame starts): where it is next, the shared state, and the call of
  \<open>guac_display_end_multiple_frames\<close> that it makes, if any, with the cursor state it has passed on.
  \<open>None\<close>: the thread waits. The delay is a step of its own kind only in that any time may pass.
\<close>

fun guac_display_render_loop :: "int \<Rightarrow> int \<Rightarrow> render_point \<Rightarrow> guac_display_render_thread \<Rightarrow>
    (render_point \<times> guac_display_render_thread \<times> (guac_display_render_thread_cursor_state \<times> 32 word) option) option" where
  "guac_display_render_loop start now At_head rt = Some (At_wait (render_cursor rt), rt, None)"
| "guac_display_render_loop start now (At_wait cursor) rt = (
    case guac_flag_wait_and_lock (render_state rt) (GUAC_DISPLAY_RENDER_THREAD_STATE_STOPPING OR
        GUAC_DISPLAY_RENDER_THREAD_STATE_FRAME_READY OR GUAC_DISPLAY_RENDER_THREAD_STATE_FRAME_MODIFIED) of
      None \<Rightarrow> None
    | Some st \<Rightarrow>
        if flag_value st AND GUAC_DISPLAY_RENDER_THREAD_STATE_STOPPING \<noteq> 0
        then Some (Stopped, rt\<lparr>render_state := guac_flag_unlock st\<rparr>, None)
        else (case frame_turn now cursor start 0 (rt\<lparr>render_state := st\<rparr>) of (p, rt) \<Rightarrow> Some (p, rt, None)))"
| "guac_display_render_loop start now (At_boundary cursor frame_start rendered_frames) rt = (
    case guac_flag_timedwait_and_lock (render_state rt) GUAC_DISPLAY_RENDER_THREAD_STATE_FRAME_READY 0 True of
      None \<Rightarrow> None
    | Some (retval, st) \<Rightarrow>
        if retval \<noteq> 0
        then Some (At_end cursor (rendered_frames + render_frames rt),
          rt\<lparr>render_frames := 0, render_state := guac_flag_unlock (guac_flag_clear st
            (GUAC_DISPLAY_RENDER_THREAD_STATE_FRAME_READY OR GUAC_DISPLAY_RENDER_THREAD_STATE_FRAME_MODIFIED))\<rparr>, None)
        else Some (At_more cursor frame_start rendered_frames, rt\<lparr>render_state := st\<rparr>, None))"
| "guac_display_render_loop start now (At_more cursor frame_start rendered_frames) rt = (
    case guac_flag_timedwait_and_lock (render_state rt) (GUAC_DISPLAY_RENDER_THREAD_STATE_STOPPING OR
        GUAC_DISPLAY_RENDER_THREAD_STATE_FRAME_READY OR GUAC_DISPLAY_RENDER_THREAD_STATE_FRAME_MODIFIED) 0 True of
      None \<Rightarrow> None
    | Some (retval, st) \<Rightarrow>
        if retval \<noteq> 0
        then (case frame_turn now cursor frame_start rendered_frames (rt\<lparr>render_state := st\<rparr>) of (p, rt) \<Rightarrow> Some (p, rt, None))
        else Some (At_end cursor rendered_frames, rt\<lparr>render_state := st\<rparr>, None))"
| "guac_display_render_loop start now (At_end cursor rendered_frames) rt = Some (At_head, rt, Some (cursor, rendered_frames))"
| "guac_display_render_loop start now Stopped rt = None"

text \<open>What a call of the thread does to the display.\<close>

definition render_frame :: "nat list \<Rightarrow> bool \<Rightarrow> int \<Rightarrow> guac_display_render_thread_cursor_state \<times> 32 word \<Rightarrow> guac_display \<Rightarrow>
    (guac_display \<times> flush) outcome option" where
  "render_frame users busy now call d = (case call of (cursor, rendered_frames) \<Rightarrow>
     guac_display_end_multiple_frames users busy now (unat rendered_frames) (d\<lparr>display_pending_frame := (display_pending_frame d)
       \<lparr>frame_cursor_user := cursor_user cursor, frame_cursor_x := cursor_x cursor, frame_cursor_y := cursor_y cursor,
        frame_cursor_mask := cursor_mask cursor\<rparr>\<rparr>))"

section \<open>Runs\<close>

text \<open>
  The thread among others: the shared state, where the thread is, the calls it has made, and the number of
  frames that have been announced.
\<close>

record render_run =
  run_thread :: guac_display_render_thread
  run_point :: render_point
  run_calls :: "(guac_display_render_thread_cursor_state \<times> 32 word) list"
  run_announced :: nat

definition render_start :: render_run where
  "render_start = \<lparr>run_thread = guac_display_render_thread_create, run_point = At_head, run_calls = [], run_announced = 0\<rparr>"

inductive render_step :: "render_run \<Rightarrow> render_run \<Rightarrow> bool" where
  turn: "guac_display_render_loop start now (run_point s) (run_thread s) = Some (p, rt, call) \<Longrightarrow>
    render_step s (s\<lparr>run_point := p, run_thread := rt, run_calls := run_calls s @ (case call of None \<Rightarrow> [] | Some c \<Rightarrow> [c])\<rparr>)"
| modified: "render_step s (s\<lparr>run_thread := guac_display_render_thread_notify_modified (run_thread s)\<rparr>)"
| frame: "render_step s (s\<lparr>run_thread := guac_display_render_thread_notify_frame (run_thread s), run_announced := run_announced s + 1\<rparr>)"
| mouse: "render_step s (s\<lparr>run_thread := guac_display_render_thread_notify_user_moved_mouse user x y m (run_thread s)\<rparr>)"
| stop: "render_step s (s\<lparr>run_thread := guac_display_render_thread_destroy (run_thread s)\<rparr>)"

inductive_cases render_stepE: "render_step s t"

section \<open>Specification\<close>

text \<open>The frames that the thread has taken and not yet rendered.\<close>

fun taken :: "render_point \<Rightarrow> 32 word" where
  "taken (At_boundary c t n) = n"
| "taken (At_more c t n) = n"
| "taken (At_end c n) = n"
| "taken _ = 0"

definition flagged :: "guac_display_render_thread \<Rightarrow> 32 word \<Rightarrow> bool" where
  "flagged rt f \<longleftrightarrow> flag_value (render_state rt) AND f \<noteq> 0"

lemmas flag_defs = guac_flag_set_def guac_flag_set_and_lock_def guac_flag_clear_def guac_flag_clear_and_lock_def
  guac_flag_lock_def guac_flag_unlock_def guac_flag_wait_and_lock_def guac_flag_timedwait_and_lock_def Let_def

definition render_inv :: "render_run \<Rightarrow> bool" where
  "render_inv s \<longleftrightarrow> sum_list (map snd (run_calls s)) + taken (run_point s) + render_frames (run_thread s) = of_nat (run_announced s) \<and>
     (render_frames (run_thread s) \<noteq> 0 \<longrightarrow> flagged (run_thread s) GUAC_DISPLAY_RENDER_THREAD_STATE_FRAME_READY) \<and>
     value_mutex (render_state (run_thread s)) = 0"

lemma flagged_iff:
  "flagged rt GUAC_DISPLAY_RENDER_THREAD_STATE_STOPPING \<longleftrightarrow> bit (flag_value (render_state rt)) 0"
  "flagged rt GUAC_DISPLAY_RENDER_THREAD_STATE_FRAME_MODIFIED \<longleftrightarrow> bit (flag_value (render_state rt)) 1"
  "flagged rt GUAC_DISPLAY_RENDER_THREAD_STATE_FRAME_READY \<longleftrightarrow> bit (flag_value (render_state rt)) 2"
  using and_exp_eq_0_iff_not_bit [of "flag_value (render_state rt)" 0] and_exp_eq_0_iff_not_bit [of "flag_value (render_state rt)" 1]
    and_exp_eq_0_iff_not_bit [of "flag_value (render_state rt)" 2]
  by (simp_all add: flagged_def render_flags)

lemma render_bits [simp]:
  "bit GUAC_DISPLAY_RENDER_THREAD_STATE_STOPPING k \<longleftrightarrow> k = 0"
  "bit GUAC_DISPLAY_RENDER_THREAD_STATE_FRAME_MODIFIED k \<longleftrightarrow> k = 1"
  "bit GUAC_DISPLAY_RENDER_THREAD_STATE_FRAME_READY k \<longleftrightarrow> k = 2"
  using bit_exp_iff [where 'a = "32 word", of 0 k] bit_exp_iff [where 'a = "32 word", of 1 k] bit_exp_iff [where 'a = "32 word", of 2 k]
  by (auto simp: render_flags)

text \<open>Being flagged after a flag is set or cleared.\<close>

lemma flag_value_simps [simp]:
  "flag_value (guac_flag_set f x) = flag_value f OR x" "flag_value (guac_flag_set_and_lock f x) = flag_value f OR x"
  "flag_value (guac_flag_clear f x) = flag_value f AND NOT x" "flag_value (guac_flag_unlock f) = flag_value f"
  "flag_value (guac_flag_lock f) = flag_value f"
  "value_mutex (guac_flag_set f x) = value_mutex f" "value_mutex (guac_flag_set_and_lock f x) = value_mutex f + 1"
  "value_mutex (guac_flag_clear f x) = value_mutex f" "value_mutex (guac_flag_unlock f) = value_mutex f - 1"
  "value_mutex (guac_flag_lock f) = value_mutex f + 1"
  by (simp_all add: flag_defs)

lemma render_turn_inv:
  assumes "guac_display_render_loop start now p rt = Some (p', rt', call)" "value_mutex (render_state rt) = 0"
    and "render_frames rt \<noteq> 0 \<longrightarrow> flagged rt GUAC_DISPLAY_RENDER_THREAD_STATE_FRAME_READY"
  shows "(case call of None \<Rightarrow> 0 | Some (c, n) \<Rightarrow> n) + taken p' + render_frames rt' = taken p + render_frames rt"
    and "value_mutex (render_state rt') = 0" "render_frames rt' \<noteq> 0 \<longrightarrow> flagged rt' GUAC_DISPLAY_RENDER_THREAD_STATE_FRAME_READY"
  using assms
  by (cases p; auto simp: frame_turn_def guac_flag_wait_and_lock_def guac_flag_timedwait_and_lock_def Let_def flagged_iff
      bit_or_iff bit_and_iff bit_not_iff_eq split: if_splits)+

lemma render_step_inv:
  assumes "render_step s t" "render_inv s"
  shows "render_inv t"
  using assms(1)
proof cases
  case (turn start now p rt call)
  note t = render_turn_inv [OF turn(2)]
  have c: "sum_list (map snd (case call of None \<Rightarrow> [] | Some c \<Rightarrow> [c])) = (case call of None \<Rightarrow> 0 | Some (c, n) \<Rightarrow> n)"
    by (simp split: option.splits prod.splits)
  show ?thesis using t assms(2) unfolding turn(1) render_inv_def by (simp add: c add.assoc)
qed (use assms(2) in \<open>auto simp: render_inv_def guac_display_render_thread_notify_modified_def guac_display_render_thread_notify_frame_def
    guac_display_render_thread_notify_user_moved_mouse_def guac_display_render_thread_destroy_def flagged_iff bit_or_iff algebra_simps\<close>)

lemma render_reachable_inv:
  assumes "render_step\<^sup>*\<^sup>* render_start s"
  shows "render_inv s"
  using assms
proof (induction rule: rtranclp_induct)
  case base
  then show ?case by (simp add: render_inv_def render_start_def guac_display_render_thread_create_def guac_flag_init_def)
qed (rule render_step_inv)

section \<open>Properties\<close>

text \<open>
  C8: No frame is lost or counted twice, under every interleaving of the render thread with the threads
  that notify it: the frames passed to the display, those taken and those still waiting always add up to
  the frames announced (modulo the width of the counter), and when the thread waits for a change, the
  display has got all of them.
\<close>

theorem guac_display_render_frames_conserved:
  assumes "render_step\<^sup>*\<^sup>* render_start s"
  shows "sum_list (map snd (run_calls s)) + taken (run_point s) + render_frames (run_thread s) = of_nat (run_announced s) \<and>
    (run_point s = At_wait c \<and> guac_display_render_loop start now (run_point s) (run_thread s) = None \<longrightarrow>
      sum_list (map snd (run_calls s)) = of_nat (run_announced s))"
proof -
  have inv: "render_inv s" by (rule render_reachable_inv [OF assms])
  have "render_frames (run_thread s) = 0" if "run_point s = At_wait c" "guac_display_render_loop start now (run_point s) (run_thread s) = None"
  proof -
    have "flag_value (render_state (run_thread s)) AND (GUAC_DISPLAY_RENDER_THREAD_STATE_STOPPING OR
        GUAC_DISPLAY_RENDER_THREAD_STATE_FRAME_READY OR GUAC_DISPLAY_RENDER_THREAD_STATE_FRAME_MODIFIED) = 0"
      using that by (auto simp: guac_flag_wait_and_lock_def split: if_splits prod.splits)
    from arg_cong [OF this, of "\<lambda>w. bit w 2"] have "\<not> flagged (run_thread s) GUAC_DISPLAY_RENDER_THREAD_STATE_FRAME_READY"
      by (simp add: flagged_iff bit_and_iff bit_or_iff)
    then show ?thesis using inv by (auto simp: render_inv_def)
  qed
  then show ?thesis using inv by (auto simp: render_inv_def)
qed

text \<open>
  The delay is bounded, and no frame without an explicit boundary is shorter than the minimum.
\<close>

lemma required_wait_bounds:
  assumes "0 \<le> frame_duration" "frame_duration \<le> GUAC_DISPLAY_RENDER_THREAD_MAX_FRAME_DURATION"
  shows "required_wait frame_duration t lag \<le> GUAC_DISPLAY_MAX_LAG_COMPENSATION"
    and "GUAC_DISPLAY_RENDER_THREAD_MIN_FRAME_DURATION \<le> frame_duration + required_wait frame_duration t lag"
proof -
  have "wrap32 (GUAC_DISPLAY_RENDER_THREAD_MIN_FRAME_DURATION - frame_duration) = GUAC_DISPLAY_RENDER_THREAD_MIN_FRAME_DURATION - frame_duration"
    using assms by (intro wrap32_id) (simp_all add: GUAC_DISPLAY_RENDER_THREAD_MIN_FRAME_DURATION_def GUAC_DISPLAY_RENDER_THREAD_MAX_FRAME_DURATION_def)
  then show "required_wait frame_duration t lag \<le> GUAC_DISPLAY_MAX_LAG_COMPENSATION"
    "GUAC_DISPLAY_RENDER_THREAD_MIN_FRAME_DURATION \<le> frame_duration + required_wait frame_duration t lag"
    using assms by (auto simp: required_wait_def Let_def GUAC_DISPLAY_RENDER_THREAD_MIN_FRAME_DURATION_def
        GUAC_DISPLAY_RENDER_THREAD_MAX_FRAME_DURATION_def GUAC_DISPLAY_MAX_LAG_COMPENSATION_def)
qed

text \<open>Runs given by the events.\<close>

datatype render_event = Turn int | Modified | Frame | Mouse nat int int int

fun render_exec :: "render_event list \<Rightarrow> render_run \<Rightarrow> render_run option" where
  "render_exec [] s = Some s"
| "render_exec (Turn now # es) s = (case guac_display_render_loop now now (run_point s) (run_thread s) of
      None \<Rightarrow> None
    | Some (p, rt, call) \<Rightarrow> render_exec es (s\<lparr>run_point := p, run_thread := rt,
        run_calls := run_calls s @ (case call of None \<Rightarrow> [] | Some c \<Rightarrow> [c])\<rparr>))"
| "render_exec (Modified # es) s = render_exec es (s\<lparr>run_thread := guac_display_render_thread_notify_modified (run_thread s)\<rparr>)"
| "render_exec (Frame # es) s = render_exec es (s\<lparr>run_thread := guac_display_render_thread_notify_frame (run_thread s),
      run_announced := run_announced s + 1\<rparr>)"
| "render_exec (Mouse user x y m # es) s =
    render_exec es (s\<lparr>run_thread := guac_display_render_thread_notify_user_moved_mouse user x y m (run_thread s)\<rparr>)"

lemma render_exec_run: "render_exec es s = Some t \<Longrightarrow> render_step\<^sup>*\<^sup>* s t"
proof (induction es s rule: render_exec.induct)
  case (2 now es s)
  then obtain p rt call where c: "guac_display_render_loop now now (run_point s) (run_thread s) = Some (p, rt, call)"
    by (auto split: option.splits)
  from converse_rtranclp_into_rtranclp [of render_step, OF render_step.turn [OF c]] 2 c show ?case by simp
qed (auto intro: converse_rtranclp_into_rtranclp render_step.intros)

theorem guac_display_render_frames_conserved_witness:
  "\<exists>s. render_exec [Turn 0, Frame, Frame, Turn 1, Turn 20, Turn 20] render_start = Some s \<and>
     sum_list (map snd (run_calls s)) + taken (run_point s) + render_frames (run_thread s) = 2"
proof -
  have "case render_exec [Turn 0, Frame, Frame, Turn 1, Turn 20, Turn 20] render_start of None \<Rightarrow> False | Some s \<Rightarrow> run_announced s = 2"
    by code_simp
  then obtain s where s: "render_exec [Turn 0, Frame, Frame, Turn 1, Turn 20, Turn 20] render_start = Some s" "run_announced s = 2"
    by (auto split: option.splits)
  from guac_display_render_frames_conserved [OF render_exec_run [OF s(1)]] s show ?thesis by simp
qed

text \<open>
  C33: A movement of the mouse can be lost. Whenever the thread has copied the position and not yet looked for a frame
  boundary, and is not being stopped, let the mouse move (to anywhere) and then an explicit boundary be announced: the
  thread clears the mark of the movement with that of the frame, ends the frame with the old position, and
  then waits although the position has changed.
\<close>

theorem guac_display_render_loses_cursor:
  assumes "render_step\<^sup>*\<^sup>* render_start s" "run_point s = At_boundary cursor frame_start n"
    and "\<not> flagged (run_thread s) GUAC_DISPLAY_RENDER_THREAD_STATE_STOPPING"
  shows "\<exists>s'. render_exec [Mouse user x y m, Frame, Turn t1, Turn t2, Turn t3] s = Some s' \<and> render_step\<^sup>*\<^sup>* s s' \<and>
    run_calls s' = run_calls s @ [(cursor, n + (render_frames (run_thread s) + 1))] \<and>
    render_cursor (run_thread s') = \<lparr>cursor_user = Some user, cursor_x = x, cursor_y = y, cursor_mask = m\<rparr> \<and>
    run_point s' = At_wait (render_cursor (run_thread s')) \<and>
    (\<forall>start now. guac_display_render_loop start now (run_point s') (run_thread s') = None)"
proof -
  let ?es = "[Mouse user x y m, Frame, Turn t1, Turn t2, Turn t3]"
  have stop: "\<not> bit (flag_value (render_state (run_thread s))) 0" using assms(3) by (simp add: flagged_iff)
  have lock: "value_mutex (render_state (run_thread s)) = 0" using render_reachable_inv [OF assms(1)] by (simp add: render_inv_def)
  define rt where "rt = guac_display_render_thread_notify_frame (guac_display_render_thread_notify_user_moved_mouse user x y m (run_thread s))"
  define st where "st = guac_flag_unlock (guac_flag_clear (guac_flag_lock (render_state rt))
    (GUAC_DISPLAY_RENDER_THREAD_STATE_FRAME_READY OR GUAC_DISPLAY_RENDER_THREAD_STATE_FRAME_MODIFIED))"
  let ?rt = "rt\<lparr>render_frames := 0, render_state := st\<rparr>"
  have rt: "render_cursor rt = \<lparr>cursor_user = Some user, cursor_x = x, cursor_y = y, cursor_mask = m\<rparr>"
    "render_frames rt = render_frames (run_thread s) + 1" "flagged rt GUAC_DISPLAY_RENDER_THREAD_STATE_FRAME_READY"
    "value_mutex (render_state rt) = 0"
    using lock by (simp_all add: rt_def flagged_iff bit_or_iff guac_display_render_thread_notify_frame_def
        guac_display_render_thread_notify_user_moved_mouse_def)
  have turn: "guac_display_render_loop t1 t1 (At_boundary cursor frame_start n) rt = Some (At_end cursor (n + render_frames rt), ?rt, None)"
    using rt(3, 4) by (simp add: guac_flag_timedwait_and_lock_def flagged_def st_def guac_flag_lock_def Let_def uint_0_iff)
  let ?s = "s\<lparr>run_thread := ?rt, run_point := At_wait (render_cursor rt), run_announced := run_announced s + 1,
    run_calls := run_calls s @ [(cursor, n + render_frames rt)]\<rparr>"
  have run: "render_exec ?es s = Some ?s" using turn assms(2) by (simp add: rt_def)
  have "flag_value st AND (GUAC_DISPLAY_RENDER_THREAD_STATE_STOPPING OR
        GUAC_DISPLAY_RENDER_THREAD_STATE_FRAME_READY OR GUAC_DISPLAY_RENDER_THREAD_STATE_FRAME_MODIFIED) = 0"
  proof (rule bit_word_eqI)
    fix k assume "k < LENGTH(32)"
    show "bit (flag_value st AND (GUAC_DISPLAY_RENDER_THREAD_STATE_STOPPING OR
        GUAC_DISPLAY_RENDER_THREAD_STATE_FRAME_READY OR GUAC_DISPLAY_RENDER_THREAD_STATE_FRAME_MODIFIED)) k = bit (0 :: 32 word) k"
      using stop by (auto simp: st_def rt_def guac_display_render_thread_notify_frame_def guac_display_render_thread_notify_user_moved_mouse_def
          bit_and_iff bit_or_iff bit_not_iff_eq) (metis gr0I)
  qed
  then have "guac_display_render_loop start now (run_point ?s) (run_thread ?s) = None" for start now
    by (simp add: guac_flag_wait_and_lock_def)
  then show ?thesis using run render_exec_run [OF run] rt(1, 2) by (intro exI [of _ ?s]) simp
qed

theorem guac_display_render_loses_cursor_witness:
  "\<exists>s s' cursor. render_exec [Turn 0, Modified, Turn 1] render_start = Some s \<and>
     render_exec [Mouse 9 40 50 0, Frame, Turn 12, Turn 12, Turn 12] s = Some s' \<and>
     run_calls s' = [(cursor, 1)] \<and> cursor_x cursor = 0 \<and> cursor_x (render_cursor (run_thread s')) = 40"
proof -
  have "case render_exec [Turn 0, Modified, Turn 1] render_start of None \<Rightarrow> False | Some s \<Rightarrow>
      (case run_point s of At_boundary c t n \<Rightarrow> cursor_x c = 0 \<and> n = 0 | _ \<Rightarrow> False) \<and> run_calls s = [] \<and> render_frames (run_thread s) = 0 \<and>
      \<not> flagged (run_thread s) GUAC_DISPLAY_RENDER_THREAD_STATE_STOPPING"
    by code_simp
  then obtain s c t where s: "render_exec [Turn 0, Modified, Turn 1] render_start = Some s" "run_point s = At_boundary c t 0" "cursor_x c = 0"
    "run_calls s = []" "render_frames (run_thread s) = 0" "\<not> flagged (run_thread s) GUAC_DISPLAY_RENDER_THREAD_STATE_STOPPING"
    by (auto split: option.splits render_point.splits)
  from guac_display_render_loses_cursor [OF render_exec_run [OF s(1)] s(2, 6), of 9 40 50 0 12 12 12] s
  show ?thesis by auto
qed

end
