(* ===== verification/Spec2Isabelle.thy ===== *)
theory Spec2Isabelle
  imports Mem Blob Parser Pool DisplayDup DisplayCursor DisplayRender
begin

text \<open>
  A verification library for \<open>guacamole-server\<close>, the C program of this repository
  (\<open>src/guacamole-server/src\<close>): the daemon and the libraries that translate remote desktops into the
  Guacamole protocol.

  \<^bold>\<open>The program and its parts.\<close> \<open>libguac\<close> writes instructions (\<open>protocol.c\<close>) to a socket
  (\<open>socket.c\<close>, over a descriptor in \<open>socket-fd.c\<close>) and parses the instructions it receives
  (\<open>parser.c\<close>); text is UTF-8 (\<open>unicode.c\<close>), memory is allocated with overflow checks (\<open>mem.c\<close>).
  Streams, objects and layers get their indices from integer pools (\<open>pool.c\<close>, used by \<open>user.c\<close> and
  \<open>client.c\<close>). The display keeps two frames per layer; its plan (\<open>display-plan*.c\<close>) compares them,
  makes drawing operations of the differences, rewrites these as rectangles and copies where that
  draws the same, combines neighbours, and hands them to worker threads through a queue (\<open>fifo.c\<close>,
  built on \<open>flag.c\<close>). Rectangles are \<open>rect.c\<close> of \<open>libguac\<close> and of \<open>common\<close>.

  \<^bold>\<open>Theories.\<close>
  \<^item> \<open>Prelude\<close>: the types shared by all components (\<open>outcome\<close> for calls that may abort the process,
    \<open>wrap32\<close> for \<open>int\<close> arithmetic, \<open>guac_status\<close>), lemmas on lists and words.
  \<^item> \<open>Mem\<close>: \<open>mem.c\<close>. \<open>size_t\<close> is a 64-bit word; the checked operations are exact or fail, and no
    allocation is smaller than its exact size.
  \<^item> \<open>Unicode\<close>: \<open>unicode.c\<close>; writing and reading a code point is a round trip.
  \<^item> \<open>Socket\<close>, \<open>SocketFd\<close>: \<open>socket.c\<close>, \<open>socket-fd.c\<close>, \<open>wait-fd.c\<close>. A socket is a record with its handlers
    as functions on its data; the kernel's \<open>read\<close>, \<open>write\<close> and \<open>poll\<close> follow an arbitrary plan. The
    contract of a sink is a locale, interpreted on the descriptor socket.
  \<^item> \<open>Printf\<close>, \<open>Wire\<close>, \<open>Protocol\<close>, \<open>Blob\<close>, \<open>Base64\<close>: \<open>protocol.c\<close>. Every \<open>guac_protocol_send\<close> function
    writes the wire format of its elements; blobs carry the data in chunks; base64 is a round trip.
  \<^item> \<open>Parser\<close>: \<open>parser.c\<close>, pointers as offsets of the instruction buffer; reading ends for all input and
    inverts the wire format. The contract of a source is a locale.
  \<^item> \<open>Pool\<close>: \<open>pool.c\<close> and its clients in \<open>user.c\<close> and \<open>client.c\<close>; the locale \<open>pooled_slots\<close> states the
    invariant of an array of slots indexed through a pool, and is interpreted three times.
  \<^item> \<open>Fifo\<close>: \<open>flag.c\<close>, \<open>fifo.c\<close>. A call that would wait is not enabled (\<open>None\<close>); interleavings are the
    inductive relation \<open>queue_run\<close>, and the locale \<open>shared_queue\<close> shows that the queue keeps order.
  \<^item> \<open>Rect\<close>: both \<open>rect.c\<close>; the locale \<open>region\<close> relates rectangles to sets of points.
  \<^item> \<open>DisplayPlan\<close>, \<open>DisplayCreate\<close>, \<open>DisplayRects\<close>, \<open>DisplaySearch\<close>: the display plan. \<open>plan_sound\<close>
    says that every operation draws pixels of the pending frame, given the last frame; each pass
    preserves it, and creation covers every changed pixel.
  \<^item> \<open>DisplayLayer\<close>: \<open>display.c\<close>, \<open>display-layer.c\<close>, \<open>display-layer-list.c\<close>. A display is a record with its
    layers in the order of the list; buffers are lists of lines of pixels, and every access outside of
    them is an error. \<open>display_inv\<close> is kept by every operation.
  \<^item> \<open>DisplayFlush\<close>, \<open>DisplayWorker\<close>, \<open>DisplayDup\<close>: \<open>display-flush.c\<close>, \<open>display-worker.c\<close> and
    \<open>guac_display_dup\<close>. What is sent is a list of drawing instructions, whose effect on the view of a client
    is defined beside them. Ending a frame gives the plan to the worker threads, whose steps interleave
    freely; when they are idle, the view shows the frame, on layers with and without an alpha channel, under the
    conditions \<open>frame_changes_ok\<close>. A user that joins gets the same view. The plan is put into the queue while
    its mutex is held, so a queue that fills up (\<open>GUAC_DISPLAY_WORKER_FIFO_SIZE\<close> operations) is the fault
    \<open>Deadlock\<close>; a plan has at most one operation per cell (\<open>display_cells\<close>), so displays with no more cells than
    slots cannot run into it.
  \<^item> \<open>DisplayCursor\<close>: \<open>display-cursor.c\<close>, \<open>display-builtin-cursors.c\<close>; setting a built-in cursor succeeds down to
    the frame that it ends. \<open>DisplayRender\<close>: \<open>display-render-thread.c\<close>, the render loop interleaved with the
    notifications of other threads.

  \<^bold>\<open>Bounds and fuel.\<close> No definition uses fuel. Loops that the source bounds are structural or have a
  measure; the parser's read loop and the search for modified layers are partial functions into
  \<open>option\<close>, and theorems state where they return. Sizes are those of the source: 32-bit \<open>int\<close>, 64-bit
  \<open>size_t\<close>, and the constants of the headers.

  \<^bold>\<open>Parameters.\<close> What is not in the repository is an argument: the compositing of translucent pixels by
  the client (\<open>blend\<close>, with the laws \<open>compositing\<close>), the stride that Cairo chooses for a width (\<open>stride_ok\<close>),
  the clock, the kernel's answers, and the encoders, which get the pixels of an image.

  \<^bold>\<open>Conditions on frames.\<close> \<open>frame_changes_ok\<close> leaves out two cases in which the program does not show the pending
  frame. A copy to a layer with an alpha channel is drawn over the old contents without clearing them
  (\<open>display-plan.c\<close>, \<open>GUAC_DISPLAY_PLAN_OPERATION_COPY\<close>), so where copies can be made the pixels have to be opaque.
  And two images of such a layer that overlap can be cleared first and then both be drawn, by two threads, so a
  translucent pixel could be composited twice: translucent changes have to lie within one cell. Beyond the laws
  of \<open>compositing\<close> nothing is assumed about how translucent pixels are blended.

  \<^bold>\<open>Not modelled.\<close> Threads are interleavings of the steps between which a lock is free (\<open>Fifo\<close>,
  \<open>DisplayWorker\<close>, \<open>DisplayRender\<close>), not of machine instructions; their start and stop, logging and the
  release of memory are left out. The Cairo contexts of layers, the image encoders, the handshake, the
  other sockets, the terminal emulator, the protocol plugins (over FreeRDP, libssh2, libvncclient), \<open>guacd\<close>,
  \<open>guacenc\<close>, \<open>guaclog\<close> and the Python panel are outside.
\<close>

section \<open>From sender to receiver\<close>

text \<open>
  The main loop of a receiver: \<open>n\<close> instructions are read one after the other, and the elements of
  each are kept.
\<close>

fun read_all :: "nat \<Rightarrow> guac_parser \<Rightarrow> 'd guac_socket \<Rightarrow> int \<Rightarrow> string list list option" where
  "read_all 0 p s t = Some []"
| "read_all (Suc n) p s t =
     (case guac_parser_read p s t of
        Some (Inr _, p', s') \<Rightarrow> map_option (\<lambda>ess. parser_elements p' # ess) (read_all n p' s' t)
      | _ \<Rightarrow> None)"

definition sendable :: "string list \<Rightarrow> bool" where
  "sendable es \<longleftrightarrow> es \<noteq> [] \<and> list_all good_element es \<and> length es < GUAC_INSTRUCTION_MAX_ELEMENTS \<and>
     length (encode_instruction es) \<le> INSTRUCTIONBUF_SIZE"

lemma read_all_encoded:
  "parser_idle p \<Longrightarrow> fd_source.source s \<Longrightarrow> fd_calm (data s) \<Longrightarrow> list_all sendable ess \<Longrightarrow>
   fd_source.pending p s = concat (map encode_instruction ess) @ rest \<Longrightarrow>
   read_all (length ess) p s t = Some ess"
proof (induction ess arbitrary: p s)
  case (Cons es ess)
  then have "fd_source.pending p s = encode_instruction es @ (concat (map encode_instruction ess) @ rest)"
    by simp
  with Cons.prems obtain p' s' where "guac_parser_read p s t = Some (Inr (), p', s')" "parser_elements p' = es"
    "parser_idle p'" "fd_source.source s'" "fd_calm (data s')"
    "fd_source.pending p' s' = concat (map encode_instruction ess) @ rest"
    using fd_source.read_encoded [of p s es _ t] by (auto simp: sendable_def)
  with Cons show ?case by simp
qed simp

lemma emits_sequence:
  "list_all2 wire_format ops ess \<Longrightarrow> fd_sink.emits (c_or ops) (concat (map encode_instruction ess))"
  by (induction rule: list_all2_induct)
    (auto intro: fd_sink.emits_c_or_Nil fd_sink.emits_c_or_Cons fd_sink.wire_format_emits simp del: c_or.simps)

text \<open>
  C1: the protocol from end to end. Instructions are written with the functions of
  \<open>protocol.c\<close> on a socket over a descriptor whose writes do not fail (they may be short), which is
  then flushed. Whatever the reader's kernel does with the chunks, a parser that reads these bytes
  from its own descriptor obtains the same instructions, in order.
\<close>

theorem instruction_roundtrip:
  assumes "list_all2 wire_format ops ess" "list_all sendable ess"
    and "None \<notin> set (write_plan f)" "fd_out f = []"
    and "fd_in g = fd_out (fd (data s))" "None \<notin> set (read_plan g)" "list_all (\<lambda>r. 0 < r) (poll_plan g)"
    and "c_or (ops @ [guac_socket_flush]) (guac_socket_open f clk) = Some (r, s)"
    and "length (instructionbuf p) = INSTRUCTIONBUF_SIZE"
  shows "r = 0 \<and> read_all (length ess) (guac_parser_alloc p) (guac_socket_open g clk') t = Some ess"
proof -
  let ?o = "guac_socket_open f clk"
  have h: "fd_healthy (data ?o)" "fd_sent (data ?o) = []"
    using assms(3,4) by (simp_all add: fd_healthy_def fd_sent_def guac_socket_open_def guac_socket_alloc_def)
  obtain r1 s1 where w: "c_or ops ?o = Some (r1, s1)" "fd_sink.wrote ?o (concat (map encode_instruction ess)) r1 s1"
    by (rule fd_sink.emitsE [OF emits_sequence [OF assms(1)] guac_socket_open_attached])
  with h have s1: "r1 = 0" "fd_healthy (data s1)" "fd_sink.attached s1"
    "fd_sent (data s1) = concat (map encode_instruction ess)"
    by (auto simp: fd_sink.wrote_def)
  obtain r2 s2 where fl: "guac_socket_flush s1 = Some (r2, s2)" "fd_sink.wrote s1 [] r2 s2"
    by (rule fd_sink.emitsE [OF fd_sink.emits_flush s1(3)])
  with s1 have s2: "r2 = 0" "fd_sent (data s2) = concat (map encode_instruction ess)"
    by (auto simp: fd_sink.wrote_def)
  from assms(8) w s1 fl s2 have s: "r = 0" "s = s2" by (auto simp: c_or_append)
  with flushed_out [OF s1(3)] fl(1) s2 have out: "fd_out (fd (data s)) = concat (map encode_instruction ess)"
    by simp
  let ?p = "guac_parser_alloc p" and ?g = "guac_socket_open g clk'"
  have "parser_idle ?p" using assms(9) by (simp add: parser_idle_def guac_parser_alloc_def guac_parser_reset_def)
  moreover have "fd_calm (data ?g)" "fd_source.pending ?p ?g = concat (map encode_instruction ess) @ []"
    using assms(5-7) out by (simp_all add: fd_calm_def fd_source.pending_def guac_parser_alloc_def
      guac_parser_reset_def guac_socket_open_def guac_socket_alloc_def)
  ultimately show ?thesis using read_all_encoded [of ?p ?g ess "[]" t] assms(2) s(1) by simp
qed

theorem instruction_roundtrip_witness:
  "\<exists>s. c_or [guac_protocol_send_nop, guac_protocol_send_sync 7 2, guac_socket_flush] (quiet_socket []) = Some (0, s) \<and>
    read_all 2 (guac_parser_alloc zero_parser)
      (guac_socket_open ((quiet_fd (fd_out (fd (data s))))\<lparr>read_plan := [Some 1, Some 0]\<rparr>) (\<lambda>_. 0)) 1000 =
    Some [[''nop''], [''sync'', ''7'', ''2'']]"
proof -
  let ?ops = "[guac_protocol_send_nop, guac_protocol_send_sync 7 2] :: guac_socket_fd_data sock_op list"
  let ?ess = "[[''nop''], [''sync'', show_int 7, show_int 2]]"
  have digits: "show_int 7 = ''7''" "show_int 2 = ''2''" by code_simp+
  have w: "list_all2 wire_format ?ops ?ess" by (simp add: wire_format.intros)
  have g: "list_all sendable ?ess" by code_simp
  obtain r s where c: "c_or (?ops @ [guac_socket_flush]) (guac_socket_open (quiet_fd []) (\<lambda>_. 0)) = Some (r, s)"
  proof -
    have "fd_sink.emits (c_or [guac_protocol_send_nop, guac_protocol_send_sync 7 2, guac_socket_flush])
        (encode_instruction [''nop''] @ encode_instruction [''sync'', show_int 7, show_int 2] @ [] @ [])"
      by (intro fd_sink.emits_c_or_Cons fd_sink.emits_c_or_Nil fd_sink.emits_flush fd_sink.wire_format_emits
          wire_format.intros)
    then show thesis
      by (rule fd_sink.emitsE [OF _ guac_socket_open_attached]) (rule that, simp only: append.simps)
  qed
  let ?g = "(quiet_fd (fd_out (fd (data s))))\<lparr>read_plan := [Some 1, Some 0]\<rparr>"
  have "r = 0 \<and> read_all (length ?ess) (guac_parser_alloc zero_parser) (guac_socket_open ?g (\<lambda>_. 0)) 1000 = Some ?ess"
    by (rule instruction_roundtrip [OF w g _ _ _ _ _ c]) (simp_all add: quiet_fd_def zero_parser_def)
  with c show ?thesis by (auto simp: digits quiet_socket_def numeral_2_eq_2)
qed

end
